(* ===== verification/Prelude.thy ===== *)
theory Prelude
  imports Main "HOL-Library.Word"
begin

text \<open>
  Shared vocabulary of the development: the faults a C operation can run into, the
  result type of every operation that can fault, guarded array and pointer access, C
  strings in fixed buffers, and the fact collections the component theories extend.

  A C expression whose behaviour the language leaves undefined (a null or wild pointer, an
  index outside its array, a copy past the end of a buffer) is a value of type fault; a
  loop that does not end is the fault Diverges.
\<close>

named_theorems guard_simps "evaluation of guarded reads, writes and sequencing"
named_theorems frame_simps "fields an operation leaves unchanged"

section \<open>Faults and results\<close>

datatype fault =
    NullDeref       \<comment> \<open>a null pointer is dereferenced\<close>
  | WildPointer     \<comment> \<open>a pointer that addresses no object is dereferenced\<close>
  | OutOfBounds     \<comment> \<open>an index, or a read, outside its array\<close>
  | BufferOverflow  \<comment> \<open>a copy or a write past the end of its buffer\<close>
  | Uninitialised   \<comment> \<open>an object is read before it is written\<close>
  | DivByZero       \<comment> \<open>an integer division by zero\<close>
  | BadShift        \<comment> \<open>a shift by the width of its operand or more\<close>
  | IntOverflow     \<comment> \<open>a signed addition that leaves the range of its type\<close>
  | Diverges        \<comment> \<open>a loop that does not end\<close>
  | Panic           \<comment> \<open>the code's own panic() or failed assert()\<close>

type_synonym 'a res = "fault + 'a"

text \<open>Sequencing: the first fault ends the computation.\<close>

fun bnd :: "'a res \<Rightarrow> ('a \<Rightarrow> 'b res) \<Rightarrow> 'b res" where
  "bnd (Inl e) f = Inl e"
| "bnd (Inr x) f = f x"

lemma bnd_cong [fundef_cong]:
  "m = m' \<Longrightarrow> (\<And>x. m' = Inr x \<Longrightarrow> f x = f' x) \<Longrightarrow> bnd m f = bnd m' f'"
  by (cases m') auto

lemma bnd_eq_Inr [guard_simps]: "bnd m f = Inr y \<longleftrightarrow> (\<exists>x. m = Inr x \<and> f x = Inr y)"
  by (cases m) auto

lemma bnd_eq_Inl: "bnd m f = Inl e \<longleftrightarrow> m = Inl e \<or> (\<exists>x. m = Inr x \<and> f x = Inl e)"
  by (cases m) auto

lemma bnd_Inr_right [simp]: "bnd m Inr = m"
  by (cases m) auto

lemma bnd_if: "bnd (if b then m else n) f = (if b then bnd m f else bnd n f)"
  by simp

section \<open>Guarded access\<close>

definition deref :: "'a option \<Rightarrow> 'a res" where
  "deref p = (case p of None \<Rightarrow> Inl NullDeref | Some x \<Rightarrow> Inr x)"

definition rd :: "'a list \<Rightarrow> int \<Rightarrow> 'a res" where
  "rd xs i = (if 0 \<le> i \<and> i < int (length xs) then Inr (xs ! nat i) else Inl OutOfBounds)"

definition wr :: "'a list \<Rightarrow> int \<Rightarrow> 'a \<Rightarrow> 'a list res" where
  "wr xs i x = (if 0 \<le> i \<and> i < int (length xs) then Inr (xs[nat i := x]) else Inl OutOfBounds)"

lemma deref_simps [simp, guard_simps]:
  "deref None = Inl NullDeref" "deref (Some x) = Inr x"
  by (simp_all add: deref_def)

lemma deref_eq_Inr [simp]: "deref p = Inr x \<longleftrightarrow> p = Some x"
  by (cases p) auto

lemma rd_in [simp]: "0 \<le> i \<Longrightarrow> i < int (length xs) \<Longrightarrow> rd xs i = Inr (xs ! nat i)"
  by (simp add: rd_def)

lemma rd_nat [simp]: "n < length xs \<Longrightarrow> rd xs (int n) = Inr (xs ! n)"
  by (simp add: rd_def)

lemma rd_neg [simp]: "i < 0 \<Longrightarrow> rd xs i = Inl OutOfBounds"
  by (simp add: rd_def)

lemma rd_eq_Inr: "rd xs i = Inr x \<longleftrightarrow> 0 \<le> i \<and> i < int (length xs) \<and> x = xs ! nat i"
  by (auto simp: rd_def)

lemma wr_in [simp]: "0 \<le> i \<Longrightarrow> i < int (length xs) \<Longrightarrow> wr xs i x = Inr (xs[nat i := x])"
  by (simp add: wr_def)

lemma wr_eq_Inr: "wr xs i x = Inr ys \<longleftrightarrow> 0 \<le> i \<and> i < int (length xs) \<and> ys = xs[nat i := x]"
  by (auto simp: wr_def)

lemma wr_length: "wr xs i x = Inr ys \<Longrightarrow> length ys = length xs"
  by (auto simp: wr_eq_Inr)

section \<open>C strings\<close>

text \<open>
  A character array is a list of its bytes. Its value as a C string is the part before the
  first NUL byte; strcpy faults when the source has no NUL, and when the destination is too
  small for the characters and the NUL.
\<close>

abbreviation NUL :: char where
  "NUL \<equiv> CHR 0x00"

definition cstr :: "char list \<Rightarrow> string" where
  "cstr buf = takeWhile (\<lambda>c. c \<noteq> NUL) buf"

definition strcpy :: "char list \<Rightarrow> char list \<Rightarrow> char list res" where
  "strcpy dst src =
     (if NUL \<notin> set src then Inl OutOfBounds
      else if length (cstr src) < length dst
      then Inr (cstr src @ NUL # drop (Suc (length (cstr src))) dst)
      else Inl BufferOverflow)"

lemma cstr_append_NUL [simp]: "NUL \<notin> set s \<Longrightarrow> cstr (s @ NUL # xs) = s"
  by (induction s) (auto simp: cstr_def)

lemma cstr_append_any: "cstr (s @ NUL # xs) = cstr (s @ [NUL])"
  by (induction s) (auto simp: cstr_def)

lemma NUL_notin_cstr [simp]: "NUL \<notin> set (cstr buf)"
  by (auto simp: cstr_def dest: set_takeWhileD)

lemma cstr_short: "NUL \<in> set buf \<Longrightarrow> length (cstr buf) < length buf"
  unfolding cstr_def by (induction buf) auto

lemma strcpy_ok:
  assumes "NUL \<in> set src" and "length src = length dst"
  shows "\<exists>buf. strcpy dst src = Inr buf \<and> cstr buf = cstr src \<and> length buf = length dst"
  using assms cstr_short [OF assms(1)] by (auto simp: strcpy_def)

section \<open>Search loops\<close>

text \<open>\<open>find\<close> is the loop that returns at the first index that passes its test.\<close>

lemma find_upt_Some:
  assumes "find P [0..<n] = Some i"
  shows "i < n \<and> P i \<and> (\<forall>j<i. \<not> P j)"
  using assms by (auto simp: find_Some_iff nth_upt)

lemma find_upt_None: "find P [0..<n] = None \<longleftrightarrow> (\<forall>i<n. \<not> P i)"
  by (auto simp: find_None_iff)

end
