(* ===== verification/MbQueue.thy ===== *)
theory MbQueue
  imports Prelude
begin

text \<open>
  The message queue of one mailbox (prj_2/src/mailbox.c): the linked list of mail nodes,
  putMsg at its rear, getMsg at its front, and unsuspend_rx for a receiver that waits. The
  nodes live in an explicit store because putMsg links a new node through the rear pointer
  of the old ones. The interface bounded_fifo says what a bounded queue promises; the
  mailbox queue is an instance of it.
\<close>

section \<open>Data\<close>

abbreviation MAX_SENDERS :: nat where "MAX_SENDERS \<equiv> 10"
abbreviation MAX_MAILBOXES :: nat where "MAX_MAILBOXES \<equiv> 10"
abbreviation MB_CAPACITY :: int where "MB_CAPACITY \<equiv> 10"

datatype ptr = NULL | Ref nat

record Message_mb =
  data :: "char list"
  sender_id :: int

record MailNode =
  node_msg :: Message_mb
  node_next :: ptr

text \<open>The fields of a MINIX type-7 message that the mailbox code uses.\<close>

record message =
  m_source :: int
  m7_i1 :: int
  m7_i2 :: int
  m7_i3 :: int
  m7_i4 :: int
  m7_p1 :: int
  m7_p2 :: int

record MailBox =
  mb_id :: int
  owner_pid :: int
  owner_uid :: int
  owner_gid :: int
  perm :: int
  senders :: "int list"
  suspended_sender :: "int list"
  sus_sender_idx :: int
  num_senders :: int
  num_messages :: int
  rx_suspended :: int
  sus_end_p :: int
  sus_m_source :: int
  sus_message :: message
  front :: ptr
  rear :: ptr

text \<open>
  What the server does to the world outside it, in order: it marks a process revived
  (fp_flags), copies bytes or integers to an address of a process (sys_datacopy), and
  answers a process (reply).
\<close>

datatype payload = Bytes "char list" | Ints "int list"

datatype effect =
    Revive int
  | CopyOut int int payload
  | Reply int int

record store =
  nodes :: "nat \<rightharpoonup> MailNode"
  brk :: nat
  effs :: "effect list"

definition emit :: "effect list \<Rightarrow> 'a store_scheme \<Rightarrow> 'a store_scheme" where
  "emit es s = s\<lparr>effs := effs s @ es\<rparr>"

section \<open>Operations\<close>

text \<open>\<open>fpe i\<close> is \<open>fproc[i].fp_endpoint\<close>, a field of the VFS process table.\<close>

definition unsuspend_rx ::
    "(int \<Rightarrow> int) \<Rightarrow> MailBox \<Rightarrow> Message_mb \<Rightarrow> 'a store_scheme \<Rightarrow> int \<times> 'a store_scheme" where
  "unsuspend_rx fpe m mail s =
     (0, emit [Revive (sus_end_p m),
               CopyOut (sus_m_source m) (m7_p1 (sus_message m)) (Bytes (data mail)),
               Reply (fpe (sus_end_p m)) 0] s)"

definition load_node :: "'a store_scheme \<Rightarrow> ptr \<Rightarrow> MailNode res" where
  "load_node s p =
     (case p of NULL \<Rightarrow> Inl NullDeref
      | Ref a \<Rightarrow> (case nodes s a of None \<Rightarrow> Inl WildPointer | Some nd \<Rightarrow> Inr nd))"

definition set_next :: "ptr \<Rightarrow> ptr \<Rightarrow> 'a store_scheme \<Rightarrow> 'a store_scheme res" where
  "set_next p q s =
     (case p of NULL \<Rightarrow> Inl NullDeref
      | Ref a \<Rightarrow> (case nodes s a of None \<Rightarrow> Inl WildPointer
                 | Some nd \<Rightarrow> Inr (s\<lparr>nodes := (nodes s)(a \<mapsto> nd\<lparr>node_next := q\<rparr>)\<rparr>)))"

text \<open>
  putMsg. The source has \<open>m->rx_suspended == 0;\<close> before it wakes the receiver: a comparison
  whose value is dropped, so the flag keeps its value here as well.
\<close>

definition putMsg ::
    "(int \<Rightarrow> int) \<Rightarrow> MailBox \<Rightarrow> Message_mb \<Rightarrow> 'a store_scheme
      \<Rightarrow> (int \<times> MailBox \<times> 'a store_scheme) res" where
  "putMsg fpe m mail s =
     (if MB_CAPACITY \<le> num_messages m then Inr (-1, m, s)
      else if rx_suspended m = 1 then
        (let (ret, s') = unsuspend_rx fpe m mail s in Inr (ret, m, s'))
      else
        (let a = brk s;
             s1 = s\<lparr>nodes := (nodes s)(a \<mapsto> \<lparr>node_msg = mail, node_next = NULL\<rparr>), brk := Suc a\<rparr>
         in if front m = NULL
            then Inr (0, m\<lparr>front := Ref a, rear := Ref a, num_messages := num_messages m + 1\<rparr>, s1)
            else bnd (set_next (rear m) (Ref a) s1)
                   (\<lambda>s2. Inr (0, m\<lparr>rear := Ref a, num_messages := num_messages m + 1\<rparr>, s2))))"

text \<open>
  getMsg copies the message at the front into the caller's buffer \<open>buf\<close> (the data field of
  a block fresh from malloc, so its old contents are arbitrary).
\<close>

definition getMsg ::
    "MailBox \<Rightarrow> char list \<Rightarrow> 'a store_scheme \<Rightarrow> (int \<times> char list \<times> MailBox) res" where
  "getMsg mb buf s =
     (if front mb = NULL then Inr (-1, buf, mb)
      else bnd (load_node s (front mb)) (\<lambda>cur.
           bnd (strcpy buf (data (node_msg cur))) (\<lambda>buf'.
             Inr (0, buf',
                  (if node_next cur = NULL then mb\<lparr>front := NULL, rear := NULL\<rparr>
                   else mb\<lparr>front := node_next cur\<rparr>)\<lparr>num_messages := num_messages mb - 1\<rparr>))))"

section \<open>Representation\<close>

text \<open>\<open>walk h p n\<close>: the addresses of the n nodes from p to the null pointer.\<close>

fun walk :: "(nat \<rightharpoonup> MailNode) \<Rightarrow> ptr \<Rightarrow> nat \<Rightarrow> nat list option" where
  "walk h p 0 = (if p = NULL then Some [] else None)"
| "walk h NULL (Suc n) = None"
| "walk h (Ref a) (Suc n) =
     (case h a of None \<Rightarrow> None
      | Some nd \<Rightarrow> map_option ((#) a) (walk h (node_next nd) n))"

definition queue_nodes :: "MailBox \<Rightarrow> 'a store_scheme \<Rightarrow> nat list option" where
  "queue_nodes mb s = walk (nodes s) (front mb) (nat (num_messages mb))"

definition queue_ok :: "MailBox \<Rightarrow> 'a store_scheme \<Rightarrow> bool" where
  "queue_ok mb s \<longleftrightarrow>
     0 \<le> num_messages mb \<and> num_messages mb \<le> MB_CAPACITY \<and>
     (case queue_nodes mb s of None \<Rightarrow> False
      | Some as \<Rightarrow> distinct as \<and> list_all (\<lambda>a. a < brk s) as
                   \<and> (as \<noteq> [] \<longrightarrow> rear mb = Ref (last as)))"

definition queue_msgs :: "MailBox \<Rightarrow> 'a store_scheme \<Rightarrow> Message_mb list" where
  "queue_msgs mb s =
     (case queue_nodes mb s of None \<Rightarrow> []
      | Some as \<Rightarrow> map (\<lambda>a. node_msg (the (nodes s a))) as)"

text \<open>A message that getMsg can deliver: 256 bytes with a NUL among them.\<close>

definition msg_ok :: "Message_mb \<Rightarrow> bool" where
  "msg_ok m \<longleftrightarrow> length (data m) = 256 \<and> NUL \<in> set (data m)"

section \<open>Paths\<close>

lemma walk_length: "walk h p n = Some as \<Longrightarrow> length as = n"
  by (induction h p n arbitrary: as rule: walk.induct) (auto split: if_splits option.splits)

lemma walk_dom: "walk h p n = Some as \<Longrightarrow> a \<in> set as \<Longrightarrow> \<exists>nd. h a = Some nd"
  by (induction h p n arbitrary: as rule: walk.induct) (auto split: if_splits option.splits)

lemma walk_cong:
  "walk h p n = Some as \<Longrightarrow> (\<And>a. a \<in> set as \<Longrightarrow> h' a = h a) \<Longrightarrow> walk h' p n = Some as"
  by (induction h p n arbitrary: as rule: walk.induct) (auto split: if_splits option.splits)

lemma walk_NULL: "walk h NULL n = Some as \<longleftrightarrow> n = 0 \<and> as = []"
  by (cases n) auto

lemma walk_Nil: "walk h p n = Some [] \<longleftrightarrow> n = 0 \<and> p = NULL"
  by (cases n; cases p) (auto split: option.splits)

text \<open>Linking a fresh node behind the last one appends its address to the path.\<close>

lemma walk_append:
  assumes "walk h p n = Some as" and "as \<noteq> []" and "distinct as" and "b \<notin> set as"
    and "h (last as) = Some nd"
  shows "walk (h(b \<mapsto> x\<lparr>node_next := NULL\<rparr>, last as \<mapsto> nd\<lparr>node_next := Ref b\<rparr>)) p (Suc n)
         = Some (as @ [b])"
  using assms
proof (induction h p n arbitrary: as rule: walk.induct)
  case (1 h p)
  then show ?case by (auto split: if_splits)
next
  case (2 h n)
  then show ?case by simp
next
  case (3 h a n)
  then obtain nda as' where a: "h a = Some nda" "walk h (node_next nda) n = Some as'" "as = a # as'"
    by (auto split: option.splits)
  show ?case
  proof (cases "as' = []")
    case True
    with a have "n = 0" "node_next nda = NULL" by (auto simp: walk_Nil)
    with a True "3.prems" show ?thesis by auto
  next
    case False
    then have l: "last as = last as'" and la: "last as' \<in> set as'" using a by auto
    with a False "3.prems" "3.IH" [of nda as'] show ?thesis by auto
  qed
qed

section \<open>The queue operations on their representation\<close>

lemma queue_ok_iff:
  "queue_ok mb s \<longleftrightarrow>
     (\<exists>as. queue_nodes mb s = Some as \<and> distinct as \<and> (\<forall>a\<in>set as. a < brk s) \<and>
        (as \<noteq> [] \<longrightarrow> rear mb = Ref (last as)) \<and> num_messages mb = int (length as) \<and>
        length as \<le> 10)"
  (is "_ \<longleftrightarrow> (\<exists>as. ?R as)")
proof (cases "queue_nodes mb s")
  case None
  then show ?thesis by (simp add: queue_ok_def)
next
  case (Some as)
  then have "length as = nat (num_messages mb)"
    unfolding queue_nodes_def by (rule walk_length)
  with Some show ?thesis by (auto simp: queue_ok_def list_all_iff)
qed

lemma queue_okE:
  assumes "queue_ok mb s"
  obtains as where "queue_nodes mb s = Some as" "distinct as" "\<forall>a\<in>set as. a < brk s"
    "as \<noteq> [] \<longrightarrow> rear mb = Ref (last as)" "num_messages mb = int (length as)"
    "length as \<le> 10" "queue_msgs mb s = map (\<lambda>a. node_msg (the (nodes s a))) as"
  using assms by (auto simp: queue_ok_iff queue_msgs_def)

lemma queue_nodes_emit [simp]: "queue_nodes mb (emit es s) = queue_nodes mb s"
  by (simp add: emit_def queue_nodes_def)

lemma brk_emit [simp]: "brk (emit es s) = brk s"
  and nodes_emit [simp]: "nodes (emit es s) = nodes s"
  by (simp_all add: emit_def)

lemma queue_ok_emit [simp]: "queue_ok mb (emit es s) = queue_ok mb s"
  by (simp add: queue_ok_iff)

lemma queue_msgs_emit [simp]: "queue_msgs mb (emit es s) = queue_msgs mb s"
  by (simp add: queue_msgs_def cong: option.case_cong)

lemma front_NULL_iff:
  assumes "queue_ok mb s" shows "front mb = NULL \<longleftrightarrow> queue_msgs mb s = []"
  using assms
proof (rule queue_okE)
  fix as
  assume as: "queue_nodes mb s = Some as" and m: "queue_msgs mb s = map (\<lambda>a. node_msg (the (nodes s a))) as"
  show ?thesis
  proof (cases as)
    case Nil
    with as m show ?thesis by (simp add: queue_nodes_def walk_Nil)
  next
    case (Cons a as')
    with as have "front mb \<noteq> NULL" by (auto simp: queue_nodes_def walk_NULL)
    with m Cons show ?thesis by simp
  qed
qed

lemma putMsg_full:
  assumes "queue_ok m s" and "length (queue_msgs m s) = 10"
  shows "putMsg fpe m mail s = Inr (-1, m, s)"
  using assms by (elim queue_okE) (simp add: putMsg_def)

lemma putMsg_waiting:
  assumes "queue_ok m s" and "length (queue_msgs m s) < 10" and "rx_suspended m = 1"
  shows "putMsg fpe m mail s = Inr (0, m, snd (unsuspend_rx fpe m mail s))"
  using assms by (elim queue_okE) (simp add: putMsg_def unsuspend_rx_def)

text \<open>What a put into a mailbox with room does to the store and to the mailbox record.\<close>

lemma putMsg_room:
  assumes ok: "queue_ok m s" and room: "length (queue_msgs m s) < 10" and rx: "rx_suspended m \<noteq> 1"
  obtains h f where
    "putMsg fpe m mail s =
       Inr (0, m\<lparr>front := f, rear := Ref (brk s), num_messages := num_messages m + 1\<rparr>,
            s\<lparr>nodes := h, brk := Suc (brk s)\<rparr>)"
    "queue_nodes (m\<lparr>front := f, rear := Ref (brk s), num_messages := num_messages m + 1\<rparr>)
       (s\<lparr>nodes := h, brk := Suc (brk s)\<rparr>) = Some (the (queue_nodes m s) @ [brk s])"
    "\<And>a. a \<noteq> brk s \<Longrightarrow> map_option node_msg (h a) = map_option node_msg (nodes s a)"
    "map_option node_msg (h (brk s)) = Some mail"
    "\<And>a. a \<noteq> brk s \<Longrightarrow> a \<notin> set (the (queue_nodes m s)) \<Longrightarrow> h a = nodes s a"
  using ok
proof (rule queue_okE)
  fix as
  let ?new = "\<lparr>node_msg = mail, node_next = NULL\<rparr>"
  assume as: "queue_nodes m s = Some as" and d: "distinct as" and b: "\<forall>a\<in>set as. a < brk s"
    and r: "as \<noteq> [] \<longrightarrow> rear m = Ref (last as)" and n: "num_messages m = int (length as)"
    and m: "queue_msgs m s = map (\<lambda>a. node_msg (the (nodes s a))) as"
  have w: "walk (nodes s) (front m) (length as) = Some as"
    using as n by (simp add: queue_nodes_def)
  have len: "nat (num_messages m + 1) = Suc (length as)" using n by simp
  have notfull: "\<not> MB_CAPACITY \<le> num_messages m" using n m room by simp
  show thesis
  proof (cases "as = []")
    case True
    with w have f: "front m = NULL" by (simp split: if_splits)
    show ?thesis
      by (rule that [of "Ref (brk s)" "(nodes s)(brk s \<mapsto> ?new)"])
        (use f rx notfull True as len in \<open>simp_all add: putMsg_def queue_nodes_def Let_def\<close>)
  next
    case False
    then have la: "last as \<in> set as" by simp
    with b have lb: "last as \<noteq> brk s" by auto
    from w la obtain nd where nd: "nodes s (last as) = Some nd" by (blast dest: walk_dom)
    have f: "front m \<noteq> NULL" using w False by (auto simp: walk_NULL)
    let ?h = "(nodes s)(brk s \<mapsto> ?new, last as \<mapsto> nd\<lparr>node_next := Ref (brk s)\<rparr>)"
    have app: "walk ?h (front m) (Suc (length as)) = Some (as @ [brk s])"
      using walk_append [OF w False d _ nd, of "brk s" ?new] b by auto
    show ?thesis
      by (rule that [of "front m" ?h])
        (use f rx notfull False as len app lb nd r la in
          \<open>auto simp: putMsg_def queue_nodes_def set_next_def Let_def\<close>)
  qed
qed

text \<open>A queue whose own nodes are untouched is untouched.\<close>

lemma queue_frame:
  assumes "queue_ok m2 s" and "\<And>a. a \<in> set (the (queue_nodes m2 s)) \<Longrightarrow> nodes s' a = nodes s a"
    and "brk s \<le> brk s'"
  shows "queue_ok m2 s' \<and> queue_msgs m2 s' = queue_msgs m2 s \<and> queue_nodes m2 s' = queue_nodes m2 s"
  using assms(1)
proof (rule queue_okE)
  fix as
  assume as: "queue_nodes m2 s = Some as" and r: "distinct as" "\<forall>a\<in>set as. a < brk s"
    "as \<noteq> [] \<longrightarrow> rear m2 = Ref (last as)" "num_messages m2 = int (length as)" "length as \<le> 10"
    and m: "queue_msgs m2 s = map (\<lambda>a. node_msg (the (nodes s a))) as"
  have same: "nodes s' a = nodes s a" if "a \<in> set as" for a using assms(2) as that by simp
  have n: "queue_nodes m2 s' = Some as"
    using as same unfolding queue_nodes_def by (auto intro: walk_cong)
  have "queue_ok m2 s'" using n r assms(3) by (force simp: queue_ok_iff)
  moreover have "queue_msgs m2 s' = queue_msgs m2 s" using n m same by (simp add: queue_msgs_def)
  ultimately show ?thesis using n as by simp
qed

lemma putMsg_spec:
  assumes ok: "queue_ok m s" and room: "length (queue_msgs m s) < 10" and rx: "rx_suspended m \<noteq> 1"
  obtains h f where
    "putMsg fpe m mail s =
       Inr (0, m\<lparr>front := f, rear := Ref (brk s), num_messages := num_messages m + 1\<rparr>,
            s\<lparr>nodes := h, brk := Suc (brk s)\<rparr>)"
    "queue_ok (m\<lparr>front := f, rear := Ref (brk s), num_messages := num_messages m + 1\<rparr>)
       (s\<lparr>nodes := h, brk := Suc (brk s)\<rparr>)"
    "queue_msgs (m\<lparr>front := f, rear := Ref (brk s), num_messages := num_messages m + 1\<rparr>)
       (s\<lparr>nodes := h, brk := Suc (brk s)\<rparr>) = queue_msgs m s @ [mail]"
    "queue_nodes (m\<lparr>front := f, rear := Ref (brk s), num_messages := num_messages m + 1\<rparr>)
       (s\<lparr>nodes := h, brk := Suc (brk s)\<rparr>) = Some (the (queue_nodes m s) @ [brk s])"
    "\<And>a. a \<noteq> brk s \<Longrightarrow> a \<notin> set (the (queue_nodes m s)) \<Longrightarrow> h a = nodes s a"
proof -
  obtain h f where p:
    "putMsg fpe m mail s =
       Inr (0, m\<lparr>front := f, rear := Ref (brk s), num_messages := num_messages m + 1\<rparr>,
            s\<lparr>nodes := h, brk := Suc (brk s)\<rparr>)"
    and q: "queue_nodes (m\<lparr>front := f, rear := Ref (brk s), num_messages := num_messages m + 1\<rparr>)
       (s\<lparr>nodes := h, brk := Suc (brk s)\<rparr>) = Some (the (queue_nodes m s) @ [brk s])"
    and keep: "\<And>a. a \<noteq> brk s \<Longrightarrow> map_option node_msg (h a) = map_option node_msg (nodes s a)"
    and new: "map_option node_msg (h (brk s)) = Some mail"
    and frm: "\<And>a. a \<noteq> brk s \<Longrightarrow> a \<notin> set (the (queue_nodes m s)) \<Longrightarrow> h a = nodes s a"
    using putMsg_room [OF assms] by metis
  obtain as where as: "queue_nodes m s = Some as" and d: "distinct as" "\<forall>a\<in>set as. a < brk s"
    "num_messages m = int (length as)" "length as \<le> 10"
    and m: "queue_msgs m s = map (\<lambda>a. node_msg (the (nodes s a))) as"
    using ok by (rule queue_okE)
  have ex: "\<exists>nd. nodes s a = Some nd" if "a \<in> set as" for a
    using as that unfolding queue_nodes_def by (blast dest: walk_dom)
  have same: "node_msg (the (h a)) = node_msg (the (nodes s a))" if "a \<in> set as" for a
  proof -
    from ex [OF that] obtain nd where "nodes s a = Some nd" ..
    moreover have "a \<noteq> brk s" using d that by auto
    ultimately show ?thesis using keep [of a] by auto
  qed
  have newm: "node_msg (the (h (brk s))) = mail" using new by auto
  show thesis
  proof (rule that [OF p _ _ q frm])
    show "queue_ok (m\<lparr>front := f, rear := Ref (brk s), num_messages := num_messages m + 1\<rparr>)
       (s\<lparr>nodes := h, brk := Suc (brk s)\<rparr>)"
      using q as d room m by (auto simp: queue_ok_iff less_Suc_eq)
    show "queue_msgs (m\<lparr>front := f, rear := Ref (brk s), num_messages := num_messages m + 1\<rparr>)
       (s\<lparr>nodes := h, brk := Suc (brk s)\<rparr>) = queue_msgs m s @ [mail]"
      using q as m same newm by (simp add: queue_msgs_def)
  qed
qed

lemma getMsg_empty:
  assumes "queue_ok mb s" and "queue_msgs mb s = []"
  shows "getMsg mb buf s = Inr (-1, buf, mb)"
  using assms by (simp add: getMsg_def front_NULL_iff)

text \<open>On a non-empty queue getMsg is the copy of the first message, then the pop.\<close>

lemma getMsg_pop:
  assumes ok: "queue_ok mb s" and ms: "queue_msgs mb s = m # ms"
  obtains f r where
    "getMsg mb buf s = bnd (strcpy buf (data m)) (\<lambda>buf'.
       Inr (0, buf', mb\<lparr>front := f, rear := r, num_messages := num_messages mb - 1\<rparr>))"
    "queue_ok (mb\<lparr>front := f, rear := r, num_messages := num_messages mb - 1\<rparr>) s"
    "queue_msgs (mb\<lparr>front := f, rear := r, num_messages := num_messages mb - 1\<rparr>) s = ms"
    "queue_nodes (mb\<lparr>front := f, rear := r, num_messages := num_messages mb - 1\<rparr>) s
       = Some (tl (the (queue_nodes mb s)))"
  using ok
proof (rule queue_okE)
  fix as
  assume as: "queue_nodes mb s = Some as" and d: "distinct as" and b: "\<forall>a\<in>set as. a < brk s"
    and r: "as \<noteq> [] \<longrightarrow> rear mb = Ref (last as)" and n: "num_messages mb = int (length as)"
    and le: "length as \<le> 10" and mm: "queue_msgs mb s = map (\<lambda>a. node_msg (the (nodes s a))) as"
  from ms mm obtain a as' where Cons: "as = a # as'" by (cases as) auto
  from as n Cons have "walk (nodes s) (front mb) (Suc (length as')) = Some (a # as')"
    by (simp add: queue_nodes_def nat_add_distrib)
  then obtain nd where f: "front mb = Ref a" and nd: "nodes s a = Some nd"
    and w: "walk (nodes s) (node_next nd) (length as') = Some as'"
    by (cases "front mb") (auto split: option.splits)
  have dm: "node_msg nd = m" "ms = map (\<lambda>a. node_msg (the (nodes s a))) as'"
    using ms mm Cons nd by auto
  define r' where "r' = (if node_next nd = NULL then NULL else rear mb)"
  let ?mb = "mb\<lparr>front := node_next nd, rear := r', num_messages := num_messages mb - 1\<rparr>"
  have q: "queue_nodes ?mb s = Some as'" using w n Cons by (simp add: queue_nodes_def)
  have "as' \<noteq> [] \<Longrightarrow> node_next nd \<noteq> NULL" using w by (auto simp: walk_NULL)
  then have rr: "as' \<noteq> [] \<longrightarrow> r' = Ref (last as')" using r Cons by (auto simp: r'_def)
  show thesis
  proof (rule that [where f = "node_next nd" and r = r'])
    show "getMsg mb buf s = bnd (strcpy buf (data m)) (\<lambda>buf'. Inr (0, buf', ?mb))"
      using f nd dm by (cases "node_next nd = NULL") (simp_all add: getMsg_def load_node_def r'_def)
    show "queue_ok ?mb s" using q d b rr n le Cons by (simp add: queue_ok_iff)
    show "queue_msgs ?mb s = ms" using q dm by (simp add: queue_msgs_def)
    show "queue_nodes ?mb s = Some (tl (the (queue_nodes mb s)))" using q as Cons by simp
  qed
qed

lemma getMsg_front:
  assumes ok: "queue_ok mb s" and ms: "queue_msgs mb s = m # ms"
    and m: "msg_ok m" and buf: "length buf = 256"
  obtains buf' f r where
    "getMsg mb buf s =
       Inr (0, buf', mb\<lparr>front := f, rear := r, num_messages := num_messages mb - 1\<rparr>)"
    "cstr buf' = cstr (data m)" "length buf' = 256"
    "queue_ok (mb\<lparr>front := f, rear := r, num_messages := num_messages mb - 1\<rparr>) s"
    "queue_msgs (mb\<lparr>front := f, rear := r, num_messages := num_messages mb - 1\<rparr>) s = ms"
proof -
  obtain buf' where "strcpy buf (data m) = Inr buf'" "cstr buf' = cstr (data m)" "length buf' = 256"
    using strcpy_ok [of "data m" buf] m buf by (auto simp: msg_ok_def)
  with getMsg_pop [OF ok ms, of buf] that show thesis by (metis bnd.simps(2))
qed

text \<open>Whatever getMsg returns without a fault, it keeps the queue and pops at most its head.\<close>

lemma getMsg_cases:
  assumes ok: "queue_ok mb s" and call: "getMsg mb buf s = Inr (r, buf', mb')"
  obtains "r = -1" "mb' = mb" "queue_msgs mb s = []"
  | m f p where "r = 0" "mb' = mb\<lparr>front := f, rear := p, num_messages := num_messages mb - 1\<rparr>"
      "queue_ok mb' s" "queue_msgs mb s = m # queue_msgs mb' s"
      "queue_nodes mb' s = Some (tl (the (queue_nodes mb s)))" "strcpy buf (data m) = Inr buf'"
proof (cases "queue_msgs mb s")
  case Nil
  with that(1) getMsg_empty [OF ok Nil, of buf] call show thesis by simp
next
  case (Cons m ms)
  show thesis
  proof (rule getMsg_pop [OF ok Cons])
    fix f p
    let ?mb = "mb\<lparr>front := f, rear := p, num_messages := num_messages mb - 1\<rparr>"
    assume g: "getMsg mb buf s = bnd (strcpy buf (data m)) (\<lambda>buf'. Inr (0, buf', ?mb))"
      and q: "queue_ok ?mb s" "queue_msgs ?mb s = ms"
        "queue_nodes ?mb s = Some (tl (the (queue_nodes mb s)))"
    have e: "strcpy buf (data m) = Inr buf'" "r = 0" "mb' = ?mb"
      using call unfolding g bnd_eq_Inr by auto
    have "queue_msgs mb s = m # queue_msgs mb' s" using Cons q(2) e(3) by simp
    then show thesis using that(2) e q(1,3) by blast
  qed
qed

text \<open>The three ways putMsg can end without a fault.\<close>

lemma putMsg_cases:
  assumes ok: "queue_ok m s" and call: "putMsg fpe m mail s = Inr (r, m', s')"
  obtains "r = -1" "m' = m" "s' = s" "length (queue_msgs m s) = 10"
  | "r = 0" "m' = m" "s' = snd (unsuspend_rx fpe m mail s)" "rx_suspended m = 1"
      "length (queue_msgs m s) < 10"
  | h f where "r = 0" "m' = m\<lparr>front := f, rear := Ref (brk s), num_messages := num_messages m + 1\<rparr>"
      "s' = s\<lparr>nodes := h, brk := Suc (brk s)\<rparr>" "rx_suspended m \<noteq> 1"
      "queue_ok m' s'" "queue_msgs m' s' = queue_msgs m s @ [mail]"
      "queue_nodes m' s' = Some (the (queue_nodes m s) @ [brk s])"
      "\<And>a. a \<noteq> brk s \<Longrightarrow> a \<notin> set (the (queue_nodes m s)) \<Longrightarrow> h a = nodes s a"
proof -
  have le: "length (queue_msgs m s) \<le> 10" using ok by (rule queue_okE) simp
  consider "length (queue_msgs m s) = 10" | "length (queue_msgs m s) < 10" "rx_suspended m = 1"
    | "length (queue_msgs m s) < 10" "rx_suspended m \<noteq> 1" using le by linarith
  then show thesis
  proof cases
    case 1
    with putMsg_full [OF ok 1, of fpe mail] call that(1) show thesis by simp
  next
    case 2
    with putMsg_waiting [OF ok 2, of fpe mail] call that(2) show thesis by simp
  next
    case 3
    show thesis
    proof (rule putMsg_spec [OF ok 3])
      fix h f
      let ?m = "m\<lparr>front := f, rear := Ref (brk s), num_messages := num_messages m + 1\<rparr>"
      let ?s = "s\<lparr>nodes := h, brk := Suc (brk s)\<rparr>"
      assume p: "putMsg fpe m mail s = Inr (0, ?m, ?s)" and q: "queue_ok ?m ?s"
        "queue_msgs ?m ?s = queue_msgs m s @ [mail]"
        "queue_nodes ?m ?s = Some (the (queue_nodes m s) @ [brk s])"
        "\<And>a. a \<noteq> brk s \<Longrightarrow> a \<notin> set (the (queue_nodes m s)) \<Longrightarrow> h a = nodes s a"
      from p call have "r = 0" "m' = ?m" "s' = ?s" by simp_all
      then show thesis using that(3) 3(2) q by blast
    qed
  qed
qed

section \<open>The interface: a bounded queue\<close>

text \<open>
  A client of a bounded queue puts items and gets views of them. Items must be \<open>good\<close> to be
  put; \<open>ok\<close> is the representation invariant and \<open>items\<close> the abstraction.
\<close>

datatype 'm queue_op = Put 'm | Get

fun run_queue ::
    "('m \<Rightarrow> 'q \<Rightarrow> 'q option) \<Rightarrow> ('q \<Rightarrow> ('v \<times> 'q) option) \<Rightarrow> 'm queue_op list \<Rightarrow> 'q \<Rightarrow> 'v list \<times> 'q"
  where
  "run_queue put get [] q = ([], q)"
| "run_queue put get (Put m # ops) q =
     (case put m q of None \<Rightarrow> run_queue put get ops q | Some q' \<Rightarrow> run_queue put get ops q')"
| "run_queue put get (Get # ops) q =
     (case get q of None \<Rightarrow> run_queue put get ops q
      | Some (v, q') \<Rightarrow> (let (vs, q'') = run_queue put get ops q' in (v # vs, q'')))"

text \<open>The specification: a list with at most \<open>cap\<close> items; a put that finds it full is refused.\<close>

definition spec_put :: "nat \<Rightarrow> 'm \<Rightarrow> 'm list \<Rightarrow> 'm list option" where
  "spec_put cap m xs = (if length xs < cap then Some (xs @ [m]) else None)"

definition spec_get :: "('m \<Rightarrow> 'v) \<Rightarrow> 'm list \<Rightarrow> ('v \<times> 'm list) option" where
  "spec_get view xs = (case xs of [] \<Rightarrow> None | x # xs' \<Rightarrow> Some (view x, xs'))"

locale bounded_queue =
  fixes put :: "'m \<Rightarrow> 'q \<Rightarrow> 'q option"
    and get :: "'q \<Rightarrow> ('v \<times> 'q) option"
    and ok :: "'q \<Rightarrow> bool"
    and items :: "'q \<Rightarrow> 'm list"
    and good :: "'m \<Rightarrow> bool"
    and view :: "'m \<Rightarrow> 'v"
    and cap :: nat
  assumes put_room: "ok q \<Longrightarrow> good m \<Longrightarrow> length (items q) < cap \<Longrightarrow>
      \<exists>q'. put m q = Some q' \<and> ok q' \<and> items q' = items q @ [m]"
    and put_full: "ok q \<Longrightarrow> length (items q) = cap \<Longrightarrow> put m q = None"
    and get_some: "ok q \<Longrightarrow> items q = m # ms \<Longrightarrow>
      \<exists>q'. get q = Some (view m, q') \<and> ok q' \<and> items q' = ms"
    and get_none: "ok q \<Longrightarrow> items q = [] \<Longrightarrow> get q = None"
    and ok_cap: "ok q \<Longrightarrow> length (items q) \<le> cap"
begin

lemma put_refines:
  assumes "ok q" and "good m"
  shows "map_option items (put m q) = spec_put cap m (items q)"
proof (cases "length (items q) < cap")
  case True
  with put_room [OF assms] show ?thesis by (auto simp: spec_put_def)
next
  case False
  with ok_cap [OF assms(1)] have "length (items q) = cap" by simp
  with put_full [OF assms(1)] show ?thesis by (simp add: spec_put_def)
qed

lemma get_refines:
  assumes "ok q"
  shows "map_option (map_prod id items) (get q) = spec_get view (items q)"
proof (cases "items q")
  case Nil
  with get_none [OF assms] show ?thesis by (simp add: spec_get_def)
next
  case (Cons m ms)
  with get_some [OF assms] show ?thesis by (auto simp: spec_get_def)
qed

text \<open>Any interleaving of puts and gets behaves as on the abstract list.\<close>

lemma run_refines:
  assumes "ok q" and "\<And>m. Put m \<in> set ops \<Longrightarrow> good m"
  shows "fst (run_queue put get ops q) = fst (run_queue (spec_put cap) (spec_get view) ops (items q)) \<and>
         items (snd (run_queue put get ops q)) =
           snd (run_queue (spec_put cap) (spec_get view) ops (items q)) \<and>
         ok (snd (run_queue put get ops q))"
  using assms
proof (induction ops arbitrary: q)
  case Nil
  then show ?case by simp
next
  case (Cons op ops)
  show ?case
  proof (cases op)
    case (Put m)
    with Cons.prems have g: "good m" by simp
    show ?thesis
    proof (cases "length (items q) < cap")
      case True
      then show ?thesis
        using put_room [OF Cons.prems(1) g] Cons.IH Cons.prems Put by (auto simp: spec_put_def)
    next
      case False
      then have "length (items q) = cap" using ok_cap [OF Cons.prems(1)] by simp
      then show ?thesis
        using put_full [OF Cons.prems(1)] Cons.IH Cons.prems Put by (auto simp: spec_put_def)
    qed
  next
    case Get
    show ?thesis
    proof (cases "items q")
      case Nil
      then show ?thesis
        using get_none [OF Cons.prems(1)] Cons.IH Cons.prems Get by (auto simp: spec_get_def)
    next
      case (Cons m ms)
      from get_some [OF Cons.prems(1) this] obtain q' where
        q': "get q = Some (view m, q')" "ok q'" "items q' = ms" by blast
      have "\<And>m. Put m \<in> set ops \<Longrightarrow> good m" using Cons.prems(2) by simp
      from Cons.IH [OF q'(2) this] q' Cons Get show ?thesis
        by (simp add: spec_get_def split_beta)
    qed
  qed
qed

text \<open>What is put into an empty queue comes out in the same order.\<close>

lemma run_puts:
  "length xs + length ms \<le> cap \<Longrightarrow>
     run_queue (spec_put cap) (spec_get view) (map Put ms @ ops) xs =
     run_queue (spec_put cap) (spec_get view) ops (xs @ ms)"
  by (induction ms arbitrary: xs) (auto simp: spec_put_def)

lemma run_gets:
  "run_queue (spec_put cap) (spec_get view) (replicate (length xs) Get) xs = (map view xs, [])"
  by (induction xs) (auto simp: spec_get_def)

lemma fifo:
  assumes "ok q" and "items q = []" and "length ms \<le> cap" and "\<forall>m\<in>set ms. good m"
  shows "fst (run_queue put get (map Put ms @ replicate (length ms) Get) q) = map view ms"
proof -
  have "fst (run_queue put get (map Put ms @ replicate (length ms) Get) q) =
        fst (run_queue (spec_put cap) (spec_get view) (map Put ms @ replicate (length ms) Get) [])"
    using run_refines [OF assms(1), of "map Put ms @ replicate (length ms) Get"] assms(2,4)
    by fastforce
  also have "\<dots> = map view ms" using assms(3) by (simp add: run_puts run_gets)
  finally show ?thesis .
qed

end

section \<open>The mailbox queue is a bounded queue\<close>

text \<open>
  The client view of putMsg and getMsg, on a mailbox and the store: a put is refused when the
  code returns -1, a get delivers the C string in the buffer. \<open>junk\<close> gives the bytes of the
  receiving buffer before the call.
\<close>

definition mb_put :: "(int \<Rightarrow> int) \<Rightarrow> Message_mb \<Rightarrow> MailBox \<times> store \<Rightarrow> (MailBox \<times> store) option" where
  "mb_put fpe mail q =
     (case putMsg fpe (fst q) mail (snd q) of
        Inl _ \<Rightarrow> None
      | Inr (r, mb', s') \<Rightarrow> if r = -1 then None else Some (mb', s'))"

definition mb_get :: "(nat \<Rightarrow> char) \<Rightarrow> MailBox \<times> store \<Rightarrow> (string \<times> MailBox \<times> store) option" where
  "mb_get junk q =
     (case getMsg (fst q) (map junk [0..<256]) (snd q) of
        Inl _ \<Rightarrow> None
      | Inr (r, buf, mb') \<Rightarrow> if r = -1 then None else Some (cstr buf, mb', snd q))"

definition mbq_ok :: "MailBox \<times> store \<Rightarrow> bool" where
  "mbq_ok q \<longleftrightarrow> queue_ok (fst q) (snd q) \<and> rx_suspended (fst q) \<noteq> 1
              \<and> list_all msg_ok (queue_msgs (fst q) (snd q))"

abbreviation mbq_items :: "MailBox \<times> store \<Rightarrow> Message_mb list" where
  "mbq_items q \<equiv> queue_msgs (fst q) (snd q)"

lemma queue_len_le: "queue_ok mb s \<Longrightarrow> length (queue_msgs mb s) \<le> 10"
  by (elim queue_okE) simp

interpretation mbq: bounded_queue "mb_put fpe" "mb_get junk" mbq_ok mbq_items msg_ok
    "\<lambda>m. cstr (data m)" 10 for fpe junk
proof unfold_locales
  fix q m
  assume ok: "mbq_ok q" and m: "msg_ok m" and room: "length (mbq_items q) < 10"
  then show "\<exists>q'. mb_put fpe m q = Some q' \<and> mbq_ok q' \<and> mbq_items q' = mbq_items q @ [m]"
    by (auto simp: mbq_ok_def mb_put_def elim!: putMsg_spec [of "fst q" "snd q" fpe m])
next
  fix q m
  assume "mbq_ok q" and "length (mbq_items q) = 10"
  then show "mb_put fpe m q = None" by (simp add: mbq_ok_def mb_put_def putMsg_full)
next
  fix q m ms
  assume ok: "mbq_ok q" and i: "mbq_items q = m # ms"
  then show "\<exists>q'. mb_get junk q = Some (cstr (data m), q') \<and> mbq_ok q' \<and> mbq_items q' = ms"
    by (auto simp: mbq_ok_def mb_get_def elim!: getMsg_front [of "fst q" "snd q" m ms "map junk [0..<256]"])
next
  fix q
  assume "mbq_ok q" and "mbq_items q = []"
  then show "mb_get junk q = None" by (simp add: mbq_ok_def mb_get_def getMsg_empty)
next
  fix q assume "mbq_ok q" then show "length (mbq_items q) \<le> 10"
    by (simp add: mbq_ok_def queue_len_le)
qed

end
