(* ===== verification/MbTable.thy ===== *)
theory MbTable
  imports MbQueue
begin

text \<open>
  The globals of prj_2/src/mailbox.c and the operations on its tables: the pool of mailbox
  ids, the mailbox list, the local ids of senders, creating, registering and finding.
\<close>

section \<open>Server state\<close>

text \<open>
  A SuspendContext remembers a sender that waits: who it is, where its message and its
  destination list are, and the mailboxes it waits for.
\<close>

record SuspendContext =
  ctx_msg :: Message_mb
  suspened_for :: "int list"
  len_sus_for :: int
  ctx_end_p :: int
  ctx_m_source :: int
  ctx_p1 :: int
  ctx_p2 :: int

text \<open>
  mbList and susContext are null until the first do_create_mailbox allocates them; a null
  entry of either table is None. Each entry is the only pointer to its object, so the object
  is stored in the entry.
\<close>

record vfs = store +
  mb_id_pool :: "32 word"
  num_active_mailboxes :: int
  senderDB :: "int list"
  mbList :: "MailBox option list option"
  susContext :: "SuspendContext option list option"
  initialize :: int

text \<open>The server at boot: C zeroes globals without an initialiser, so senderDB is all 0.\<close>

definition boot :: vfs where
  "boot = \<lparr>nodes = (\<lambda>_. None), brk = 0, effs = [],
           mb_id_pool = 0, num_active_mailboxes = 0,
           senderDB = replicate (MAX_SENDERS * MAX_MAILBOXES) 0,
           mbList = None, susContext = None, initialize = 0\<rparr>"

text \<open>\<open>mbList[i]\<close> as a pointer, \<open>*mbList[i]\<close>, and an assignment through that pointer.\<close>

definition mb_ptr :: "vfs \<Rightarrow> int \<Rightarrow> MailBox option res" where
  "mb_ptr s i = bnd (deref (mbList s)) (\<lambda>L. rd L i)"

definition get_mb :: "vfs \<Rightarrow> int \<Rightarrow> MailBox res" where
  "get_mb s i = bnd (mb_ptr s i) deref"

definition set_mb :: "vfs \<Rightarrow> int \<Rightarrow> MailBox \<Rightarrow> vfs res" where
  "set_mb s i mb = bnd (deref (mbList s)) (\<lambda>L.
     bnd (wr L i (Some mb)) (\<lambda>L'. Inr (s\<lparr>mbList := Some L'\<rparr>)))"

section \<open>Mailbox ids\<close>

definition get_free_id :: "vfs \<Rightarrow> int \<times> vfs" where
  "get_free_id s =
     (case find (\<lambda>i. \<not> bit (mb_id_pool s) i) [0..<MAX_MAILBOXES] of
        Some i \<Rightarrow> (int i, s\<lparr>mb_id_pool := or (mb_id_pool s) (push_bit i 1),
                          num_active_mailboxes := num_active_mailboxes s + 1\<rparr>)
      | None \<Rightarrow> (-1, s))"

definition set_free_id :: "int \<Rightarrow> vfs \<Rightarrow> int \<times> vfs" where
  "set_free_id i s =
     (if and (mb_id_pool s) (push_bit (nat i) 1) = 0 then (-1, s)
      else (0, s\<lparr>mb_id_pool := xor (mb_id_pool s) (push_bit (nat i) 1)\<rparr>))"

text \<open>get_mb_id dereferences every entry up to the one it returns, null or not.\<close>

fun get_mb_id_loop :: "vfs \<Rightarrow> int \<Rightarrow> nat list \<Rightarrow> int res" where
  "get_mb_id_loop s rx_pid [] = Inr (-1)"
| "get_mb_id_loop s rx_pid (i # is) =
     bnd (get_mb s (int i)) (\<lambda>m.
       if owner_pid m = rx_pid then Inr (int i) else get_mb_id_loop s rx_pid is)"

definition get_mb_id :: "vfs \<Rightarrow> int \<Rightarrow> int res" where
  "get_mb_id s rx_pid = get_mb_id_loop s rx_pid [0..<MAX_MAILBOXES]"

definition get_sender_local_id :: "vfs \<Rightarrow> int \<Rightarrow> int res" where
  "get_sender_local_id s sender_pid =
     bnd (get_mb_id s sender_pid) (\<lambda>r.
       if r = -1 then
         (case find (\<lambda>i. senderDB s ! i = sender_pid) [0..<MAX_SENDERS * MAX_MAILBOXES] of
            Some i \<Rightarrow> Inr (int i)
          | None \<Rightarrow> Inr (-1))
       else Inr r)"

definition set_sender_local_id :: "vfs \<Rightarrow> int \<Rightarrow> (int \<times> vfs) res" where
  "set_sender_local_id s sender_pid =
     bnd (get_mb_id s sender_pid) (\<lambda>r.
       if r = -1 then
         (case find (\<lambda>i. senderDB s ! i = -1) [MAX_MAILBOXES..<MAX_SENDERS * MAX_MAILBOXES] of
            Some i \<Rightarrow> Inr (int i, s\<lparr>senderDB := (senderDB s)[i := sender_pid]\<rparr>)
          | None \<Rightarrow> Inr (-1, s))
       else Inr (r, s))"

section \<open>Creating a mailbox\<close>

text \<open>
  \<open>block\<close> is the object malloc returns: the fields create_mailbox does not assign (front,
  rear, sus_end_p, sus_m_source, sus_message) keep its arbitrary contents. addMailBox stores
  the pointer, and the id is assigned through it afterwards.
\<close>

definition addMailBox :: "MailBox \<Rightarrow> vfs \<Rightarrow> (int \<times> vfs) res" where
  "addMailBox mb s =
     (let (i, s1) = get_free_id s
      in if i < 0 then Inr (-1, s1)
         else bnd (set_mb s1 i mb) (\<lambda>s2. Inr (i, s2)))"

definition create_mailbox :: "MailBox \<Rightarrow> int \<Rightarrow> int \<Rightarrow> int \<Rightarrow> int \<Rightarrow> vfs \<Rightarrow> (int \<times> vfs) res" where
  "create_mailbox block pid uid gid permissions s =
     (let mb = block\<lparr>owner_pid := pid, owner_uid := uid, owner_gid := gid, perm := permissions,
                     senders := replicate MAX_SENDERS (-1),
                     suspended_sender := replicate MAX_SENDERS (-1),
                     num_senders := 0, num_messages := 0, sus_sender_idx := 0,
                     rx_suspended := 0\<rparr>
      in bnd (addMailBox mb s) (\<lambda>(i, s1).
           if i < 0 then Inr (i, s1)
           else bnd (set_mb s1 i (mb\<lparr>mb_id := i\<rparr>)) (\<lambda>s2. Inr (i, s2))))"

definition do_create_mailbox :: "MailBox \<Rightarrow> message \<Rightarrow> vfs \<Rightarrow> (int \<times> vfs) res" where
  "do_create_mailbox block m_in s =
     (let s1 = (if initialize s \<noteq> 50
                then s\<lparr>initialize := 50, mbList := Some (replicate MAX_MAILBOXES None),
                       susContext := Some (replicate (MAX_MAILBOXES * MAX_SENDERS) None)\<rparr>
                else s)
      in create_mailbox block (m7_i1 m_in) (m7_i2 m_in) (m7_i3 m_in) (m7_i4 m_in) s1)"

section \<open>Destroying a mailbox\<close>

text \<open>The ownership test is commented out in the source: its condition is \<open>if(1)\<close>.\<close>

definition do_destroy_mailbox :: "message \<Rightarrow> vfs \<Rightarrow> (int \<times> vfs) res" where
  "do_destroy_mailbox m_in s =
     (let i = m7_i4 m_in
      in if i < int MAX_MAILBOXES then
           bnd (mb_ptr s i) (\<lambda>p.
             case p of
               None \<Rightarrow> Inr (0, s)
             | Some mb \<Rightarrow>
                 bnd (set_mb s i (mb\<lparr>owner_pid := -1, mb_id := -1, num_senders := 0,
                                    num_messages := 0, front := NULL, rear := NULL\<rparr>))
                   (\<lambda>s1. Inr (set_free_id i s1)))
         else Inr (0, s))"

section \<open>Permissions, listing and registering\<close>

definition EVERYONE :: int where "EVERYONE = 0x1"
definition GROUP :: int where "GROUP = 0x2"
definition USER :: int where "USER = 0x4"

definition authorised :: "MailBox \<Rightarrow> int \<Rightarrow> int \<Rightarrow> bool" where
  "authorised mb uid gid \<longleftrightarrow>
     and (perm mb) EVERYONE \<noteq> 0 \<or>
     (and (perm mb) GROUP \<noteq> 0 \<and> owner_gid mb = gid) \<or>
     (and (perm mb) USER \<noteq> 0 \<and> owner_uid mb = uid)"

text \<open>The list has room for 20 integers; every write is checked against it.\<close>

fun av_loop :: "vfs \<Rightarrow> int \<Rightarrow> int \<Rightarrow> nat list \<Rightarrow> int list \<Rightarrow> int \<Rightarrow> (int list \<times> int) res" where
  "av_loop s uid gid [] ml mb_idx = Inr (ml, mb_idx)"
| "av_loop s uid gid (i # is) ml mb_idx =
     bnd (mb_ptr s (int i)) (\<lambda>p.
       case p of
         None \<Rightarrow> av_loop s uid gid is ml mb_idx
       | Some mb \<Rightarrow>
           if authorised mb uid gid then
             bnd (wr ml (2 * mb_idx) (mb_id mb)) (\<lambda>ml1.
             bnd (wr ml1 (2 * mb_idx + 1) (owner_pid mb)) (\<lambda>ml2.
               av_loop s uid gid is ml2 (mb_idx + 1)))
           else av_loop s uid gid is ml mb_idx)"

definition do_get_av_mailboxes :: "message \<Rightarrow> vfs \<Rightarrow> (int \<times> vfs) res" where
  "do_get_av_mailboxes m_in s =
     bnd (av_loop s (m7_i2 m_in) (m7_i3 m_in) [0..<MAX_MAILBOXES]
            (replicate (MAX_MAILBOXES * 2) (-1)) 0) (\<lambda>(ml, mb_idx).
     bnd (wr ml (2 * mb_idx) (-1)) (\<lambda>ml1.
     bnd (wr ml1 (2 * mb_idx + 1) (-1)) (\<lambda>ml2.
       Inr (0, emit [CopyOut (m_source m_in) (m7_p1 m_in)
                       (Ints (take (nat (2 * (mb_idx + 1))) ml2))] s))))"

text \<open>
  The scan of do_register_mb stops at the caller's own entry (\<open>Inl\<close>: already registered),
  or at the first free one (\<open>Inr i\<close>); None when the loop runs out.
\<close>

fun reg_scan :: "int list \<Rightarrow> int \<Rightarrow> nat list \<Rightarrow> (unit + nat) option" where
  "reg_scan xs tx_pid [] = None"
| "reg_scan xs tx_pid (i # is) =
     (if xs ! i = tx_pid then Some (Inl ())
      else if xs ! i = -1 then Some (Inr i)
      else reg_scan xs tx_pid is)"

definition do_register_mb :: "message \<Rightarrow> vfs \<Rightarrow> (int \<times> vfs) res" where
  "do_register_mb m_in s =
     (let tx_pid = m7_i1 m_in; i = m7_i4 m_in
      in bnd (get_mb s i) (\<lambda>mb.
           if authorised mb (m7_i2 m_in) (m7_i3 m_in) then
             (case reg_scan (senders mb) tx_pid [0..<MAX_SENDERS] of
                Some (Inl _) \<Rightarrow> Inr (-2, s)
              | Some (Inr k) \<Rightarrow>
                  bnd (set_mb s i (mb\<lparr>senders := (senders mb)[k := tx_pid],
                                     num_senders := num_senders mb + 1\<rparr>)) (\<lambda>s1.
                  bnd (set_sender_local_id s1 tx_pid) (\<lambda>(_, s2). Inr (0, s2)))
              | None \<Rightarrow> Inr (-1, s))
           else Inr (-1, s)))"

text \<open>
  do_get_senders never assigns rx_pid: the value it compares the owner with is the
  indeterminate \<open>rx_pid\<close> below, and \<open>junk\<close> fills the unwritten part of the list. It copies
  \<open>idx + 1\<close> integers out of an array of ten.
\<close>

definition do_get_senders :: "int \<Rightarrow> (nat \<Rightarrow> int) \<Rightarrow> message \<Rightarrow> vfs \<Rightarrow> (int \<times> vfs) res" where
  "do_get_senders rx_pid junk m_in s =
     (let i = m7_i4 m_in
      in bnd (mb_ptr s i) (\<lambda>p.
           if i < int MAX_MAILBOXES then
             (case p of
                None \<Rightarrow> Inr (-1, s)
              | Some mb \<Rightarrow>
                  if owner_pid mb = rx_pid then
                    (let xs = filter (\<lambda>x. 0 \<le> x) (senders mb);
                         sl = xs @ map junk [length xs..<MAX_SENDERS]
                     in if length xs + 1 \<le> MAX_SENDERS
                        then Inr (0, emit [CopyOut (m_source m_in) (m7_p1 m_in)
                                             (Ints (take (length xs + 1) sl))] s)
                        else Inl OutOfBounds)
                  else Inr (-1, s))
           else Inr (-1, s)))"

text \<open>isValidSender: 1 registered, 0 not registered, -1 the mailbox has no owner.\<close>

fun valid_scan :: "int list \<Rightarrow> int \<Rightarrow> nat list \<Rightarrow> int res" where
  "valid_scan xs pid [] = Inr 0"
| "valid_scan xs pid (i # is) =
     bnd (rd xs (int i)) (\<lambda>x. if x = pid then Inr 1 else valid_scan xs pid is)"

definition isValidSender :: "vfs \<Rightarrow> int \<Rightarrow> int \<Rightarrow> int res" where
  "isValidSender s dest_id sender_pid =
     bnd (get_mb s dest_id) (\<lambda>mb.
       if owner_pid mb = -1 then Inr (-1)
       else valid_scan (senders mb) sender_pid [0..<nat (num_senders mb)])"

end
