(* ===== verification/MbCalls.thy ===== *)
theory MbCalls
  imports MbDeadlock
begin

text \<open>
  The system call handlers that move messages (prj_2/src/mailbox.c): do_deposit and
  do_retrieve, and the step relation of the server over all seven mailbox calls.
\<close>

section \<open>Deposit\<close>

text \<open>What a handler answers: an integer, or SUSPEND, which leaves the caller blocked.\<close>

datatype answer = Ret int | SUSPEND

text \<open>
  The loop over the destinations. It ends at a zero or negative entry (None), or returns an
  error code at once (Some code); messages already put stay put. \<open>sus\<close> is sus_dests, the
  full mailboxes met so far.
\<close>

fun deposit_loop ::
    "(int \<Rightarrow> int) \<Rightarrow> int \<Rightarrow> Message_mb \<Rightarrow> int list \<Rightarrow> int list \<Rightarrow> vfs \<Rightarrow> (int option \<times> int list \<times> vfs) res"
  where
  "deposit_loop fpe tx_pid msg [] sus s = Inr (None, sus, s)"
| "deposit_loop fpe tx_pid msg (d # ds) sus s =
     (if d = 0 then Inr (None, sus, s)
      else if d < 0 then Inr (None, sus, s)
      else bnd (get_mb_id s d) (\<lambda>dest_id.
        if 0 \<le> dest_id then
          bnd (isValidSender s dest_id tx_pid) (\<lambda>v.
            if v = 1 then
              bnd (get_mb s dest_id) (\<lambda>m.
              bnd (putMsg fpe m msg s) (\<lambda>(r, m1, s1).
                if r = -1 then
                  bnd (wr (suspended_sender m1) (sus_sender_idx m1) tx_pid) (\<lambda>ss.
                  bnd (set_mb s1 dest_id (m1\<lparr>suspended_sender := ss,
                                            sus_sender_idx := sus_sender_idx m1 + 1\<rparr>)) (\<lambda>s2.
                    if length sus < MAX_SENDERS
                    then deposit_loop fpe tx_pid msg ds (sus @ [dest_id]) s2
                    else Inl OutOfBounds))
                else bnd (set_mb s1 dest_id m1) (\<lambda>s2. deposit_loop fpe tx_pid msg ds sus s2)))
            else if v = -1 then Inr (Some (-4), sus, s)
            else Inr (Some (-5), sus, s))
        else Inr (Some (-3), sus, s)))"

text \<open>
  do_deposit. \<open>dest\<close> (ten integers) and \<open>bytes\<close> (256 characters) are what the two
  sys_datacopy calls bring from the caller's memory; \<open>who_p\<close> is the caller's slot in the
  process table.
\<close>

definition do_deposit ::
    "(int \<Rightarrow> int) \<Rightarrow> int \<Rightarrow> int \<Rightarrow> int list \<Rightarrow> char list \<Rightarrow> message \<Rightarrow> vfs \<Rightarrow> (answer \<times> vfs) res"
  where
  "do_deposit fpe junk who_p dest bytes m_in s =
     (let tx_pid = m7_i1 m_in; msg = \<lparr>data = bytes, sender_id = tx_pid\<rparr>
      in bnd (deposit_loop fpe tx_pid msg dest [] s) (\<lambda>(code, sus, s1).
           case code of
             Some c \<Rightarrow> Inr (Ret c, s1)
           | None \<Rightarrow>
               if 1 \<le> length sus then
                 bnd (get_sender_local_id s1 tx_pid) (\<lambda>i.
                 bnd (ctx_ptr s1 i) (\<lambda>_.
                 bnd (set_ctx s1 i \<lparr>ctx_msg = msg, suspened_for = sus,
                                   len_sus_for = int (length sus), ctx_end_p = who_p,
                                   ctx_m_source = m_source m_in,
                                   ctx_p1 = m7_p1 m_in, ctx_p2 = m7_p2 m_in\<rparr>) (\<lambda>s2.
                 bnd (check_dead_lock s2 i) (\<lambda>dead_lock.
                   if dead_lock = 1 then
                     bnd (indicate_deadlock fpe junk i s2) (\<lambda>(_, s3).
                       Inr (Ret 0, emit [CopyOut (m_source m_in) (m7_p2 m_in) (Ints [-2, -2])] s3))
                   else Inr (SUSPEND, s2)))))
               else Inr (Ret 0, s1)))"

section \<open>Retrieve\<close>

text \<open>\<open>junk\<close> gives the bytes of the fresh message block before strcpy writes into it.\<close>

definition do_retrieve ::
    "(nat \<Rightarrow> char) \<Rightarrow> int \<Rightarrow> message \<Rightarrow> vfs \<Rightarrow> (answer \<times> vfs) res" where
  "do_retrieve junk who_p m_in s =
     bnd (get_mb_id s (m7_i1 m_in)) (\<lambda>i.
       if i < 0 then Inr (Ret (-1), s)
       else bnd (get_mb s i) (\<lambda>mb.
            bnd (getMsg mb (map junk [0..<256]) s) (\<lambda>(r, buf, mb1).
              if r < 0 then
                bnd (set_mb s i (mb1\<lparr>rx_suspended := 1, sus_end_p := who_p,
                                    sus_m_source := m_source m_in,
                                    sus_message := (sus_message mb1)\<lparr>m7_p1 := m7_p1 m_in\<rparr>\<rparr>))
                  (\<lambda>s1. Inr (SUSPEND, s1))
              else
                bnd (set_mb s i (mb1\<lparr>rx_suspended := 0\<rparr>)) (\<lambda>s1.
                  Inr (Ret 0, emit [CopyOut (m_source m_in) (m7_p1 m_in) (Bytes buf)] s1)))))"

end
