(* ===== verification/MbInv.thy ===== *)
theory MbInv
  imports MbCalls
begin

text \<open>
  The invariant of the mailbox server and its preservation by every handler
  (prj_2/src/mailbox.c). The invariant relates the id pool, the mailbox list, the records,
  the node store and the suspended senders; the main lemma is that a handler that rewrites
  one slot, and in the store at most that slot's own or fresh nodes, keeps it.
\<close>

section \<open>The invariant\<close>

definition slot :: "vfs \<Rightarrow> nat \<Rightarrow> MailBox option" where
  "slot s i = (case mbList s of None \<Rightarrow> None | Some L \<Rightarrow> if i < length L then L ! i else None)"

definition registered :: "MailBox \<Rightarrow> int list" where
  "registered mb = takeWhile (\<lambda>x. x \<noteq> -1) (senders mb)"

text \<open>A mailbox is live from its creation to its destruction.\<close>

definition live :: "MailBox \<Rightarrow> bool" where
  "live mb \<longleftrightarrow> mb_id mb \<noteq> -1"

definition senders_ok :: "MailBox \<Rightarrow> bool" where
  "senders_ok mb \<longleftrightarrow>
     senders mb = registered mb @ replicate (MAX_SENDERS - length (registered mb)) (-1) \<and>
     length (registered mb) \<le> MAX_SENDERS \<and> distinct (registered mb) \<and>
     0 \<le> num_senders mb \<and> num_senders mb \<le> int (length (registered mb)) \<and>
     (live mb \<longrightarrow> num_senders mb = int (length (registered mb)))"

definition slot_ok :: "vfs \<Rightarrow> nat \<Rightarrow> MailBox \<Rightarrow> bool" where
  "slot_ok s i mb \<longleftrightarrow>
     queue_ok mb s \<and> senders_ok mb \<and>
     length (suspended_sender mb) = MAX_SENDERS \<and> 0 \<le> sus_sender_idx mb \<and>
     (live mb \<longrightarrow> mb_id mb = int i) \<and> (live mb \<longleftrightarrow> bit (mb_id_pool s) i) \<and>
     (\<not> live mb \<longrightarrow> owner_pid mb = -1)"

definition ctx_ok :: "SuspendContext \<Rightarrow> bool" where
  "ctx_ok c \<longleftrightarrow> suspened_for c \<noteq> [] \<and>
     list_all (\<lambda>f. -1 \<le> f \<and> f < int MAX_MAILBOXES) (suspened_for c)"

definition tables_ok :: "vfs \<Rightarrow> bool" where
  "tables_ok s \<longleftrightarrow>
     length (senderDB s) = MAX_SENDERS * MAX_MAILBOXES \<and>
     (case mbList s of
        None \<Rightarrow> susContext s = None \<and> initialize s \<noteq> 50 \<and> mb_id_pool s = 0
      | Some L \<Rightarrow> length L = MAX_MAILBOXES \<and> initialize s = 50 \<and>
          (case susContext s of None \<Rightarrow> False
           | Some C \<Rightarrow> length C = MAX_SENDERS * MAX_MAILBOXES \<and>
               list_all (\<lambda>p. case p of None \<Rightarrow> True | Some c \<Rightarrow> ctx_ok c) C))"

definition node_set :: "vfs \<Rightarrow> MailBox \<Rightarrow> nat set" where
  "node_set s mb = set (the (queue_nodes mb s))"

definition vfs_ok :: "vfs \<Rightarrow> bool" where
  "vfs_ok s \<longleftrightarrow>
     tables_ok s \<and>
     (\<forall>i<MAX_MAILBOXES. case slot s i of None \<Rightarrow> \<not> bit (mb_id_pool s) i | Some mb \<Rightarrow> slot_ok s i mb) \<and>
     (\<forall>i<MAX_MAILBOXES. \<forall>j<MAX_MAILBOXES.
        case (slot s i, slot s j) of
          (Some m1, Some m2) \<Rightarrow> i \<noteq> j \<longrightarrow> node_set s m1 \<inter> node_set s m2 = {}
        | _ \<Rightarrow> True)"

section \<open>Reading and writing slots\<close>

lemma slot_bound: "tables_ok s \<Longrightarrow> slot s i = Some mb \<Longrightarrow> i < MAX_MAILBOXES"
  by (auto simp: slot_def tables_ok_def split: option.splits if_splits)

lemma slot_mbList: "slot s i = Some mb \<Longrightarrow> mbList s \<noteq> None"
  by (auto simp: slot_def split: option.splits)

lemma vfs_okD:
  assumes "vfs_ok s"
  shows vfs_ok_tables: "tables_ok s"
    and vfs_ok_slot: "slot s i = Some mb \<Longrightarrow> slot_ok s i mb"
    and vfs_ok_free: "i < MAX_MAILBOXES \<Longrightarrow> slot s i = None \<Longrightarrow> \<not> bit (mb_id_pool s) i"
    and vfs_ok_disjoint: "slot s i = Some m1 \<Longrightarrow> slot s j = Some m2 \<Longrightarrow> i \<noteq> j \<Longrightarrow>
          node_set s m1 \<inter> node_set s m2 = {}"
proof -
  show t: "tables_ok s" using assms by (simp add: vfs_ok_def)
  have a: "case slot s i of None \<Rightarrow> \<not> bit (mb_id_pool s) i | Some mb \<Rightarrow> slot_ok s i mb"
    if "i < MAX_MAILBOXES" for i
    using assms that by (simp add: vfs_ok_def)
  have b: "case (slot s i, slot s j) of
          (Some m1, Some m2) \<Rightarrow> i \<noteq> j \<longrightarrow> node_set s m1 \<inter> node_set s m2 = {}
        | _ \<Rightarrow> True" if "i < MAX_MAILBOXES" "j < MAX_MAILBOXES" for i j
    using assms that unfolding vfs_ok_def by blast
  show "slot s i = Some mb \<Longrightarrow> slot_ok s i mb" using a [OF slot_bound [OF t]] by fastforce
  show "i < MAX_MAILBOXES \<Longrightarrow> slot s i = None \<Longrightarrow> \<not> bit (mb_id_pool s) i" using a [of i] by simp
  show "slot s i = Some m1 \<Longrightarrow> slot s j = Some m2 \<Longrightarrow> i \<noteq> j \<Longrightarrow> node_set s m1 \<inter> node_set s m2 = {}"
    using b [OF slot_bound [OF t] slot_bound [OF t], of i m1 j m2] by simp
qed

lemma vfs_okI:
  assumes "tables_ok s"
    and "\<And>i. i < MAX_MAILBOXES \<Longrightarrow> slot s i = None \<Longrightarrow> \<not> bit (mb_id_pool s) i"
    and "\<And>i mb. slot s i = Some mb \<Longrightarrow> slot_ok s i mb"
    and "\<And>i j m1 m2. slot s i = Some m1 \<Longrightarrow> slot s j = Some m2 \<Longrightarrow> i \<noteq> j \<Longrightarrow>
          node_set s m1 \<inter> node_set s m2 = {}"
  shows "vfs_ok s"
  unfolding vfs_ok_def
  using assms by (auto split: option.split)

lemma mb_ptr_slot:
  "tables_ok s \<Longrightarrow> mb_ptr s i = Inr p \<longleftrightarrow>
     mbList s \<noteq> None \<and> 0 \<le> i \<and> i < int MAX_MAILBOXES \<and> p = slot s (nat i)"
  by (auto simp: mb_ptr_def slot_def tables_ok_def guard_simps rd_eq_Inr split: option.splits)

lemma get_mb_slot:
  "tables_ok s \<Longrightarrow> get_mb s i = Inr mb \<longleftrightarrow> 0 \<le> i \<and> slot s (nat i) = Some mb"
  by (auto simp: get_mb_def guard_simps mb_ptr_slot dest: slot_bound)
     (auto simp: slot_def split: option.splits)

text \<open>One slot rewritten, with new contents of the node store.\<close>

definition put_slot :: "nat \<Rightarrow> MailBox \<Rightarrow> vfs \<Rightarrow> vfs" where
  "put_slot i mb s = s\<lparr>mbList := Some ((the (mbList s))[i := Some mb])\<rparr>"

lemma put_slot_frame [simp]:
  "nodes (put_slot i mb s) = nodes s" "brk (put_slot i mb s) = brk s"
  "effs (put_slot i mb s) = effs s" "mb_id_pool (put_slot i mb s) = mb_id_pool s"
  "senderDB (put_slot i mb s) = senderDB s" "susContext (put_slot i mb s) = susContext s"
  "initialize (put_slot i mb s) = initialize s"
  "mbList (put_slot i mb s) = Some ((the (mbList s))[i := Some mb])"
  by (simp_all add: put_slot_def)

lemma set_mb_put:
  "tables_ok s \<Longrightarrow> set_mb s i mb = Inr s' \<longleftrightarrow>
     mbList s \<noteq> None \<and> 0 \<le> i \<and> i < int MAX_MAILBOXES \<and> s' = put_slot (nat i) mb s"
  by (auto simp: set_mb_def put_slot_def tables_ok_def guard_simps wr_eq_Inr split: option.splits)

lemma put_slot_twice [simp]: "put_slot i mb (put_slot i mb0 s) = put_slot i mb s"
  by (simp add: put_slot_def)

lemma slot_put_slot:
  "tables_ok s \<Longrightarrow> mbList s \<noteq> None \<Longrightarrow> i < MAX_MAILBOXES \<Longrightarrow>
     slot (put_slot i mb s) j = (if j = i then Some mb else slot s j)"
  by (auto simp: slot_def tables_ok_def split: option.splits)

lemma tables_ok_put_slot:
  "tables_ok s \<Longrightarrow> mbList s \<noteq> None \<Longrightarrow> tables_ok (put_slot i mb s)"
  by (auto simp: tables_ok_def split: option.splits)

lemma slot_cong: "mbList s' = mbList s \<Longrightarrow> slot s' = slot s"
  by (simp add: slot_def fun_eq_iff)

lemma tables_ok_cong:
  "senderDB s' = senderDB s \<Longrightarrow> mbList s' = mbList s \<Longrightarrow> susContext s' = susContext s \<Longrightarrow>
   initialize s' = initialize s \<Longrightarrow> mb_id_pool s' = mb_id_pool s \<Longrightarrow> tables_ok s' = tables_ok s"
  by (simp add: tables_ok_def cong: option.case_cong)

lemma put_slot_pool:
  "(put_slot i mb s)\<lparr>mb_id_pool := p\<rparr> = put_slot i mb (s\<lparr>mb_id_pool := p\<rparr>)"
  by (rule vfs.equality) (simp_all add: put_slot_def)

section \<open>Rewriting one slot keeps the invariant\<close>

lemma queue_cong:
  assumes "nodes s' = nodes s" and "brk s' = brk s"
  shows "queue_nodes mb s' = queue_nodes mb s" "queue_ok mb s' = queue_ok mb s"
    "queue_msgs mb s' = queue_msgs mb s"
  using assms by (simp_all add: queue_nodes_def queue_msgs_def queue_ok_iff cong: option.case_cong)

lemma slot_ok_cong:
  "nodes s' = nodes s \<Longrightarrow> brk s' = brk s \<Longrightarrow> mb_id_pool s' = mb_id_pool s \<Longrightarrow>
   slot_ok s' i mb = slot_ok s i mb"
  by (simp add: slot_ok_def queue_cong [of s' s])

lemma node_set_cong: "nodes s' = nodes s \<Longrightarrow> brk s' = brk s \<Longrightarrow> node_set s' mb = node_set s mb"
  by (simp add: node_set_def queue_cong [of s' s])

lemma vfs_ok_emit [simp]: "vfs_ok (emit es s) = vfs_ok s"
proof -
  have "tables_ok (emit es s) = tables_ok s" by (rule tables_ok_cong) (simp_all add: emit_def)
  moreover have "slot (emit es s) = slot s" by (rule slot_cong) (simp add: emit_def)
  moreover have "slot_ok (emit es s) i mb = slot_ok s i mb" for i mb
    by (rule slot_ok_cong) (simp_all add: emit_def)
  moreover have "node_set (emit es s) mb = node_set s mb" for mb
    by (rule node_set_cong) (simp_all add: emit_def)
  moreover have "mb_id_pool (emit es s) = mb_id_pool s" by (simp add: emit_def)
  ultimately show ?thesis by (simp add: vfs_ok_def cong: option.case_cong)
qed

lemma node_set_brk: "slot_ok s i mb \<Longrightarrow> a \<in> node_set s mb \<Longrightarrow> a < brk s"
  by (auto simp: slot_ok_def node_set_def elim: queue_okE)

definition slot_nodes :: "vfs \<Rightarrow> nat \<Rightarrow> nat set" where
  "slot_nodes s i = (case slot s i of None \<Rightarrow> {} | Some mb \<Rightarrow> node_set s mb)"

lemma vfs_ok_update:
  assumes ok: "vfs_ok s" and i: "i < MAX_MAILBOXES" and L: "mbList s \<noteq> None"
    and same: "mbList s1 = mbList s" "senderDB s1 = senderDB s" "susContext s1 = susContext s"
      "initialize s1 = initialize s"
    and keep: "\<And>a. a < brk s \<Longrightarrow> a \<notin> slot_nodes s i \<Longrightarrow> nodes s1 a = nodes s a"
    and brk: "brk s \<le> brk s1"
    and pool: "\<And>j. j \<noteq> i \<Longrightarrow> bit (mb_id_pool s1) j = bit (mb_id_pool s) j"
    and new: "slot_ok s1 i mb"
    and sub: "node_set s1 mb \<subseteq> slot_nodes s i \<union> {brk s..}"
  shows "vfs_ok (put_slot i mb s1)"
proof -
  have t: "tables_ok s" using ok by (rule vfs_ok_tables)
  have t1: "tables_ok s1"
    using t L same by (auto simp: tables_ok_def cong: option.case_cong split: option.splits)
  have L1: "mbList s1 \<noteq> None" using L same by simp
  have slot1: "slot s1 = slot s" using same by (rule_tac slot_cong)
  note sl = slot_put_slot [OF t1 L1 i, of mb]
  have frame: "queue_ok m2 s1 \<and> node_set s1 m2 = node_set s m2" if "slot s j = Some m2" "j \<noteq> i" for j m2
  proof -
    have sok: "slot_ok s j m2" using vfs_ok_slot [OF ok that(1)] .
    have "nodes s1 a = nodes s a" if "a \<in> node_set s m2" for a
    proof (rule keep)
      show "a < brk s" using sok that by (rule node_set_brk)
      show "a \<notin> slot_nodes s i"
        using vfs_ok_disjoint [OF ok, of i _ j m2] \<open>slot s j = Some m2\<close> \<open>j \<noteq> i\<close> that
        by (auto simp: slot_nodes_def split: option.splits)
    qed
    then show ?thesis
      using queue_frame [of m2 s s1] sok brk by (simp add: slot_ok_def node_set_def)
  qed
  have apart: "node_set s1 mb \<inter> node_set s m2 = {}" if "slot s j = Some m2" "j \<noteq> i" for j m2
  proof -
    have "node_set s m2 \<subseteq> {..<brk s}" using node_set_brk [OF vfs_ok_slot [OF ok that(1)]] by auto
    moreover have "slot_nodes s i \<inter> node_set s m2 = {}"
      using vfs_ok_disjoint [OF ok, of i _ j m2] that
      by (auto simp: slot_nodes_def split: option.splits)
    ultimately show ?thesis using sub by fastforce
  qed
  have cg: "slot_ok (put_slot i mb s1) j m2 = slot_ok s1 j m2"
    "node_set (put_slot i mb s1) m2 = node_set s1 m2" for j m2
    by (rule slot_ok_cong node_set_cong; simp)+
  show ?thesis
  proof (rule vfs_okI)
    show "tables_ok (put_slot i mb s1)" using t1 L1 by (rule tables_ok_put_slot)
  next
    fix j assume "j < MAX_MAILBOXES" "slot (put_slot i mb s1) j = None"
    then show "\<not> bit (mb_id_pool (put_slot i mb s1)) j"
      using vfs_ok_free [OF ok] pool by (simp add: sl slot1 split: if_splits)
  next
    fix j m2 assume j: "slot (put_slot i mb s1) j = Some m2"
    show "slot_ok (put_slot i mb s1) j m2"
    proof (cases "j = i")
      case True
      with j have "m2 = mb" by (simp add: sl)
      with True new show ?thesis unfolding cg by simp
    next
      case False
      with j have "slot s j = Some m2" by (simp add: sl slot1)
      then show ?thesis
        using frame [of j m2] vfs_ok_slot [OF ok, of j m2] pool [of j] False
        unfolding cg by (auto simp: slot_ok_def)
    qed
  next
    fix j k m1 m2
    assume "slot (put_slot i mb s1) j = Some m1" "slot (put_slot i mb s1) k = Some m2" "j \<noteq> k"
    then show "node_set (put_slot i mb s1) m1 \<inter> node_set (put_slot i mb s1) m2 = {}"
      using frame [of j m1] frame [of k m2] apart [of j m1] apart [of k m2]
        vfs_ok_disjoint [OF ok, of j m1 k m2]
      by (auto simp: sl slot1 cg split: if_splits)
  qed
qed

section \<open>Booting and creating\<close>

lemma vfs_ok_boot: "vfs_ok boot"
  by (rule vfs_okI) (auto simp: boot_def tables_ok_def slot_def)

text \<open>The state do_create_mailbox works on: the tables are allocated at the first call.\<close>

definition initialised :: "vfs \<Rightarrow> vfs" where
  "initialised s =
     (if initialize s \<noteq> 50
      then s\<lparr>initialize := 50, mbList := Some (replicate MAX_MAILBOXES None),
             susContext := Some (replicate (MAX_MAILBOXES * MAX_SENDERS) None)\<rparr>
      else s)"

lemma vfs_ok_initialised:
  assumes ok: "vfs_ok s"
  shows "vfs_ok (initialised s) \<and> mbList (initialised s) \<noteq> None \<and> slot (initialised s) = slot s"
proof (cases "initialize s = 50")
  case True
  with vfs_ok_tables [OF ok] have "mbList s \<noteq> None" by (auto simp: tables_ok_def split: option.splits)
  with True ok show ?thesis by (simp add: initialised_def)
next
  case False
  with vfs_ok_tables [OF ok] have n: "mbList s = None" "mb_id_pool s = 0"
    by (auto simp: tables_ok_def split: option.splits)
  have "slot (initialised s) i = None" for i by (simp add: initialised_def slot_def False)
  moreover have "slot s i = None" for i by (simp add: slot_def n)
  moreover have "tables_ok (initialised s)"
    using vfs_ok_tables [OF ok] False by (simp add: initialised_def tables_ok_def list_all_iff)
  moreover have "mb_id_pool (initialised s) = 0" using n by (simp add: initialised_def)
  ultimately show ?thesis using False by (auto intro!: vfs_okI simp: initialised_def)
qed

lemma get_free_id_cases:
  obtains i where "get_free_id s = (int i, s\<lparr>mb_id_pool := or (mb_id_pool s) (push_bit i 1),
        num_active_mailboxes := num_active_mailboxes s + 1\<rparr>)"
      "i < MAX_MAILBOXES" "\<not> bit (mb_id_pool s) i" "\<forall>j<i. bit (mb_id_pool s) j"
  | "get_free_id s = (-1, s)" "\<forall>i<MAX_MAILBOXES. bit (mb_id_pool s) i"
proof (cases "find (\<lambda>i. \<not> bit (mb_id_pool s) i) [0..<MAX_MAILBOXES]")
  case None
  then have "\<forall>i<MAX_MAILBOXES. bit (mb_id_pool s) i" unfolding find_upt_None by simp
  moreover have "get_free_id s = (-1, s)" using None by (simp add: get_free_id_def)
  ultimately show thesis by (rule that(2) [rotated])
next
  case (Some i)
  from find_upt_Some [OF Some] Some show thesis using that(1) [of i] by (simp add: get_free_id_def)
qed

lemma bit_pool_set: "i < 32 \<Longrightarrow> bit (or p (push_bit i 1) :: 32 word) j \<longleftrightarrow> bit p j \<or> j = i"
  by (auto simp: bit_or_iff bit_exp_iff)

lemma bit_pool_flip: "i < 32 \<Longrightarrow> bit (xor p (push_bit i 1) :: 32 word) j \<longleftrightarrow> bit p j \<noteq> (j = i)"
  by (auto simp: bit_xor_iff bit_exp_iff)

text \<open>The record of a mailbox that has just been created.\<close>

definition new_mailbox :: "MailBox \<Rightarrow> int \<Rightarrow> message \<Rightarrow> MailBox" where
  "new_mailbox block i m_in =
     block\<lparr>owner_pid := m7_i1 m_in, owner_uid := m7_i2 m_in, owner_gid := m7_i3 m_in,
           perm := m7_i4 m_in, senders := replicate MAX_SENDERS (-1),
           suspended_sender := replicate MAX_SENDERS (-1), num_senders := 0, num_messages := 0,
           sus_sender_idx := 0, rx_suspended := 0, mb_id := i\<rparr>"

lemma new_mailbox_ok:
  assumes "front block = NULL" and "bit (mb_id_pool s) i"
  shows "slot_ok s i (new_mailbox block (int i) m_in) \<and> queue_nodes (new_mailbox block (int i) m_in) s = Some []"
  using assms
  by (auto simp: slot_ok_def new_mailbox_def queue_ok_iff queue_nodes_def senders_ok_def live_def registered_def)

text \<open>What do_create_mailbox returns and does, on both of its branches.\<close>

lemma do_create_mailbox_cases:
  assumes ok: "vfs_ok s"
  obtains i where "i < MAX_MAILBOXES" "\<not> bit (mb_id_pool s) i" "\<forall>j<i. bit (mb_id_pool s) j"
      "do_create_mailbox block m_in s =
         Inr (int i, put_slot i (new_mailbox block (int i) m_in)
           ((initialised s)\<lparr>mb_id_pool := or (mb_id_pool s) (push_bit i 1),
              num_active_mailboxes := num_active_mailboxes s + 1\<rparr>))"
  | "\<forall>i<MAX_MAILBOXES. bit (mb_id_pool s) i" "do_create_mailbox block m_in s = Inr (-1, initialised s)"
proof -
  let ?s = "initialised s"
  have t: "tables_ok ?s" and L: "mbList ?s \<noteq> None"
    using vfs_ok_initialised [OF ok] by (auto dest: vfs_ok_tables)
  have p: "mb_id_pool ?s = mb_id_pool s" "num_active_mailboxes ?s = num_active_mailboxes s"
    by (simp_all add: initialised_def)
  have u: "do_create_mailbox block m_in s =
      create_mailbox block (m7_i1 m_in) (m7_i2 m_in) (m7_i3 m_in) (m7_i4 m_in) ?s"
    by (simp add: do_create_mailbox_def initialised_def)
  show thesis
  proof (rule get_free_id_cases [of ?s])
    assume "get_free_id ?s = (-1, ?s)" "\<forall>i<MAX_MAILBOXES. bit (mb_id_pool ?s) i"
    then show thesis
      by (intro that(2)) (simp_all add: u create_mailbox_def addMailBox_def p)
  next
    fix i
    let ?s1 = "?s\<lparr>mb_id_pool := or (mb_id_pool ?s) (push_bit i 1),
        num_active_mailboxes := num_active_mailboxes ?s + 1\<rparr>"
    assume i: "get_free_id ?s = (int i, ?s1)"
      "i < MAX_MAILBOXES" "\<not> bit (mb_id_pool ?s) i" "\<forall>j<i. bit (mb_id_pool ?s) j"
    have t1: "tables_ok ?s1" using t L by (auto simp: tables_ok_def split: option.splits)
    have st: "set_mb s2 (int i) mb = Inr (put_slot i mb s2)" if "tables_ok s2" "mbList s2 \<noteq> None" for s2 mb
      using that i(2) by (simp add: set_mb_put)
    show thesis
    proof (rule that(1) [OF i(2)])
      show "do_create_mailbox block m_in s =
         Inr (int i, put_slot i (new_mailbox block (int i) m_in)
           (?s\<lparr>mb_id_pool := or (mb_id_pool s) (push_bit i 1),
              num_active_mailboxes := num_active_mailboxes s + 1\<rparr>))"
        using t1 L tables_ok_put_slot [OF t1]
        by (simp add: u create_mailbox_def addMailBox_def i(1) st Let_def new_mailbox_def p)
    qed (use i p in simp_all)
  qed
qed

lemma do_create_mailbox_ok:
  assumes ok: "vfs_ok s" and front: "front block = NULL"
    and call: "do_create_mailbox block m_in s = Inr (r, s')"
  shows "vfs_ok s'"
  using ok
proof (rule do_create_mailbox_cases [where block = block and m_in = m_in])
  assume "do_create_mailbox block m_in s = Inr (-1, initialised s)"
  with call vfs_ok_initialised [OF ok] show ?thesis by simp
next
  fix i
  let ?s1 = "(initialised s)\<lparr>mb_id_pool := or (mb_id_pool s) (push_bit i 1),
              num_active_mailboxes := num_active_mailboxes s + 1\<rparr>"
  assume i: "i < MAX_MAILBOXES" and "do_create_mailbox block m_in s =
         Inr (int i, put_slot i (new_mailbox block (int i) m_in) ?s1)"
  then have s': "s' = put_slot i (new_mailbox block (int i) m_in) ?s1" using call by simp
  have "bit (mb_id_pool ?s1) i" using bit_pool_set [of i] i by simp
  then have new: "slot_ok ?s1 i (new_mailbox block (int i) m_in)"
    "queue_nodes (new_mailbox block (int i) m_in) ?s1 = Some []"
    using new_mailbox_ok [where block = block and s = ?s1 and i = i and m_in = m_in] front by blast+
  have p: "mb_id_pool (initialised s) = mb_id_pool s" by (simp add: initialised_def)
  have "bit (mb_id_pool ?s1) j = bit (mb_id_pool (initialised s)) j" if "j \<noteq> i" for j
    using bit_pool_set [of i "mb_id_pool s" j] i that p by simp
  then show ?thesis unfolding s'
    using vfs_ok_initialised [OF ok] i new
    by (intro vfs_ok_update [where s = "initialised s"]) (auto simp: node_set_def)
qed

end
