(* ===== verification/MbPreserve.thy ===== *)
theory MbPreserve
  imports MbInv
begin

text \<open>
  The invariant of MbInv is kept by the handlers that register, list, destroy, retrieve and
  deposit (prj_2/src/mailbox.c), and so holds in every state the server reaches.
\<close>

section \<open>Finding a mailbox by its owner\<close>

lemma get_mb_id_loop_Inr:
  "get_mb_id_loop s pid is = Inr r \<Longrightarrow>
     (r = -1 \<and> (\<forall>i\<in>set is. \<exists>mb. get_mb s (int i) = Inr mb \<and> owner_pid mb \<noteq> pid)) \<or>
     (\<exists>i mb. r = int i \<and> i \<in> set is \<and> get_mb s (int i) = Inr mb \<and> owner_pid mb = pid)"
proof (induction "is")
  case Nil
  then show ?case by simp
next
  case (Cons i "is")
  from Cons.prems obtain mb where mb: "get_mb s (int i) = Inr mb"
    "(if owner_pid mb = pid then Inr (int i) else get_mb_id_loop s pid is) = Inr r"
    by (auto simp: guard_simps)
  show ?case
  proof (cases "owner_pid mb = pid")
    case True
    with mb show ?thesis by auto
  next
    case False
    with mb Cons.IH show ?thesis by (simp split: if_splits) blast
  qed
qed

lemma get_mb_id_cases:
  assumes t: "tables_ok s" and call: "get_mb_id s pid = Inr r"
  obtains "r = -1" "\<forall>i<MAX_MAILBOXES. \<exists>mb. slot s i = Some mb \<and> owner_pid mb \<noteq> pid"
  | i mb where "r = int i" "i < MAX_MAILBOXES" "slot s i = Some mb" "owner_pid mb = pid"
      "get_mb s r = Inr mb"
  using get_mb_id_loop_Inr [OF call [unfolded get_mb_id_def]] that
  by (force simp: get_mb_slot [OF t])

section \<open>Registering\<close>

lemma reg_scan_find:
  "reg_scan xs pid is =
     (case find (\<lambda>i. xs ! i = pid \<or> xs ! i = -1) is of None \<Rightarrow> None
      | Some i \<Rightarrow> if xs ! i = pid then Some (Inl ()) else Some (Inr i))"
  by (induction "is") auto

lemma senders_okE:
  assumes "senders_ok mb"
  obtains regs where "registered mb = regs" "senders mb = regs @ replicate (10 - length regs) (-1)"
    "-1 \<notin> set regs" "length regs \<le> 10" "distinct regs"
    "0 \<le> num_senders mb" "num_senders mb \<le> int (length regs)"
    "live mb \<Longrightarrow> num_senders mb = int (length regs)"
proof -
  have "-1 \<notin> set (registered mb)" by (auto simp: registered_def dest: set_takeWhileD)
  with assms that show thesis by (auto simp: senders_ok_def)
qed

text \<open>The scan finds a registered sender, or else the first free entry, or nothing.\<close>

lemma reg_scan_senders:
  assumes ok: "senders_ok mb"
  shows "reg_scan (senders mb) pid [0..<MAX_SENDERS] =
    (if pid \<in> set (registered mb) then Some (Inl ())
     else if length (registered mb) = MAX_SENDERS then None
     else if pid = -1 then Some (Inl ()) else Some (Inr (length (registered mb))))"
  using ok
proof (rule senders_okE)
  fix regs
  assume r: "registered mb = regs" and s: "senders mb = regs @ replicate (10 - length regs) (-1)"
    and n: "-1 \<notin> set regs" and l: "length regs \<le> 10" and d: "distinct regs"
  let ?P = "\<lambda>i. senders mb ! i = pid \<or> senders mb ! i = -1"
  have nth: "senders mb ! i = (if i < length regs then regs ! i else -1)" if "i < 10" for i
    using that by (simp add: s nth_append)
  have ne: "regs ! i \<noteq> -1" if "i < length regs" for i using n that nth_mem by metis
  show ?thesis
  proof (cases "find ?P [0..<10]")
    case None
    then have n: "\<forall>i<10. \<not> ?P i" unfolding find_upt_None .
    have a: "i < length regs \<and> regs ! i \<noteq> pid" if "i < 10" for i
    proof -
      from n that have "\<not> ?P i" by blast
      with nth [OF that] show ?thesis by (auto split: if_splits)
    qed
    from a [of 9] l have "length regs = 10" by simp
    moreover from this a have "pid \<notin> set regs" by (auto simp: in_set_conv_nth)
    ultimately show ?thesis using None r by (simp add: reg_scan_find)
  next
    case (Some i)
    from find_upt_Some [OF Some] have i: "i < 10" "?P i" "\<And>j. j < i \<Longrightarrow> \<not> ?P j" by auto
    show ?thesis
    proof (cases "i < length regs")
      case True
      with i nth ne have "regs ! i = pid" by auto
      with True have "pid \<in> set regs" "senders mb ! i = pid" using nth i by auto
      with Some r show ?thesis by (simp add: reg_scan_find)
    next
      case False
      have "regs ! j \<noteq> pid" if "j < length regs" for j
        using i(3) [of j] nth [of j] that False i(1) by simp
      then have np: "pid \<notin> set regs" by (auto simp: in_set_conv_nth)
      have "i = length regs"
      proof (rule ccontr)
        assume "i \<noteq> length regs"
        with False have "length regs < i" by simp
        with i(3) [of "length regs"] nth [of "length regs"] i(1) show False by simp
      qed
      with Some r np nth [of i] i(1) show ?thesis by (simp add: reg_scan_find)
    qed
  qed
qed

lemma registered_append:
  assumes ok: "senders_ok mb" and room: "length (registered mb) < MAX_SENDERS" and pid: "pid \<noteq> -1"
  shows "registered (mb\<lparr>senders := (senders mb)[length (registered mb) := pid], num_senders := n\<rparr>)
         = registered mb @ [pid]"
    and "(senders mb)[length (registered mb) := pid] =
         (registered mb @ [pid]) @ replicate (MAX_SENDERS - length (registered mb @ [pid])) (-1)"
proof -
  obtain regs where r: "registered mb = regs" "senders mb = regs @ replicate (10 - length regs) (-1)"
    "-1 \<notin> set regs"
    using ok by (rule senders_okE)
  obtain k where k: "10 - length regs = Suc k" "k = 9 - length regs"
    using room r(1) by (cases "10 - length regs") auto
  have u: "(senders mb)[length regs := pid] = (regs @ [pid]) @ replicate k (-1)"
    unfolding r(2) k by (simp add: list_update_append)
  then show "(senders mb)[length (registered mb) := pid] =
         (registered mb @ [pid]) @ replicate (MAX_SENDERS - length (registered mb @ [pid])) (-1)"
    using r(1) k by simp
  have "takeWhile (\<lambda>x. x \<noteq> -1) ((regs @ [pid]) @ replicate k (-1)) = regs @ [pid]"
    using r(3) pid by (subst takeWhile_append2) (auto simp: takeWhile_replicate)
  then show "registered (mb\<lparr>senders := (senders mb)[length (registered mb) := pid], num_senders := n\<rparr>)
         = registered mb @ [pid]"
    unfolding registered_def [of "mb\<lparr>senders := _, num_senders := _\<rparr>"] using u r(1) by simp
qed

text \<open>Only the length of senderDB matters to the invariant.\<close>

lemma vfs_ok_senderDB:
  assumes "vfs_ok s" and "length db = length (senderDB s)"
  shows "vfs_ok (s\<lparr>senderDB := db\<rparr>)"
proof -
  have t: "tables_ok (s\<lparr>senderDB := db\<rparr>)"
    using vfs_ok_tables [OF assms(1)] assms(2)
    by (auto simp: tables_ok_def cong: option.case_cong)
  have sl: "slot (s\<lparr>senderDB := db\<rparr>) = slot s" by (rule slot_cong) simp
  have c: "slot_ok (s\<lparr>senderDB := db\<rparr>) i mb = slot_ok s i mb"
    "node_set (s\<lparr>senderDB := db\<rparr>) mb = node_set s mb" for i mb
    by (rule slot_ok_cong node_set_cong; simp)+
  show ?thesis
    by (rule vfs_okI) (use vfs_okD [OF assms(1)] t in \<open>auto simp: sl c\<close>)
qed

lemma set_sender_local_id_Inr:
  "set_sender_local_id s pid = Inr (r, s') \<Longrightarrow> s' = s \<or> (\<exists>i. s' = s\<lparr>senderDB := (senderDB s)[i := pid]\<rparr>)"
  by (auto simp: set_sender_local_id_def bnd_eq_Inr split: if_splits option.splits)

lemma set_sender_local_id_ok:
  assumes ok: "vfs_ok s" and call: "set_sender_local_id s pid = Inr (r, s')"
  shows "vfs_ok s'"
  using set_sender_local_id_Inr [OF call] ok vfs_ok_senderDB [OF ok] by auto

text \<open>A slot whose own record changes, with the store untouched.\<close>

lemma vfs_ok_put_same:
  assumes ok: "vfs_ok s" and i: "i < MAX_MAILBOXES" and m: "slot s i = Some m"
    and new: "slot_ok s i mb" and sub: "node_set s mb \<subseteq> node_set s m"
  shows "vfs_ok (put_slot i mb s)"
proof (rule vfs_ok_update [OF ok i])
  show "mbList s \<noteq> None" using m by (rule slot_mbList)
  show "node_set s mb \<subseteq> slot_nodes s i \<union> {brk s..}" using sub m by (auto simp: slot_nodes_def)
qed (use new in auto)

lemma do_register_mb_ok:
  assumes ok: "vfs_ok s" and call: "do_register_mb m_in s = Inr (r, s')"
  shows "vfs_ok s'"
proof -
  have t: "tables_ok s" using ok by (rule vfs_ok_tables)
  define i where "i = nat (m7_i4 m_in)"
  from call obtain mb where mb: "get_mb s (m7_i4 m_in) = Inr mb"
    by (auto simp: do_register_mb_def guard_simps Let_def)
  then have sl: "slot s i = Some mb" and i0: "0 \<le> m7_i4 m_in"
    by (simp_all add: get_mb_slot [OF t] i_def)
  have i: "i < MAX_MAILBOXES" using t sl by (rule slot_bound)
  have L: "mbList s \<noteq> None" using sl by (rule slot_mbList)
  have sok: "slot_ok s i mb" using ok sl by (rule vfs_ok_slot)
  then have sn: "senders_ok mb" by (simp add: slot_ok_def)
  let ?pid = "m7_i1 m_in"
  let ?new = "mb\<lparr>senders := (senders mb)[length (registered mb) := ?pid],
                 num_senders := num_senders mb + 1\<rparr>"
  show ?thesis
  proof (cases "authorised mb (m7_i2 m_in) (m7_i3 m_in) \<and> ?pid \<notin> set (registered mb) \<and> ?pid \<noteq> -1 \<and>
      length (registered mb) < MAX_SENDERS")
    case False
    moreover have "length (registered mb) \<le> MAX_SENDERS" using sn by (simp add: senders_ok_def)
    ultimately have "s' = s"
      using call mb reg_scan_senders [OF sn, of ?pid]
      by (auto simp: do_register_mb_def guard_simps Let_def
          split: if_splits option.splits sum.splits)
    with ok show ?thesis by simp
  next
    case True
    note reg = registered_append [OF sn]
    have "set_mb s (m7_i4 m_in) ?new = Inr (put_slot i ?new s)"
      using set_mb_put [OF t] L i0 i by (simp add: i_def)
    with True call mb reg_scan_senders [OF sn, of ?pid]
    have c: "\<exists>r'. set_sender_local_id (put_slot i ?new s) ?pid = Inr (r', s')"
      by (auto simp: do_register_mb_def guard_simps Let_def)
    have "senders_ok ?new"
      using reg(1) [of ?pid "num_senders mb + 1"] reg(2) [of ?pid] True sn by (auto simp: senders_ok_def live_def)
    moreover have "queue_ok ?new s = queue_ok mb s" "queue_nodes ?new s = queue_nodes mb s"
      by (simp_all add: queue_ok_iff queue_nodes_def)
    ultimately have "vfs_ok (put_slot i ?new s)"
      using sok by (intro vfs_ok_put_same [OF ok i sl]) (auto simp: slot_ok_def live_def node_set_def)
    with c set_sender_local_id_ok show ?thesis by blast
  qed
qed

section \<open>Destroying and listing\<close>

definition destroyed :: "MailBox \<Rightarrow> MailBox" where
  "destroyed mb = mb\<lparr>owner_pid := -1, mb_id := -1, num_senders := 0, num_messages := 0,
                    front := NULL, rear := NULL\<rparr>"

lemma destroyed_ok:
  assumes "slot_ok s i mb" and "\<not> bit (mb_id_pool s1) i"
  shows "slot_ok s1 i (destroyed mb) \<and> queue_nodes (destroyed mb) s1 = Some []"
  using assms
  by (auto simp: slot_ok_def destroyed_def queue_ok_iff queue_nodes_def senders_ok_def live_def
      registered_def)

lemma set_free_id_cases:
  assumes "i < MAX_MAILBOXES"
  shows "set_free_id (int i) s =
     (if bit (mb_id_pool s) i then (0, s\<lparr>mb_id_pool := xor (mb_id_pool s) (push_bit i 1)\<rparr>)
      else (-1, s))"
  using assms by (simp add: set_free_id_def and_exp_eq_0_iff_not_bit)

lemma do_destroy_mailbox_cases:
  assumes ok: "vfs_ok s" and call: "do_destroy_mailbox m_in s = Inr (r, s')"
  obtains "s' = s" "r = 0" "\<forall>mb. 0 \<le> m7_i4 m_in \<longrightarrow> slot s (nat (m7_i4 m_in)) \<noteq> Some mb"
  | i mb s1 where "i < MAX_MAILBOXES" "m7_i4 m_in = int i" "slot s i = Some mb"
      "s' = put_slot i (destroyed mb) s1" "r = (if live mb then 0 else -1)"
      "s1 = (if live mb then s\<lparr>mb_id_pool := xor (mb_id_pool s) (push_bit i 1)\<rparr> else s)"
proof -
  have t: "tables_ok s" using ok by (rule vfs_ok_tables)
  let ?i = "m7_i4 m_in"
  show thesis
  proof (cases "?i < int MAX_MAILBOXES")
    case False
    then have "s' = s" "r = 0" using call by (auto simp: do_destroy_mailbox_def)
    moreover have "\<forall>mb. 0 \<le> ?i \<longrightarrow> slot s (nat ?i) \<noteq> Some mb"
      using False slot_bound [OF t] by fastforce
    ultimately show thesis by (rule that(1))
  next
    case True
    with call obtain p where p: "mb_ptr s ?i = Inr p"
      by (auto simp: do_destroy_mailbox_def Let_def bnd_eq_Inr)
    then have p': "0 \<le> ?i" "p = slot s (nat ?i)" "mbList s \<noteq> None" by (simp_all add: mb_ptr_slot [OF t])
    show thesis
    proof (cases p)
      case None
      with call True p have "s' = s" "r = 0" by (auto simp: do_destroy_mailbox_def)
      with None p' show thesis by (intro that(1)) auto
    next
      case (Some mb)
      define i where "i = nat ?i"
      have i: "i < MAX_MAILBOXES" "?i = int i" "slot s i = Some mb"
        using True p' Some by (simp_all add: i_def)
      have st: "set_mb s (int i) (destroyed mb) = Inr (put_slot i (destroyed mb) s)"
        using set_mb_put [OF t] p' i by simp
      have lv: "live mb = bit (mb_id_pool s) i" using vfs_ok_slot [OF ok i(3)] by (simp add: slot_ok_def)
      have "Inr (set_free_id (int i) (put_slot i (destroyed mb) s)) = Inr (r, s')"
        using call True p Some st i by (simp add: do_destroy_mailbox_def destroyed_def)
      then have "(r, s') = (if live mb
          then (0, put_slot i (destroyed mb) (s\<lparr>mb_id_pool := xor (mb_id_pool s) (push_bit i 1)\<rparr>))
          else (-1, put_slot i (destroyed mb) s))"
        using lv by (simp add: set_free_id_cases [OF i(1)] put_slot_pool split: if_splits)
      with i show thesis by (intro that(2) [of i mb]) (auto split: if_splits)
    qed
  qed
qed

lemma do_destroy_mailbox_ok:
  assumes ok: "vfs_ok s" and call: "do_destroy_mailbox m_in s = Inr (r, s')"
  shows "vfs_ok s'"
  using ok call
proof (rule do_destroy_mailbox_cases)
  assume "s' = s" with ok show ?thesis by simp
next
  fix i mb s1
  assume i: "i < MAX_MAILBOXES" and sl: "slot s i = Some mb" and s': "s' = put_slot i (destroyed mb) s1"
    and s1: "s1 = (if live mb then s\<lparr>mb_id_pool := xor (mb_id_pool s) (push_bit i 1)\<rparr> else s)"
  have sok: "slot_ok s i mb" using ok sl by (rule vfs_ok_slot)
  have flip: "bit (mb_id_pool s1) j \<longleftrightarrow> bit (mb_id_pool s) j \<and> j \<noteq> i" for j
    using bit_pool_flip [of i "mb_id_pool s" j] i sok by (auto simp: s1 slot_ok_def)
  then have "\<not> bit (mb_id_pool s1) i" by simp
  note d = destroyed_ok [OF sok this]
  show ?thesis unfolding s'
    by (rule vfs_ok_update [OF ok i slot_mbList [OF sl]])
      (use d flip in \<open>auto simp: s1 node_set_def\<close>)
qed

lemma emit_only:
  "do_get_av_mailboxes m_in s = Inr (r, s') \<Longrightarrow> \<exists>es. s' = emit es s"
  "do_get_senders rx junk m_in s = Inr (r, s') \<Longrightarrow> \<exists>es. s' = emit es s"
proof -
  have e: "\<exists>es. s = emit es s" by (rule exI [of _ "[]"]) (simp add: emit_def)
  show "do_get_av_mailboxes m_in s = Inr (r, s') \<Longrightarrow> \<exists>es. s' = emit es s"
    by (auto simp: do_get_av_mailboxes_def bnd_eq_Inr)
  show "do_get_senders rx junk m_in s = Inr (r, s') \<Longrightarrow> \<exists>es. s' = emit es s"
    using e by (auto simp: do_get_senders_def bnd_eq_Inr Let_def split: if_splits option.splits)
qed

section \<open>Retrieving\<close>

lemma do_retrieve_cases:
  assumes ok: "vfs_ok s" and call: "do_retrieve junk who m_in s = Inr (a, s')"
  obtains "a = Ret (-1)" "s' = s" "\<forall>i<MAX_MAILBOXES. \<exists>mb. slot s i = Some mb \<and> owner_pid mb \<noteq> m7_i1 m_in"
  | i mb where "i < MAX_MAILBOXES" "slot s i = Some mb" "owner_pid mb = m7_i1 m_in"
      "queue_msgs mb s = []" "a = SUSPEND"
      "s' = put_slot i (mb\<lparr>rx_suspended := 1, sus_end_p := who, sus_m_source := m_source m_in,
              sus_message := (sus_message mb)\<lparr>m7_p1 := m7_p1 m_in\<rparr>\<rparr>) s"
  | i mb m mb' buf f p where "i < MAX_MAILBOXES" "slot s i = Some mb" "owner_pid mb = m7_i1 m_in"
      "getMsg mb (map junk [0..<256]) s = Inr (0, buf, mb')"
      "mb' = mb\<lparr>front := f, rear := p, num_messages := num_messages mb - 1\<rparr>"
      "queue_ok mb' s" "queue_msgs mb s = m # queue_msgs mb' s"
      "queue_nodes mb' s = Some (tl (the (queue_nodes mb s)))"
      "strcpy (map junk [0..<256]) (data m) = Inr buf" "a = Ret 0"
      "s' = emit [CopyOut (m_source m_in) (m7_p1 m_in) (Bytes buf)]
              (put_slot i (mb'\<lparr>rx_suspended := 0\<rparr>) s)"
proof -
  have t: "tables_ok s" using ok by (rule vfs_ok_tables)
  from call obtain q where q: "get_mb_id s (m7_i1 m_in) = Inr q"
    by (auto simp: do_retrieve_def bnd_eq_Inr)
  show thesis using t q
  proof (rule get_mb_id_cases)
    assume "q = -1" and none: "\<forall>i<MAX_MAILBOXES. \<exists>mb. slot s i = Some mb \<and> owner_pid mb \<noteq> m7_i1 m_in"
    with call q have "a = Ret (-1)" "s' = s" by (auto simp: do_retrieve_def)
    then show thesis using none by (rule that(1))
  next
    fix i mb
    assume i: "q = int i" "i < MAX_MAILBOXES" "slot s i = Some mb" "owner_pid mb = m7_i1 m_in"
      and mb: "get_mb s q = Inr mb"
    have qok: "queue_ok mb s" using vfs_ok_slot [OF ok i(3)] by (simp add: slot_ok_def)
    have st: "set_mb s (int i) m2 = Inr (put_slot i m2 s)" for m2
      using set_mb_put [OF t] slot_mbList [OF i(3)] i(2) by simp
    from call q i mb obtain r buf mb' where g: "getMsg mb (map junk [0..<256]) s = Inr (r, buf, mb')"
      by (auto simp: do_retrieve_def bnd_eq_Inr)
    note call' = call [unfolded do_retrieve_def q bnd.simps, folded i(1)]
    show thesis using qok g
    proof (rule getMsg_cases)
      assume c: "r = -1" "mb' = mb" "queue_msgs mb s = []"
      show thesis
        by (rule that(2) [OF i(2,3,4) c(3)]) (use call q i mb g c st in \<open>auto simp: do_retrieve_def\<close>)
    next
      fix m f p
      assume c: "r = 0" "mb' = mb\<lparr>front := f, rear := p, num_messages := num_messages mb - 1\<rparr>"
        "queue_ok mb' s" "queue_msgs mb s = m # queue_msgs mb' s"
        "queue_nodes mb' s = Some (tl (the (queue_nodes mb s)))"
        "strcpy (map junk [0..<256]) (data m) = Inr buf"
      have "Inr (Ret 0, emit [CopyOut (m_source m_in) (m7_p1 m_in) (Bytes buf)]
              (put_slot i (mb'\<lparr>rx_suspended := 0\<rparr>) s)) = Inr (a, s')"
        using call q i mb g c(1) st by (simp add: do_retrieve_def)
      then show thesis using that(3) [OF i(2,3,4) g [unfolded c(1)] c(2-6)] by simp
    qed
  qed
qed

lemma slot_ok_fields:
  assumes "slot_ok s i mb" and "queue_ok mb' s1" and "senders mb' = senders mb"
    and "num_senders mb' = num_senders mb" and "mb_id mb' = mb_id mb" and "owner_pid mb' = owner_pid mb"
    and "length (suspended_sender mb') = length (suspended_sender mb)" and "0 \<le> sus_sender_idx mb'"
    and "mb_id_pool s1 = mb_id_pool s"
  shows "slot_ok s1 i mb'"
  using assms unfolding slot_ok_def senders_ok_def registered_def live_def by metis

lemma set_tl_subset: "set (tl xs) \<subseteq> set xs"
  by (cases xs) auto

lemma do_retrieve_ok:
  assumes ok: "vfs_ok s" and call: "do_retrieve junk who m_in s = Inr (a, s')"
  shows "vfs_ok s'"
  using ok call
proof (rule do_retrieve_cases)
  assume "s' = s" with ok show ?thesis by simp
next
  fix i and mb :: MailBox
  let ?mb = "mb\<lparr>rx_suspended := 1, sus_end_p := who, sus_m_source := m_source m_in,
              sus_message := (sus_message mb)\<lparr>m7_p1 := m7_p1 m_in\<rparr>\<rparr>"
  assume i: "i < MAX_MAILBOXES" "slot s i = Some mb" and s': "s' = put_slot i ?mb s"
  have sok: "slot_ok s i mb" using ok i(2) by (rule vfs_ok_slot)
  have q: "queue_nodes ?mb s = queue_nodes mb s" by (simp add: queue_nodes_def)
  then have "queue_ok ?mb s" using sok by (simp add: slot_ok_def queue_ok_iff)
  then have "slot_ok s i ?mb" using sok by (rule_tac slot_ok_fields [OF sok]) (auto simp: slot_ok_def)
  then show ?thesis unfolding s' using q by (intro vfs_ok_put_same [OF ok i]) (auto simp: node_set_def)
next
  fix i buf f p and m :: Message_mb and mb mb' :: MailBox
  assume i: "i < MAX_MAILBOXES" "slot s i = Some mb"
    and mb': "mb' = mb\<lparr>front := f, rear := p, num_messages := num_messages mb - 1\<rparr>"
      "queue_ok mb' s" "queue_nodes mb' s = Some (tl (the (queue_nodes mb s)))"
    and s': "s' = emit [CopyOut (m_source m_in) (m7_p1 m_in) (Bytes buf)]
              (put_slot i (mb'\<lparr>rx_suspended := 0\<rparr>) s)"
  let ?mb = "mb'\<lparr>rx_suspended := 0\<rparr>"
  have sok: "slot_ok s i mb" using ok i(2) by (rule vfs_ok_slot)
  have q: "queue_nodes ?mb s = queue_nodes mb' s" by (simp add: queue_nodes_def)
  then have "queue_ok ?mb s" using mb'(2) by (simp add: queue_ok_iff)
  then have "slot_ok s i ?mb" using sok mb'(1) by (rule_tac slot_ok_fields [OF sok]) (auto simp: slot_ok_def)
  moreover have "node_set s ?mb \<subseteq> node_set s mb" using q mb'(3) set_tl_subset by (simp add: node_set_def)
  ultimately have "vfs_ok (put_slot i ?mb s)" by (rule vfs_ok_put_same [OF ok i])
  then show ?thesis unfolding s' by simp
qed

section \<open>Depositing\<close>

lemma unsuspend_rx_emit: "\<exists>es. snd (unsuspend_rx fpe m mail s) = emit es s"
  by (auto simp: unsuspend_rx_def)

text \<open>A put into the mailbox of slot i, written back to the slot.\<close>

lemma putMsg_ok:
  assumes ok: "vfs_ok s" and i: "i < MAX_MAILBOXES" and sl: "slot s i = Some m"
    and call: "putMsg fpe m mail s = Inr (r, m1, s1)"
  shows "set_mb s1 (int i) m2 = Inr (put_slot i m2 s1)"
    and "vfs_ok (put_slot i m1 s1)"
    and "r = -1 \<Longrightarrow> m1 = m \<and> s1 = s"
proof -
  have sok: "slot_ok s i m" using ok sl by (rule vfs_ok_slot)
  then have qok: "queue_ok m s" by (simp add: slot_ok_def)
  have t: "tables_ok s" using ok by (rule vfs_ok_tables)
  have L: "mbList s \<noteq> None" using sl by (rule slot_mbList)
  have same: "vfs_ok (put_slot i m s)" by (rule vfs_ok_put_same [OF ok i sl sok]) simp
  have *: "set_mb s1 (int i) m2 = Inr (put_slot i m2 s1) \<and> vfs_ok (put_slot i m1 s1) \<and>
      (r = -1 \<longrightarrow> m1 = m \<and> s1 = s)"
    using qok call
  proof (rule putMsg_cases)
    assume "r = -1" "m1 = m" "s1 = s"
    then show ?thesis using set_mb_put [OF t] L i same by simp
  next
    assume c: "r = 0" "m1 = m" "s1 = snd (unsuspend_rx fpe m mail s)"
    then obtain es where s1: "s1 = emit es s" using unsuspend_rx_emit by metis
    have "vfs_ok s1" using ok s1 by simp
    moreover have sl1: "slot s1 i = Some m" using sl s1 slot_cong [of s1 s] by (simp add: emit_def)
    ultimately have "vfs_ok (put_slot i m s1)"
      by (intro vfs_ok_put_same [of s1 i m m]) (use i vfs_ok_slot in auto)
    moreover have "set_mb s1 (int i) m2 = Inr (put_slot i m2 s1)"
      using set_mb_put [OF vfs_ok_tables [OF \<open>vfs_ok s1\<close>]] slot_mbList [OF sl1] i by simp
    ultimately show ?thesis using c by simp
  next
    fix h f
    assume c: "r = 0" "m1 = m\<lparr>front := f, rear := Ref (brk s), num_messages := num_messages m + 1\<rparr>"
      "s1 = s\<lparr>nodes := h, brk := Suc (brk s)\<rparr>" "queue_ok m1 s1"
      "queue_nodes m1 s1 = Some (the (queue_nodes m s) @ [brk s])"
      "\<And>a. a \<noteq> brk s \<Longrightarrow> a \<notin> set (the (queue_nodes m s)) \<Longrightarrow> h a = nodes s a"
    have "slot_ok s1 i m1" using sok c by (rule_tac slot_ok_fields [OF sok]) (auto simp: slot_ok_def)
    then have "vfs_ok (put_slot i m1 s1)"
      using c sl by (intro vfs_ok_update [OF ok i L]) (auto simp: slot_nodes_def node_set_def)
    moreover have "tables_ok s1" using t tables_ok_cong [of s1 s] c(3) by simp
    then have "set_mb s1 (int i) m2 = Inr (put_slot i m2 s1)"
      using set_mb_put L i c(3) by simp
    ultimately show ?thesis using c(1) by simp
  qed
  then show "set_mb s1 (int i) m2 = Inr (put_slot i m2 s1)" "vfs_ok (put_slot i m1 s1)"
    "r = -1 \<Longrightarrow> m1 = m \<and> s1 = s" by auto
qed

text \<open>Recording the sender in a full mailbox.\<close>

lemma suspend_ok:
  assumes ok: "vfs_ok s" and i: "i < MAX_MAILBOXES" and sl: "slot s i = Some m"
    and wr: "wr (suspended_sender m) (sus_sender_idx m) pid = Inr ss"
  shows "vfs_ok (put_slot i (m\<lparr>suspended_sender := ss, sus_sender_idx := sus_sender_idx m + 1\<rparr>) s)"
    (is "vfs_ok (put_slot i ?m s)")
proof -
  have sok: "slot_ok s i m" using ok sl by (rule vfs_ok_slot)
  have q: "queue_nodes ?m s = queue_nodes m s" by (simp add: queue_nodes_def)
  then have "queue_ok ?m s" using sok by (simp add: slot_ok_def queue_ok_iff)
  moreover have "length ss = length (suspended_sender m)" using wr by (rule wr_length)
  ultimately have "slot_ok s i ?m"
    using sok by (rule_tac slot_ok_fields [OF sok]) (auto simp: slot_ok_def)
  then show ?thesis using q by (intro vfs_ok_put_same [OF ok i sl]) (auto simp: node_set_def)
qed

definition dest_range :: "int list \<Rightarrow> bool" where
  "dest_range xs \<longleftrightarrow> list_all (\<lambda>i. 0 \<le> i \<and> i < int MAX_MAILBOXES) xs"

text \<open>A predicate that the two ways of writing a slot keep is kept by the whole loop.\<close>

lemma deposit_loop_rule:
  assumes put: "\<And>s i m r m1 s1. vfs_ok s \<Longrightarrow> P s \<Longrightarrow> slot s i = Some m \<Longrightarrow>
        putMsg fpe m msg s = Inr (r, m1, s1) \<Longrightarrow> P (put_slot i m1 s1)"
    and suspend: "\<And>s i m ss. vfs_ok s \<Longrightarrow> P s \<Longrightarrow> slot s i = Some m \<Longrightarrow>
        P (put_slot i (m\<lparr>suspended_sender := ss, sus_sender_idx := sus_sender_idx m + 1\<rparr>) s)"
    and "vfs_ok s" and "dest_range sus" and "P s"
    and "deposit_loop fpe pid msg ds sus s = Inr (code, sus', s')"
  shows "vfs_ok s' \<and> dest_range sus' \<and> P s'"
  using assms(3-6)
proof (induction ds arbitrary: sus s)
  case Nil
  then show ?case by simp
next
  case (Cons d ds)
  have t: "tables_ok s" using Cons.prems(1) by (rule vfs_ok_tables)
  show ?case
  proof (cases "0 < d")
    case False
    with Cons.prems show ?thesis by (simp split: if_splits)
  next
    case True
    with Cons.prems(4) obtain q where q: "get_mb_id s d = Inr q" by (auto simp: bnd_eq_Inr)
    show ?thesis using t q
    proof (rule get_mb_id_cases)
      assume "q = -1"
      with True q Cons.prems show ?thesis by simp
    next
      fix i m
      assume i: "q = int i" "i < MAX_MAILBOXES" "slot s i = Some m" and m: "get_mb s q = Inr m"
      from Cons.prems(4) True q i obtain v where v: "isValidSender s q pid = Inr v"
        by (auto simp: bnd_eq_Inr)
      show ?thesis
      proof (cases "v = 1")
        case False
        with Cons.prems True q i v show ?thesis by (auto split: if_splits)
      next
        case v1: True
        with Cons.prems(4) True q i v m obtain r m1 s1 where p: "putMsg fpe m msg s = Inr (r, m1, s1)"
          by (auto simp: bnd_eq_Inr)
        note put = putMsg_ok [OF Cons.prems(1) i(2,3) p]
        show ?thesis
        proof (cases "r = -1")
          case full: True
          with put(3) have e: "m1 = m" "s1 = s" by simp_all
          from Cons.prems(4) True q i v v1 m p full e obtain ss where
            ss: "wr (suspended_sender m) (sus_sender_idx m) pid = Inr ss"
            by (auto simp: bnd_eq_Inr)
          let ?s = "put_slot i (m\<lparr>suspended_sender := ss, sus_sender_idx := sus_sender_idx m + 1\<rparr>) s"
          have "deposit_loop fpe pid msg ds (sus @ [q]) ?s = Inr (code, sus', s')"
            using Cons.prems(4) True q i v v1 m p full e ss put(1)
            by (auto simp: bnd_eq_Inr split: if_splits)
          moreover have "vfs_ok ?s" using suspend_ok [OF Cons.prems(1) i(2,3) ss] .
          moreover have "P ?s" using suspend [OF Cons.prems(1,3) i(3)] .
          moreover have "dest_range (sus @ [q])" using Cons.prems(2) i by (simp add: dest_range_def)
          ultimately show ?thesis using Cons.IH by blast
        next
          case False
          have "deposit_loop fpe pid msg ds sus (put_slot i m1 s1) = Inr (code, sus', s')"
            using Cons.prems(4) True q i v v1 m p False put(1) by (auto simp: bnd_eq_Inr)
          then show ?thesis
            using Cons.IH Cons.prems(2) put(2) assms(1) [OF Cons.prems(1,3) i(3) p] by blast
        qed
      qed
    qed
  qed
qed

lemma deposit_loop_ok:
  assumes "vfs_ok s" and "dest_range sus"
    and "deposit_loop fpe pid msg ds sus s = Inr (code, sus', s')"
  shows "vfs_ok s' \<and> dest_range sus'"
  using deposit_loop_rule [where P = "\<lambda>_. True", OF _ _ assms(1,2) _ assms(3)] by blast

section \<open>Suspended senders\<close>

lemma vfs_ok_ctx:
  assumes ok: "vfs_ok s" and C: "susContext s = Some C" and n: "length C' = length C"
    and c: "\<And>p. p \<in> set C' \<Longrightarrow> p = None \<or> p \<in> set C \<or> (\<exists>x. p = Some x \<and> ctx_ok x)"
  shows "vfs_ok (s\<lparr>susContext := Some C'\<rparr>)"
proof -
  have old: "list_all (\<lambda>p. case p of None \<Rightarrow> True | Some c \<Rightarrow> ctx_ok c) C"
    "length C = 100" "mbList s \<noteq> None"
    using vfs_ok_tables [OF ok] C by (cases "mbList s"; simp add: tables_ok_def)+
  then have "list_all (\<lambda>p. case p of None \<Rightarrow> True | Some c \<Rightarrow> ctx_ok c) C'"
    using c by (fastforce simp: list_all_iff split: option.splits)
  then have t: "tables_ok (s\<lparr>susContext := Some C'\<rparr>)"
    using vfs_ok_tables [OF ok] C old n by (auto simp: tables_ok_def)
  have sl: "slot (s\<lparr>susContext := Some C'\<rparr>) = slot s" by (rule slot_cong) simp
  have cg: "slot_ok (s\<lparr>susContext := Some C'\<rparr>) i mb = slot_ok s i mb"
    "node_set (s\<lparr>susContext := Some C'\<rparr>) mb = node_set s mb" for i mb
    by (rule slot_ok_cong node_set_cong; simp)+
  show ?thesis
    by (rule vfs_okI) (use vfs_okD [OF ok] t in \<open>auto simp: sl cg\<close>)
qed

lemma set_ctx_ok:
  assumes ok: "vfs_ok s" and c: "ctx_ok c" and call: "set_ctx s i c = Inr s'"
  shows "vfs_ok s'"
proof -
  from call obtain C where C: "susContext s = Some C" "0 \<le> i" "i < int (length C)"
    and s': "s' = s\<lparr>susContext := Some (C[nat i := Some c])\<rparr>"
    by (auto simp: set_ctx_def bnd_eq_Inr wr_eq_Inr)
  show ?thesis unfolding s'
    by (rule vfs_ok_ctx [OF ok C(1)]) (use c in \<open>auto dest!: set_update_subset_insert [THEN subsetD]\<close>)
qed

lemma ctx_ptr_ok: "vfs_ok s \<Longrightarrow> ctx_ptr s i = Inr (Some c) \<Longrightarrow> ctx_ok c"
proof -
  assume ok: "vfs_ok s" and c: "ctx_ptr s i = Inr (Some c)"
  from c obtain C where C: "susContext s = Some C" "nat i < length C" "C ! nat i = Some c"
    by (auto simp: ctx_ptr_def bnd_eq_Inr rd_eq_Inr nat_less_iff)
  then have "Some c \<in> set C" using nth_mem by metis
  then show ?thesis
    using vfs_ok_tables [OF ok] C by (fastforce simp: tables_ok_def list_all_iff split: option.splits)
qed

lemma ctx_ok_freed: "ctx_ok c \<Longrightarrow> ctx_ok (c\<lparr>suspened_for := (suspened_for c)[0 := -1]\<rparr>)"
  by (auto simp: ctx_ok_def list_all_iff dest!: set_update_subset_insert [THEN subsetD])

lemma indicate_loop_ok:
  "vfs_ok s \<Longrightarrow> indicate_loop n fpe junk l cursor s = Inr (r, s') \<Longrightarrow> vfs_ok s'"
proof (induction n fpe junk l cursor s rule: indicate_loop.induct)
  case (1 fpe junk l cursor s)
  then show ?case by simp
next
  case (2 n fpe junk l cursor s)
  from "2.prems"(2) obtain p where p: "ctx_ptr s cursor = Inr p" by (auto simp: bnd_eq_Inr)
  show ?case
  proof (cases p)
    case None
    with "2.prems" p show ?thesis by simp
  next
    case (Some c)
    with "2.prems"(2) p obtain f where f: "rd (suspened_for c) 0 = Inr f" by (auto simp: bnd_eq_Inr)
    have c: "ctx_ok (c\<lparr>suspened_for := (suspened_for c)[0 := -1]\<rparr>)"
      using ctx_ok_freed ctx_ptr_ok "2.prems"(1) p Some by blast
    consider "f = l" | "f \<noteq> l" "cursor \<noteq> l" | "f \<noteq> l" "cursor = l" by blast
    then show ?thesis
    proof cases
      case 1
      with "2.prems" p Some f set_ctx_ok [OF "2.prems"(1) c] show ?thesis
        by (auto simp: bnd_eq_Inr)
    next
      case 2
      with "2.prems" p Some f obtain s1 c' f' where sc:
        "set_ctx (emit [CopyOut (ctx_m_source c) (ctx_p2 c) (Ints [-2, -2, -2, junk]),
                        Reply (fpe (ctx_end_p c)) 0] s)
           cursor (c\<lparr>suspened_for := (suspened_for c)[0 := -1]\<rparr>) = Inr s1"
        and c': "bnd (ctx_ptr s1 f) deref = Inr c'" "rd (suspened_for c') 0 = Inr f'"
        and rest: "indicate_loop n fpe junk l f' s1 = Inr (r, s')"
        by (auto simp: bnd_eq_Inr)
      have "vfs_ok s1" using "2.prems"(1) c sc set_ctx_ok vfs_ok_emit by blast
      with "2.IH"(1) [OF p Some f 2 sc c'] rest show ?thesis by blast
    next
      case 3
      with "2.prems" p Some f "2.IH"(2) show ?thesis by simp
    qed
  qed
qed

lemma do_deposit_ok:
  assumes ok: "vfs_ok s" and call: "do_deposit fpe junk who dest bytes m_in s = Inr (a, s')"
  shows "vfs_ok s'"
proof -
  let ?msg = "\<lparr>data = bytes, sender_id = m7_i1 m_in\<rparr>"
  from call obtain code sus s1 where
    l: "deposit_loop fpe (m7_i1 m_in) ?msg dest [] s = Inr (code, sus, s1)"
    by (auto simp: do_deposit_def Let_def bnd_eq_Inr)
  have s1: "vfs_ok s1" "dest_range sus"
    using deposit_loop_ok [OF ok _ l] by (simp_all add: dest_range_def)
  show ?thesis
  proof (cases "code = None \<and> sus \<noteq> []")
    case False
    with call l have "s' = s1" by (auto simp: do_deposit_def Let_def Suc_le_eq split: option.splits)
    with s1 show ?thesis by simp
  next
    case True
    let ?c = "\<lparr>ctx_msg = ?msg, suspened_for = sus, len_sus_for = int (length sus), ctx_end_p = who,
               ctx_m_source = m_source m_in, ctx_p1 = m7_p1 m_in, ctx_p2 = m7_p2 m_in\<rparr>"
    have c: "ctx_ok ?c" using True s1(2) by (force simp: ctx_ok_def dest_range_def list_all_iff)
    obtain k where k: "get_sender_local_id s1 (m7_i1 m_in) = Inr k"
      using True call l by (auto simp: do_deposit_def Let_def Suc_le_eq bnd_eq_Inr)
    obtain q where q: "ctx_ptr s1 k = Inr q"
      using True call l k by (auto simp: do_deposit_def Let_def Suc_le_eq bnd_eq_Inr)
    obtain s2 where s2: "set_ctx s1 k ?c = Inr s2"
      using True call l k q by (auto simp: do_deposit_def Let_def Suc_le_eq bnd_eq_Inr)
    obtain d where d: "check_dead_lock s2 k = Inr d"
      using True call l k q s2 by (auto simp: do_deposit_def Let_def Suc_le_eq bnd_eq_Inr)
    have ok2: "vfs_ok s2" using s1(1) c s2 by (rule set_ctx_ok)
    show ?thesis
    proof (cases "d = 1")
      case False
      with True call l k q s2 d ok2 show ?thesis
        by (simp add: do_deposit_def Let_def Suc_le_eq bnd_eq_Inr)
    next
      case dead: True
      with True call l k q s2 d obtain r s3 where s3: "indicate_deadlock fpe junk k s2 = Inr (r, s3)"
        by (auto simp: do_deposit_def Let_def Suc_le_eq bnd_eq_Inr)
      with True call l k q s2 d dead
      have "s' = emit [CopyOut (m_source m_in) (m7_p2 m_in) (Ints [-2, -2])] s3"
        by (simp add: do_deposit_def Let_def Suc_le_eq)
      then show ?thesis using indicate_loop_ok [OF ok2] s3 by (simp add: indicate_deadlock_def)
    qed
  qed
qed

section \<open>Reachable states\<close>

text \<open>
  One step is one system call that returns. What the code leaves to its environment is
  arbitrary: the process table, the contents of fresh blocks, the message and the memory of
  the caller. The one thing asked of malloc is that the block of a new mailbox has a null
  front pointer, which create_mailbox relies on and never assigns.
\<close>

inductive vfs_step :: "vfs \<Rightarrow> vfs \<Rightarrow> bool" where
  create: "do_create_mailbox block m_in s = Inr (r, s') \<Longrightarrow> front block = NULL \<Longrightarrow> vfs_step s s'"
| destroy: "do_destroy_mailbox m_in s = Inr (r, s') \<Longrightarrow> vfs_step s s'"
| available: "do_get_av_mailboxes m_in s = Inr (r, s') \<Longrightarrow> vfs_step s s'"
| register: "do_register_mb m_in s = Inr (r, s') \<Longrightarrow> vfs_step s s'"
| senders: "do_get_senders rx junk m_in s = Inr (r, s') \<Longrightarrow> vfs_step s s'"
| deposit: "do_deposit fpe junk who dest bytes m_in s = Inr (a, s') \<Longrightarrow> vfs_step s s'"
| retrieve: "do_retrieve block_bytes who m_in s = Inr (a, s') \<Longrightarrow> vfs_step s s'"

inductive reachable :: "vfs \<Rightarrow> bool" where
  boot: "reachable boot"
| step: "reachable s \<Longrightarrow> vfs_step s s' \<Longrightarrow> reachable s'"

lemma vfs_step_ok: "vfs_step s s' \<Longrightarrow> vfs_ok s \<Longrightarrow> vfs_ok s'"
proof (induction rule: vfs_step.induct)
  case (available m_in s r s')
  then show ?case using emit_only(1) by fastforce
next
  case (senders rx junk m_in s r s')
  then show ?case using emit_only(2) by fastforce
qed (blast intro: do_create_mailbox_ok do_destroy_mailbox_ok do_register_mb_ok do_deposit_ok
       do_retrieve_ok)+

lemma reachable_ok: "reachable s \<Longrightarrow> vfs_ok s"
  by (induction rule: reachable.induct) (auto intro: vfs_ok_boot vfs_step_ok)

end
