(* ===== verification/MbSpec.thy ===== *)
theory MbSpec
  imports MbPreserve
begin

text \<open>
  What the mailbox calls promise (prj_2/src/mailbox.c), in terms of the ten slots and the
  messages each of them holds: looking a mailbox up, creating, destroying, registering,
  depositing and retrieving, each on every branch.
\<close>

section \<open>Views of the state\<close>

definition live_at :: "vfs \<Rightarrow> nat \<Rightarrow> bool" where
  "live_at s i \<longleftrightarrow> (case slot s i of None \<Rightarrow> False | Some mb \<Rightarrow> live mb)"

definition items_at :: "vfs \<Rightarrow> nat \<Rightarrow> Message_mb list" where
  "items_at s i = (case slot s i of None \<Rightarrow> [] | Some mb \<Rightarrow> queue_msgs mb s)"

text \<open>Every entry of mbList points to a mailbox, live or destroyed.\<close>

definition populated :: "vfs \<Rightarrow> bool" where
  "populated s \<longleftrightarrow> list_all (\<lambda>i. slot s i \<noteq> None) [0..<MAX_MAILBOXES]"

lemma populatedE: "populated s \<Longrightarrow> i < MAX_MAILBOXES \<Longrightarrow> \<exists>mb. slot s i = Some mb"
  by (auto simp: populated_def list_all_iff)

lemma live_at_bit: "vfs_ok s \<Longrightarrow> i < MAX_MAILBOXES \<Longrightarrow> bit (mb_id_pool s) i \<longleftrightarrow> live_at s i"
  using vfs_ok_slot [of s i] vfs_ok_free [of s i]
  by (cases "slot s i") (auto simp: live_at_def slot_ok_def)

lemma queue_at: "vfs_ok s \<Longrightarrow> slot s i = Some mb \<Longrightarrow> queue_ok mb s"
  using vfs_ok_slot [of s i mb] by (simp add: slot_ok_def)

text \<open>A slot rewritten as in vfs_ok_update leaves the messages of the other slots alone.\<close>

lemma items_at_update:
  assumes ok: "vfs_ok s" and i: "i < MAX_MAILBOXES" and L: "mbList s \<noteq> None"
    and same: "mbList s1 = mbList s"
    and keep: "\<And>a. a < brk s \<Longrightarrow> a \<notin> slot_nodes s i \<Longrightarrow> nodes s1 a = nodes s a"
    and brk: "brk s \<le> brk s1" and t1: "tables_ok s1"
  shows "items_at (put_slot i mb s1) j = (if j = i then queue_msgs mb s1 else items_at s j)"
proof -
  have L1: "mbList s1 \<noteq> None" using L same by simp
  have sl: "slot (put_slot i mb s1) j = (if j = i then Some mb else slot s j)"
    using slot_put_slot [OF t1 L1 i] slot_cong [OF same] by simp
  have m: "queue_msgs m2 (put_slot i mb s1) = queue_msgs m2 s1" for m2
    by (rule queue_cong) simp_all
  show ?thesis
  proof (cases "j = i \<or> slot s j = None")
    case True
    then show ?thesis by (auto simp: items_at_def sl m)
  next
    case False
    then obtain m2 where m2: "slot s j = Some m2" "j \<noteq> i" by auto
    have sok: "slot_ok s j m2" using vfs_ok_slot [OF ok m2(1)] .
    have "nodes s1 a = nodes s a" if "a \<in> node_set s m2" for a
    proof (rule keep)
      show "a < brk s" using sok that by (rule node_set_brk)
      show "a \<notin> slot_nodes s i"
        using vfs_ok_disjoint [OF ok, of i _ j m2] m2 that
        by (auto simp: slot_nodes_def split: option.splits)
    qed
    then have "queue_msgs m2 s1 = queue_msgs m2 s"
      using queue_frame [of m2 s s1] sok brk by (simp add: slot_ok_def node_set_def)
    with m2 show ?thesis by (simp add: items_at_def sl m)
  qed
qed

lemma items_at_put_same:
  assumes ok: "vfs_ok s" and sl: "slot s i = Some m"
  shows "items_at (put_slot i mb s) j = (if j = i then queue_msgs mb s else items_at s j)"
  using slot_bound [OF vfs_ok_tables [OF ok] sl] slot_mbList [OF sl] vfs_ok_tables [OF ok]
  by (intro items_at_update [OF ok]) auto

lemma items_at_emit [simp]: "items_at (emit es s) i = items_at s i"
  and slot_emit [simp]: "slot (emit es s) i = slot s i"
proof -
  show sl: "slot (emit es s) i = slot s i" by (simp add: slot_def emit_def)
  show "items_at (emit es s) i = items_at s i" by (simp add: items_at_def sl cong: option.case_cong)
qed

lemma slot_put:
  "vfs_ok s \<Longrightarrow> slot s i = Some m \<Longrightarrow> slot (put_slot i mb s) j = (if j = i then Some mb else slot s j)"
  using slot_put_slot [OF vfs_ok_tables slot_mbList slot_bound [OF vfs_ok_tables]] by blast

section \<open>Looking a mailbox up\<close>

text \<open>The first slot that is null or belongs to the process decides the search.\<close>

definition lookup_spec :: "vfs \<Rightarrow> int \<Rightarrow> int res" where
  "lookup_spec s pid =
     (case find (\<lambda>i. case slot s i of None \<Rightarrow> True | Some mb \<Rightarrow> owner_pid mb = pid) [0..<MAX_MAILBOXES] of
        None \<Rightarrow> Inr (-1)
      | Some i \<Rightarrow> if slot s i = None then Inl NullDeref else Inr (int i))"

lemma get_mb_at:
  assumes "tables_ok s" and "mbList s \<noteq> None" and "i < MAX_MAILBOXES"
  shows "get_mb s (int i) = deref (slot s i)"
proof -
  have "mb_ptr s (int i) = Inr (slot s i)" using assms mb_ptr_slot [of s "int i"] by simp
  then show ?thesis by (simp add: get_mb_def)
qed

lemma get_mb_id_spec:
  assumes t: "tables_ok s" and L: "mbList s \<noteq> None"
  shows "get_mb_id s pid = lookup_spec s pid"
proof -
  have "get_mb_id_loop s pid is =
     (case find (\<lambda>i. case slot s i of None \<Rightarrow> True | Some mb \<Rightarrow> owner_pid mb = pid) is of
        None \<Rightarrow> Inr (-1)
      | Some i \<Rightarrow> if slot s i = None then Inl NullDeref else Inr (int i))"
    if "set is \<subseteq> {..<MAX_MAILBOXES}" for "is"
    using that
    by (induction "is") (auto simp: get_mb_at [OF t L] split: option.split)
  from this [of "[0..<MAX_MAILBOXES]"] show ?thesis
    by (simp add: get_mb_id_def lookup_spec_def atLeast0LessThan)
qed

text \<open>In a populated table the search is total.\<close>

definition owner_slot :: "vfs \<Rightarrow> int \<Rightarrow> nat option" where
  "owner_slot s pid =
     find (\<lambda>i. case slot s i of None \<Rightarrow> False | Some mb \<Rightarrow> owner_pid mb = pid) [0..<MAX_MAILBOXES]"

lemma populated_mbList: "populated s \<Longrightarrow> mbList s \<noteq> None"
  using populatedE [of s 0] slot_mbList by auto

lemma get_mb_id_populated:
  assumes ok: "vfs_ok s" and p: "populated s"
  shows "get_mb_id s pid = Inr (case owner_slot s pid of None \<Rightarrow> -1 | Some i \<Rightarrow> int i)"
proof -
  have "find (\<lambda>i. case slot s i of None \<Rightarrow> True | Some mb \<Rightarrow> owner_pid mb = pid) [0..<MAX_MAILBOXES] = owner_slot s pid"
    unfolding owner_slot_def
    by (rule find_cong [OF refl]) (use populatedE [OF p] in \<open>auto split: option.split\<close>)
  moreover have "slot s i \<noteq> None" if "owner_slot s pid = Some i" for i
    using find_upt_Some [OF that [unfolded owner_slot_def]] by (auto split: option.splits)
  ultimately show ?thesis
    using get_mb_id_spec [OF vfs_ok_tables [OF ok] populated_mbList [OF p]]
    by (auto simp: lookup_spec_def split: option.split)
qed

lemma owner_slotD:
  assumes "owner_slot s pid = Some i"
  obtains mb where "i < MAX_MAILBOXES" "slot s i = Some mb" "owner_pid mb = pid"
  using find_upt_Some [OF assms [unfolded owner_slot_def]] that by (auto split: option.splits)

section \<open>Creating and destroying\<close>

lemma items_at_create:
  assumes ok: "vfs_ok s" and i: "i < MAX_MAILBOXES" and f: "front block = NULL"
    and s': "s' = put_slot i (new_mailbox block r m_in)
           ((initialised s)\<lparr>mb_id_pool := p, num_active_mailboxes := n\<rparr>)"
  shows "items_at s' j = (if j = i then [] else items_at s j)"
    and "slot s' j = (if j = i then Some (new_mailbox block r m_in) else slot s j)"
proof -
  note I = vfs_ok_initialised [OF ok]
  let ?s = "(initialised s)\<lparr>mb_id_pool := p, num_active_mailboxes := n\<rparr>"
  have L: "mbList (initialised s) \<noteq> None" and okI: "vfs_ok (initialised s)" using I by auto
  have t1: "tables_ok ?s"
    using vfs_ok_tables [OF okI] L by (auto simp: tables_ok_def split: option.splits)
  have n: "nodes (initialised s) = nodes s" "brk (initialised s) = brk s"
    by (simp_all add: initialised_def)
  have "items_at (initialised s) k = items_at s k" for k
    using I queue_cong(3) [OF n] by (simp add: items_at_def cong: option.case_cong)
  moreover have "queue_msgs (new_mailbox block r m_in) ?s = []"
    using f by (simp add: queue_msgs_def queue_nodes_def new_mailbox_def)
  ultimately show "items_at s' j = (if j = i then [] else items_at s j)"
    unfolding s' using items_at_update [OF okI i L, of ?s] t1 by simp
  have "slot ?s = slot (initialised s)" by (rule slot_cong) simp
  then show "slot s' j = (if j = i then Some (new_mailbox block r m_in) else slot s j)"
    unfolding s' using slot_put_slot [OF t1 _ i] L I by simp
qed

lemma create_effect:
  assumes ok: "vfs_ok s" and f: "front block = NULL"
  obtains "\<forall>i<MAX_MAILBOXES. live_at s i" "do_create_mailbox block m_in s = Inr (-1, initialised s)"
  | i s' where "i < MAX_MAILBOXES" "\<not> live_at s i" "\<forall>j<i. live_at s j"
      "do_create_mailbox block m_in s = Inr (int i, s')" "vfs_ok s'"
      "slot s' = (slot s)(i \<mapsto> new_mailbox block (int i) m_in)"
      "items_at s' = (items_at s)(i := [])"
proof -
  note lv = live_at_bit [OF ok]
  show thesis using ok
  proof (rule do_create_mailbox_cases [where block = block and m_in = m_in])
    assume "\<forall>i<MAX_MAILBOXES. bit (mb_id_pool s) i"
      "do_create_mailbox block m_in s = Inr (-1, initialised s)"
    then show thesis using that(1) lv by simp
  next
    fix i
    let ?s' = "put_slot i (new_mailbox block (int i) m_in)
           ((initialised s)\<lparr>mb_id_pool := or (mb_id_pool s) (push_bit i 1),
              num_active_mailboxes := num_active_mailboxes s + 1\<rparr>)"
    assume i: "i < MAX_MAILBOXES" "\<not> bit (mb_id_pool s) i" "\<forall>j<i. bit (mb_id_pool s) j"
      and c: "do_create_mailbox block m_in s = Inr (int i, ?s')"
    note e = items_at_create [OF ok i(1) f refl]
    show thesis
    proof (rule that(2))
      show "\<forall>j<i. live_at s j" using i lv by fastforce
      show "vfs_ok ?s'" by (rule do_create_mailbox_ok [OF ok f c])
    qed (use i lv c e in \<open>auto simp: fun_eq_iff\<close>)
  qed
qed

lemma destroy_effect:
  assumes ok: "vfs_ok s" and sl: "slot s i = Some mb" and m: "m7_i4 m_in = int i"
  obtains s' where "do_destroy_mailbox m_in s = Inr (if live mb then 0 else -1, s')" "vfs_ok s'"
    "slot s' = (slot s)(i \<mapsto> destroyed mb)" "items_at s' = (items_at s)(i := [])"
proof -
  have t: "tables_ok s" using ok by (rule vfs_ok_tables)
  have i: "i < MAX_MAILBOXES" using t sl by (rule slot_bound)
  have L: "mbList s \<noteq> None" using sl by (rule slot_mbList)
  have "mb_ptr s (int i) = Inr (Some mb)" using sl i L mb_ptr_slot [OF t, of "int i"] by simp
  moreover have "set_mb s (int i) (destroyed mb) = Inr (put_slot i (destroyed mb) s)"
    using set_mb_put [OF t] L i by simp
  ultimately have "\<exists>r s'. do_destroy_mailbox m_in s = Inr (r, s')"
    using m i by (auto simp: do_destroy_mailbox_def destroyed_def)
  then obtain r s' where c: "do_destroy_mailbox m_in s = Inr (r, s')" by blast
  show thesis using ok c
  proof (rule do_destroy_mailbox_cases)
    assume "\<forall>mb. 0 \<le> m7_i4 m_in \<longrightarrow> slot s (nat (m7_i4 m_in)) \<noteq> Some mb"
    with m sl show thesis by simp
  next
    fix k mb2 s1
    assume k: "m7_i4 m_in = int k" "slot s k = Some mb2" and s': "s' = put_slot k (destroyed mb2) s1"
      and r: "r = (if live mb2 then 0 else -1)"
      and s1: "s1 = (if live mb2 then s\<lparr>mb_id_pool := xor (mb_id_pool s) (push_bit k 1)\<rparr> else s)"
    have k': "k = i" "mb2 = mb" using k m sl by simp_all
    have t1: "tables_ok s1" using t L by (auto simp: s1 tables_ok_def split: option.splits)
    have sm: "mbList s1 = mbList s" "nodes s1 = nodes s" "brk s1 = brk s" by (simp_all add: s1)
    have "queue_msgs (destroyed mb) s1 = []"
      by (simp add: queue_msgs_def queue_nodes_def destroyed_def)
    then have "items_at s' = (items_at s)(i := [])"
      using items_at_update [OF ok i L sm(1) _ _ t1] sm by (simp add: s' k' fun_eq_iff)
    moreover have "slot s' = (slot s)(i \<mapsto> destroyed mb)"
      using slot_put_slot [OF t1 _ i] L sm slot_cong [OF sm(1)] by (simp add: s' k' fun_eq_iff)
    ultimately show thesis using that c r k' do_destroy_mailbox_ok [OF ok c] by simp
  qed
qed

section \<open>Registering and checking senders\<close>

definition register_code :: "MailBox \<Rightarrow> int \<Rightarrow> int \<Rightarrow> int \<Rightarrow> int" where
  "register_code mb pid uid gid =
     (if \<not> authorised mb uid gid then -1
      else if pid \<in> set (registered mb) then -2
      else if length (registered mb) = MAX_SENDERS then -1 else 0)"

lemma populated_put: "vfs_ok s \<Longrightarrow> slot s i = Some m \<Longrightarrow> populated s \<Longrightarrow> populated (put_slot i mb s)"
  using slot_put by (auto simp: populated_def list_all_iff)

lemma set_sender_local_id_total:
  assumes ok: "vfs_ok s" and p: "populated s"
  obtains r db where "set_sender_local_id s pid = Inr (r, s\<lparr>senderDB := db\<rparr>)"
proof -
  obtain q where q: "get_mb_id s pid = Inr q" using get_mb_id_populated [OF ok p] by blast
  define f where "f = find (\<lambda>i. senderDB s ! i = -1) [MAX_MAILBOXES..<MAX_SENDERS * MAX_MAILBOXES]"
  have u: "set_sender_local_id s pid = (if q = -1 then
         (case f of Some i \<Rightarrow> Inr (int i, s\<lparr>senderDB := (senderDB s)[i := pid]\<rparr>) | None \<Rightarrow> Inr (-1, s))
       else Inr (q, s))"
    using q by (simp only: set_sender_local_id_def f_def bnd.simps)
  have self: "s\<lparr>senderDB := senderDB s\<rparr> = s" by simp
  show thesis
  proof (cases "q = -1 \<and> f \<noteq> None")
    case True
    then show thesis using that u by auto
  next
    case False
    then have "set_sender_local_id s pid = Inr (q, s)" unfolding u by auto
    then show thesis using that [of q "senderDB s"] unfolding self by simp
  qed
qed

lemma register_effect:
  assumes ok: "vfs_ok s" and p: "populated s" and i: "i < MAX_MAILBOXES" and sl: "slot s i = Some mb"
    and m: "m7_i4 m_in = int i" and pid: "m7_i1 m_in \<noteq> -1"
  obtains s' mb' where "do_register_mb m_in s =
       Inr (register_code mb (m7_i1 m_in) (m7_i2 m_in) (m7_i3 m_in), s')"
    "slot s' = (slot s)(i \<mapsto> mb')" "items_at s' = items_at s"
    "registered mb' = (if register_code mb (m7_i1 m_in) (m7_i2 m_in) (m7_i3 m_in) = 0
       then registered mb @ [m7_i1 m_in] else registered mb)"
    "owner_pid mb' = owner_pid mb" "live mb' = live mb"
    "\<exists>xs n. mb' = mb\<lparr>senders := xs, num_senders := n\<rparr>"
proof -
  have t: "tables_ok s" using ok by (rule vfs_ok_tables)
  have sn: "senders_ok mb" using vfs_ok_slot [OF ok sl] by (simp add: slot_ok_def)
  have L: "mbList s \<noteq> None" using sl by (rule slot_mbList)
  have g: "get_mb s (int i) = Inr mb" using get_mb_at [OF t L i] sl by simp
  let ?pid = "m7_i1 m_in"
  note sc = reg_scan_senders [OF sn, of ?pid]
  show thesis
  proof (cases "register_code mb ?pid (m7_i2 m_in) (m7_i3 m_in) = 0")
    case False
    have call: "do_register_mb m_in s = Inr (register_code mb ?pid (m7_i2 m_in) (m7_i3 m_in), s)"
      using False g m sc pid by (auto simp: do_register_mb_def register_code_def split: if_splits)
    have slots: "slot s = (slot s)(i \<mapsto> mb)" using sl by (simp add: fun_upd_idem)
    have ex: "\<exists>xs n. mb = mb\<lparr>senders := xs, num_senders := n\<rparr>"
      by (intro exI [of _ "senders mb"] exI [of _ "num_senders mb"]) simp
    show thesis by (rule that [OF call slots refl _ refl refl ex]) (use False in simp)
  next
    case True
    then have c: "authorised mb (m7_i2 m_in) (m7_i3 m_in)" "?pid \<notin> set (registered mb)"
      "length (registered mb) \<noteq> MAX_SENDERS"
      by (auto simp: register_code_def split: if_splits)
    then have room: "length (registered mb) < MAX_SENDERS" using sn by (simp add: senders_ok_def)
    let ?new = "mb\<lparr>senders := (senders mb)[length (registered mb) := ?pid],
                   num_senders := num_senders mb + 1\<rparr>"
    have st: "set_mb s (int i) ?new = Inr (put_slot i ?new s)" using set_mb_put [OF t] L i by simp
    note reg = registered_append(1) [OF sn room pid, of "num_senders mb + 1"]
    have "senders_ok ?new"
      using reg registered_append(2) [OF sn room pid] room sn c(2) by (auto simp: senders_ok_def live_def)
    moreover have qn: "queue_nodes ?new s = queue_nodes mb s" by (simp add: queue_nodes_def)
    moreover have "queue_ok ?new s = queue_ok mb s" using qn by (simp add: queue_ok_iff)
    ultimately have ok': "vfs_ok (put_slot i ?new s)"
      using vfs_ok_slot [OF ok sl]
      by (intro vfs_ok_put_same [OF ok i sl]) (auto simp: slot_ok_def live_def node_set_def)
    obtain r db where r: "set_sender_local_id (put_slot i ?new s) ?pid =
        Inr (r, (put_slot i ?new s)\<lparr>senderDB := db\<rparr>)" (is "_ = Inr (r, ?s')")
      using set_sender_local_id_total [OF ok' populated_put [OF ok sl p]] by blast
    have sl': "slot ?s' = slot (put_slot i ?new s)" by (rule slot_cong) simp
    have ms: "queue_msgs b ?s' = queue_msgs b (put_slot i ?new s)" for b
      by (rule queue_cong) simp_all
    have "items_at ?s' j = items_at (put_slot i ?new s) j" for j
      by (simp add: items_at_def sl' ms cong: option.case_cong)
    moreover have "queue_msgs ?new s = queue_msgs mb s" using qn by (simp add: queue_msgs_def cong: option.case_cong)
    ultimately have items: "items_at ?s' = items_at s"
      using items_at_put_same [OF ok sl, of ?new] sl by (auto simp: fun_eq_iff items_at_def [of s i])
    have call: "do_register_mb m_in s = Inr (register_code mb ?pid (m7_i2 m_in) (m7_i3 m_in), ?s')"
      unfolding True using c g m sc pid st r by (simp add: do_register_mb_def)
    have slots: "slot ?s' = (slot s)(i \<mapsto> ?new)"
      using sl' slot_put [OF ok sl, of ?new] by (simp add: fun_eq_iff)
    have ex: "\<exists>xs n. ?new = mb\<lparr>senders := xs, num_senders := n\<rparr>" by blast
    show thesis
      by (rule that [OF call slots items _ _ _ ex]) (use True reg in \<open>simp_all add: live_def\<close>)
  qed
qed

lemma valid_scan_find:
  "set is \<subseteq> {..<length xs} \<Longrightarrow> valid_scan xs pid is = Inr (if \<exists>i\<in>set is. xs ! i = pid then 1 else 0)"
  by (induction "is") auto

lemma valid_sender:
  assumes ok: "vfs_ok s" and i: "i < MAX_MAILBOXES" and sl: "slot s i = Some mb" and lv: "live mb"
    and own: "owner_pid mb \<noteq> -1"
  shows "isValidSender s (int i) pid = Inr (if pid \<in> set (registered mb) then 1 else 0)"
proof -
  have "senders_ok mb" using vfs_ok_slot [OF ok sl] by (simp add: slot_ok_def)
  then obtain regs where r: "registered mb = regs" "senders mb = regs @ replicate (10 - length regs) (-1)"
    "num_senders mb = int (length regs)" "length regs \<le> 10"
    using lv by (rule_tac senders_okE) auto
  have "get_mb s (int i) = Inr mb"
    using get_mb_at [OF vfs_ok_tables [OF ok] slot_mbList [OF sl] i] sl by simp
  moreover have "valid_scan (senders mb) pid [0..<length regs] = Inr (if pid \<in> set regs then 1 else 0)"
    using r valid_scan_find [of "[0..<length regs]" "senders mb" pid]
    by (auto simp: nth_append in_set_conv_nth atLeast0LessThan)
  ultimately show ?thesis using own r by (simp add: isValidSender_def)
qed

section \<open>Retrieving\<close>

lemma retrieve_stranger:
  assumes ok: "vfs_ok s" and p: "populated s" and o: "owner_slot s (m7_i1 m_in) = None"
  shows "do_retrieve junk who m_in s = Inr (Ret (-1), s)"
  using get_mb_id_populated [OF ok p, of "m7_i1 m_in"] o by (simp add: do_retrieve_def)

lemma retrieve_owner:
  assumes ok: "vfs_ok s" and p: "populated s" and o: "owner_slot s (m7_i1 m_in) = Some i"
    and sl: "slot s i = Some mb"
  shows "do_retrieve junk who m_in s =
    bnd (getMsg mb (map junk [0..<256]) s) (\<lambda>(r, buf, mb1).
      if r < 0 then Inr (SUSPEND, put_slot i (mb1\<lparr>rx_suspended := 1, sus_end_p := who,
             sus_m_source := m_source m_in,
             sus_message := (sus_message mb1)\<lparr>m7_p1 := m7_p1 m_in\<rparr>\<rparr>) s)
      else Inr (Ret 0, emit [CopyOut (m_source m_in) (m7_p1 m_in) (Bytes buf)]
                         (put_slot i (mb1\<lparr>rx_suspended := 0\<rparr>) s)))"
proof -
  have t: "tables_ok s" using ok by (rule vfs_ok_tables)
  have i: "i < MAX_MAILBOXES" using owner_slotD [OF o] by blast
  have L: "mbList s \<noteq> None" using sl by (rule slot_mbList)
  have g: "get_mb s (int i) = Inr mb" using get_mb_at [OF t L i] sl by simp
  have st: "set_mb s (int i) m2 = Inr (put_slot i m2 s)" for m2
    using set_mb_put [OF t] L i by simp
  have q: "get_mb_id s (m7_i1 m_in) = Inr (int i)" using get_mb_id_populated [OF ok p] o by simp
  show ?thesis
    unfolding do_retrieve_def q bnd.simps g st
    by (simp add: st)
qed

lemma retrieve_empty:
  assumes ok: "vfs_ok s" and p: "populated s" and o: "owner_slot s (m7_i1 m_in) = Some i"
    and e: "items_at s i = []"
  obtains mb s' where "do_retrieve junk who m_in s = Inr (SUSPEND, s')"
    "slot s i = Some mb"
    "slot s' = (slot s)(i \<mapsto> mb\<lparr>rx_suspended := 1, sus_end_p := who, sus_m_source := m_source m_in,
              sus_message := (sus_message mb)\<lparr>m7_p1 := m7_p1 m_in\<rparr>\<rparr>)"
    "items_at s' = items_at s" "effs s' = effs s"
proof -
  from o obtain mb where sl: "slot s i = Some mb" by (rule owner_slotD)
  let ?mb = "mb\<lparr>rx_suspended := 1, sus_end_p := who, sus_m_source := m_source m_in,
              sus_message := (sus_message mb)\<lparr>m7_p1 := m7_p1 m_in\<rparr>\<rparr>"
  have em: "queue_msgs mb s = []" using e sl by (simp add: items_at_def)
  have "getMsg mb (map junk [0..<256]) s = Inr (-1, map junk [0..<256], mb)"
    using getMsg_empty [OF queue_at [OF ok sl] em] by blast
  then have c: "do_retrieve junk who m_in s = Inr (SUSPEND, put_slot i ?mb s)"
    unfolding retrieve_owner [OF ok p o sl] by simp
  have "queue_msgs ?mb s = queue_msgs mb s"
    by (simp add: queue_msgs_def queue_nodes_def cong: option.case_cong)
  then have "items_at (put_slot i ?mb s) = items_at s"
    using items_at_put_same [OF ok sl, of ?mb] em e by (auto simp: fun_eq_iff)
  moreover have "slot (put_slot i ?mb s) = (slot s)(i \<mapsto> ?mb)"
    using slot_put [OF ok sl] by (simp add: fun_eq_iff)
  ultimately show thesis using that [OF c sl] by simp
qed

text \<open>The oldest message goes to the caller and leaves the mailbox.\<close>

lemma retrieve_some:
  assumes ok: "vfs_ok s" and p: "populated s" and o: "owner_slot s (m7_i1 m_in) = Some i"
    and e: "items_at s i = m # ms" and m: "msg_ok m"
  obtains mb f b buf s' where "do_retrieve junk who m_in s = Inr (Ret 0, s')" "slot s i = Some mb"
    "slot s' = (slot s)(i \<mapsto> mb\<lparr>front := f, rear := b, num_messages := num_messages mb - 1, rx_suspended := 0\<rparr>)"
    "items_at s' = (items_at s)(i := ms)" "cstr buf = cstr (data m)" "length buf = 256"
    "effs s' = effs s @ [CopyOut (m_source m_in) (m7_p1 m_in) (Bytes buf)]"
proof -
  from o obtain mb where sl: "slot s i = Some mb" by (rule owner_slotD)
  have em: "queue_msgs mb s = m # ms" using e sl by (simp add: items_at_def)
  have len: "length (map junk [0..<256]) = 256" by (simp del: upt_rec_numeral)
  show thesis using queue_at [OF ok sl] em m len
  proof (rule getMsg_front)
    fix buf f b
    let ?m1 = "mb\<lparr>front := f, rear := b, num_messages := num_messages mb - 1\<rparr>"
    let ?m2 = "?m1\<lparr>rx_suspended := 0\<rparr>"
    let ?s = "put_slot i ?m2 s"
    assume g: "getMsg mb (map junk [0..<256]) s = Inr (0, buf, ?m1)"
      and b: "cstr buf = cstr (data m)" "length buf = 256" and q: "queue_msgs ?m1 s = ms"
    let ?e = "emit [CopyOut (m_source m_in) (m7_p1 m_in) (Bytes buf)] ?s"
    have c: "do_retrieve junk who m_in s = Inr (Ret 0, ?e)"
      unfolding retrieve_owner [OF ok p o sl] g by simp
    have "queue_msgs ?m2 s = queue_msgs ?m1 s"
      by (simp add: queue_msgs_def queue_nodes_def cong: option.case_cong)
    then have it: "items_at ?e = (items_at s)(i := ms)"
      using items_at_put_same [OF ok sl, of ?m2] q by (auto simp: fun_eq_iff)
    have st: "slot ?e = (slot s)(i \<mapsto> ?m2)"
      using slot_put [OF ok sl] by (simp add: fun_eq_iff)
    show thesis by (rule that [OF c sl _ it b]) (use st in \<open>simp_all add: emit_def\<close>)
  qed
qed

section \<open>Depositing, one destination at a time\<close>

lemma owner_live:
  assumes ok: "vfs_ok s" and o: "owner_slot s d = Some i" and d: "0 < d" and sl: "slot s i = Some mb"
  shows "live mb \<and> owner_pid mb = d \<and> i < MAX_MAILBOXES"
  using owner_slotD [OF o] vfs_ok_slot [OF ok sl] sl d by (fastforce simp: slot_ok_def)

text \<open>The loop at a destination with a mailbox, up to its putMsg.\<close>

lemma deposit_known:
  assumes ok: "vfs_ok s" and p: "populated s" and d: "0 < d" and o: "owner_slot s d = Some i"
    and sl: "slot s i = Some m"
  shows "deposit_loop fpe pid msg (d # ds) sus s =
    (if pid \<notin> set (registered m) then Inr (Some (-5), sus, s)
     else bnd (putMsg fpe m msg s) (\<lambda>(r, m1, s1).
       if r = -1 then
         bnd (wr (suspended_sender m) (sus_sender_idx m) pid) (\<lambda>ss.
           if length sus < MAX_SENDERS
           then deposit_loop fpe pid msg ds (sus @ [int i])
                  (put_slot i (m\<lparr>suspended_sender := ss, sus_sender_idx := sus_sender_idx m + 1\<rparr>) s)
           else Inl OutOfBounds)
       else deposit_loop fpe pid msg ds sus (put_slot i m1 s1)))"
proof -
  have lv: "live m" "owner_pid m = d" "i < MAX_MAILBOXES" using owner_live [OF ok o d sl] by auto
  have v: "isValidSender s (int i) pid = Inr (if pid \<in> set (registered m) then 1 else 0)"
    using valid_sender [OF ok lv(3) sl lv(1)] lv(2) d by simp
  have q: "get_mb_id s d = Inr (int i)" using get_mb_id_populated [OF ok p] o by simp
  have g: "get_mb s (int i) = Inr m"
    using get_mb_at [OF vfs_ok_tables [OF ok] slot_mbList [OF sl] lv(3)] sl by simp
  show ?thesis
  proof (cases "pid \<in> set (registered m)")
    case False
    then show ?thesis using d q v by simp
  next
    case True
    show ?thesis
    proof (cases "putMsg fpe m msg s")
      case (Inl e)
      then show ?thesis using True d q v g by simp
    next
      case (Inr x)
      obtain r m1 s1 where x: "x = (r, m1, s1)" by (cases x)
      note put = putMsg_ok [OF ok lv(3) sl Inr [unfolded x]]
      show ?thesis using True d q v g Inr x put(1) put(3) by (auto intro!: bnd_cong)
    qed
  qed
qed

lemma deposit_unknown:
  assumes ok: "vfs_ok s" and p: "populated s" and d: "0 < d" and o: "owner_slot s d = None"
  shows "deposit_loop fpe pid msg (d # ds) sus s = Inr (Some (-3), sus, s)"
  using get_mb_id_populated [OF ok p, of d] d o by simp

text \<open>What a delivery changes of a slot: nothing but the queue.\<close>

definition same_but_queue :: "MailBox \<Rightarrow> MailBox \<Rightarrow> bool" where
  "same_but_queue m m1 \<longleftrightarrow>
     (\<exists>f b n. m1 = m\<lparr>front := f, rear := b, num_messages := n\<rparr>)"

lemma deposit_room:
  assumes ok: "vfs_ok s" and p: "populated s" and d: "0 < d" and o: "owner_slot s d = Some i"
    and sl: "slot s i = Some m" and reg: "pid \<in> set (registered m)" and rx: "rx_suspended m \<noteq> 1"
    and room: "length (items_at s i) < 10"
  obtains s' m1 where "\<And>ds sus. deposit_loop fpe pid msg (d # ds) sus s = deposit_loop fpe pid msg ds sus s'"
    "vfs_ok s'" "slot s' = (slot s)(i \<mapsto> m1)" "same_but_queue m m1"
    "items_at s' = (items_at s)(i := items_at s i @ [msg])" "effs s' = effs s"
    "susContext s' = susContext s"
proof -
  have i: "i < MAX_MAILBOXES" using owner_live [OF ok o d sl] by simp
  have L: "mbList s \<noteq> None" using sl by (rule slot_mbList)
  have it: "items_at s i = queue_msgs m s" using sl by (simp add: items_at_def)
  show thesis
    using queue_at [OF ok sl] room [unfolded it] rx
  proof (rule putMsg_spec)
    fix h f
    let ?m = "m\<lparr>front := f, rear := Ref (brk s), num_messages := num_messages m + 1\<rparr>"
    let ?s = "s\<lparr>nodes := h, brk := Suc (brk s)\<rparr>"
    assume c: "putMsg fpe m msg s = Inr (0, ?m, ?s)" and q: "queue_msgs ?m ?s = queue_msgs m s @ [msg]"
      and h: "\<And>a. a \<noteq> brk s \<Longrightarrow> a \<notin> set (the (queue_nodes m s)) \<Longrightarrow> h a = nodes s a"
    note put = putMsg_ok [OF ok i sl c]
    have t1: "tables_ok ?s" using vfs_ok_tables [OF ok] tables_ok_cong [of ?s s] by simp
    have "slot (put_slot i ?m ?s) = (slot s)(i \<mapsto> ?m)"
      using slot_put_slot [OF t1 _ i, of ?m] L slot_cong [of ?s s] by (simp add: fun_eq_iff)
    moreover have "items_at (put_slot i ?m ?s) = (items_at s)(i := items_at s i @ [msg])"
      using items_at_update [OF ok i L _ _ _ t1, of ?m] h sl q it
      by (auto simp: fun_eq_iff slot_nodes_def node_set_def)
    moreover have "same_but_queue m ?m" unfolding same_but_queue_def by blast
    moreover have "deposit_loop fpe pid msg (d # ds) sus s = deposit_loop fpe pid msg ds sus (put_slot i ?m ?s)" for ds sus
      unfolding deposit_known [OF ok p d o sl] c using reg by simp
    ultimately show thesis using that [of "put_slot i ?m ?s" ?m] put(2) by (simp del: deposit_loop.simps(2))
  qed
qed

lemma deposit_waiting:
  assumes ok: "vfs_ok s" and p: "populated s" and d: "0 < d" and o: "owner_slot s d = Some i"
    and sl: "slot s i = Some m" and reg: "pid \<in> set (registered m)" and rx: "rx_suspended m = 1"
    and room: "length (items_at s i) < 10"
  obtains s' where "\<And>ds sus. deposit_loop fpe pid msg (d # ds) sus s = deposit_loop fpe pid msg ds sus s'"
    "vfs_ok s'" "slot s' = slot s" "items_at s' = items_at s"
    "effs s' = effs s @ [Revive (sus_end_p m),
        CopyOut (sus_m_source m) (m7_p1 (sus_message m)) (Bytes (data msg)),
        Reply (fpe (sus_end_p m)) 0]"
proof -
  have i: "i < MAX_MAILBOXES" using owner_live [OF ok o d sl] by simp
  have it: "items_at s i = queue_msgs m s" using sl by (simp add: items_at_def)
  note c = putMsg_waiting [OF queue_at [OF ok sl] room [unfolded it] rx, of fpe msg]
  let ?es = "[Revive (sus_end_p m), CopyOut (sus_m_source m) (m7_p1 (sus_message m)) (Bytes (data msg)),
        Reply (fpe (sus_end_p m)) 0]"
  have u: "snd (unsuspend_rx fpe m msg s) = emit ?es s" by (simp add: unsuspend_rx_def)
  have ok1: "vfs_ok (emit ?es s)" using ok by simp
  have sl1: "slot (emit ?es s) i = Some m" using sl by simp
  have slots: "slot (put_slot i m (emit ?es s)) = slot s"
    using slot_put [OF ok1 sl1, of m] sl by (auto simp: fun_eq_iff)
  have items: "items_at (put_slot i m (emit ?es s)) = items_at s"
    using items_at_put_same [OF ok1 sl1, of m] sl by (auto simp: fun_eq_iff items_at_def [of s i])
  have step: "deposit_loop fpe pid msg (d # ds) sus s = deposit_loop fpe pid msg ds sus (put_slot i m (emit ?es s))" for ds sus
    unfolding deposit_known [OF ok p d o sl] c u using reg by simp
  have ok': "vfs_ok (put_slot i m (emit ?es s))" using putMsg_ok(2) [OF ok i sl c] unfolding u .
  show thesis
    by (rule that [OF step ok' slots items]) (simp add: emit_def)
qed

lemma deposit_full:
  assumes ok: "vfs_ok s" and p: "populated s" and d: "0 < d" and o: "owner_slot s d = Some i"
    and sl: "slot s i = Some m" and reg: "pid \<in> set (registered m)"
    and full: "length (items_at s i) = 10" and idx: "sus_sender_idx m < int MAX_SENDERS"
    and sus: "length sus < MAX_SENDERS"
  obtains s' where "\<And>ds. deposit_loop fpe pid msg (d # ds) sus s = deposit_loop fpe pid msg ds (sus @ [int i]) s'"
    "vfs_ok s'" "items_at s' = items_at s" "effs s' = effs s" "susContext s' = susContext s"
    "senderDB s' = senderDB s"
    "slot s' = (slot s)(i \<mapsto> m\<lparr>suspended_sender := (suspended_sender m)[nat (sus_sender_idx m) := pid],
                              sus_sender_idx := sus_sender_idx m + 1\<rparr>)"
proof -
  have i: "i < MAX_MAILBOXES" using owner_live [OF ok o d sl] by simp
  have it: "items_at s i = queue_msgs m s" using sl by (simp add: items_at_def)
  have c: "putMsg fpe m msg s = Inr (-1, m, s)"
    using putMsg_full [OF queue_at [OF ok sl]] full it by simp
  have sok: "length (suspended_sender m) = MAX_SENDERS" "0 \<le> sus_sender_idx m"
    using vfs_ok_slot [OF ok sl] by (simp_all add: slot_ok_def)
  let ?ss = "(suspended_sender m)[nat (sus_sender_idx m) := pid]"
  let ?m = "m\<lparr>suspended_sender := ?ss, sus_sender_idx := sus_sender_idx m + 1\<rparr>"
  have w: "wr (suspended_sender m) (sus_sender_idx m) pid = Inr ?ss" using sok idx by simp
  have "queue_msgs ?m s = queue_msgs m s"
    by (simp add: queue_msgs_def queue_nodes_def cong: option.case_cong)
  then have items: "items_at (put_slot i ?m s) = items_at s"
    using items_at_put_same [OF ok sl, of ?m] it by (auto simp: fun_eq_iff)
  have step: "deposit_loop fpe pid msg (d # ds) sus s = deposit_loop fpe pid msg ds (sus @ [int i]) (put_slot i ?m s)" for ds
    unfolding deposit_known [OF ok p d o sl] c using reg w sus by simp
  show thesis
    by (rule that [OF step suspend_ok [OF ok i sl w] items])
      (use slot_put [OF ok sl, of ?m] in \<open>simp_all add: fun_eq_iff\<close>)
qed

section \<open>Depositing to many\<close>

text \<open>The process d has a mailbox that takes one more message of pid into its queue.\<close>

definition takes :: "vfs \<Rightarrow> int \<Rightarrow> int \<Rightarrow> bool" where
  "takes s pid d \<longleftrightarrow> 0 < d \<and>
     (case owner_slot s d of None \<Rightarrow> False
      | Some i \<Rightarrow> (case slot s i of None \<Rightarrow> False
          | Some m \<Rightarrow> pid \<in> set (registered m) \<and> rx_suspended m \<noteq> 1 \<and> length (items_at s i) < 10))"

lemma owner_slot_update:
  assumes "slot s' = (slot s)(i \<mapsto> m1)" and "slot s i = Some m" and "owner_pid m1 = owner_pid m"
  shows "owner_slot s' = owner_slot s"
  unfolding owner_slot_def fun_eq_iff using assms by (auto intro!: find_cong)

lemma populated_update: "slot s' = (slot s)(i \<mapsto> m1) \<Longrightarrow> populated s \<Longrightarrow> populated s'"
  by (auto simp: populated_def list_all_iff)

lemma same_but_queueD:
  "same_but_queue m m1 \<Longrightarrow> owner_pid m1 = owner_pid m \<and> registered m1 = registered m \<and>
     rx_suspended m1 = rx_suspended m"
  by (auto simp: same_but_queue_def registered_def)

lemma takesE:
  assumes "takes s pid d"
  obtains i m where "0 < d" "owner_slot s d = Some i" "slot s i = Some m" "pid \<in> set (registered m)"
    "rx_suspended m \<noteq> 1" "length (items_at s i) < 10"
  using assms by (auto simp: takes_def split: option.splits)

lemma deposit_all:
  assumes "vfs_ok s" and "populated s" and "\<forall>d\<in>set ds. takes s pid d"
    and "distinct (map (owner_slot s) ds)" and "e \<le> 0"
  shows "\<exists>s'. deposit_loop fpe pid msg (ds @ e # rest) sus s = Inr (None, sus, s') \<and> vfs_ok s' \<and>
      effs s' = effs s \<and>
      (\<forall>j. items_at s' j = (if Some j \<in> owner_slot s ` set ds then items_at s j @ [msg] else items_at s j))"
  using assms
proof (induction ds arbitrary: s)
  case Nil
  then show ?case by auto
next
  case (Cons d ds)
  from Cons.prems(3) have "takes s pid d" by simp
  then obtain i m where t: "0 < d" "owner_slot s d = Some i" "slot s i = Some m" "pid \<in> set (registered m)"
    "rx_suspended m \<noteq> 1" "length (items_at s i) < 10" by (rule takesE)
  from Cons.prems(1,2) t obtain s1 m1 where
    step: "\<And>ds sus. deposit_loop fpe pid msg (d # ds) sus s = deposit_loop fpe pid msg ds sus s1"
    and ok1: "vfs_ok s1" and sl1: "slot s1 = (slot s)(i \<mapsto> m1)" and sb: "same_but_queue m m1"
    and it: "items_at s1 = (items_at s)(i := items_at s i @ [msg])" and ef: "effs s1 = effs s"
    by (rule deposit_room [where fpe = fpe and msg = msg]) metis
  note sb = same_but_queueD [OF sb]
  have os: "owner_slot s1 = owner_slot s" using owner_slot_update [OF sl1 t(3)] sb by simp
  have p1: "populated s1" using sl1 Cons.prems(2) by (rule populated_update)
  have tk: "\<forall>d'\<in>set ds. takes s1 pid d'"
  proof
    fix d' assume d': "d' \<in> set ds"
    with Cons.prems(3,4) t(2) have "takes s pid d'" "owner_slot s d' \<noteq> Some i" by (auto simp: rev_image_eqI)
    then show "takes s1 pid d'" by (auto simp: takes_def os sl1 it split: option.splits)
  qed
  have dist: "distinct (map (owner_slot s1) ds)" using Cons.prems(4) os by simp
  obtain s' where s': "deposit_loop fpe pid msg (ds @ e # rest) sus s1 = Inr (None, sus, s')" "vfs_ok s'"
    "effs s' = effs s1"
    "\<forall>j. items_at s' j = (if Some j \<in> owner_slot s1 ` set ds then items_at s1 j @ [msg] else items_at s1 j)"
    using Cons.IH [OF ok1 p1 tk dist Cons.prems(5)] by blast
  have ni: "Some i \<notin> owner_slot s ` set ds" using Cons.prems(4) t(2) by (auto simp: rev_image_eqI)
  have "items_at s' j = (if Some j \<in> owner_slot s ` set (d # ds) then items_at s j @ [msg] else items_at s j)" for j
    using s'(4) os it ni t(2) by (cases "j = i") auto
  moreover have "deposit_loop fpe pid msg ((d # ds) @ e # rest) sus s = Inr (None, sus, s')"
    using step s'(1) by (simp del: deposit_loop.simps(2))
  ultimately show ?case using s'(2,3) ef by metis
qed

text \<open>do_deposit when no mailbox it meets is full, and when the loop returns a code.\<close>

lemma do_deposit_plain:
  assumes "deposit_loop fpe (m7_i1 m_in) \<lparr>data = bytes, sender_id = m7_i1 m_in\<rparr> dest [] s = Inr (None, [], s')"
  shows "do_deposit fpe junk who dest bytes m_in s = Inr (Ret 0, s')"
  using assms by (simp add: do_deposit_def)

lemma do_deposit_code:
  assumes "deposit_loop fpe (m7_i1 m_in) \<lparr>data = bytes, sender_id = m7_i1 m_in\<rparr> dest [] s = Inr (Some c, sus, s')"
  shows "do_deposit fpe junk who dest bytes m_in s = Inr (Ret c, s')"
  using assms by (simp add: do_deposit_def)

text \<open>The code -4 of the loop is never returned: a mailbox found by its owner has one.\<close>

lemma deposit_loop_codes:
  assumes "vfs_ok s" and "deposit_loop fpe pid msg ds sus s = Inr (code, sus', s')"
  shows "code \<in> {None, Some (-3), Some (-5)}"
  using assms
proof (induction ds arbitrary: sus s)
  case Nil
  then show ?case by simp
next
  case (Cons d ds)
  have t: "tables_ok s" using Cons.prems(1) by (rule vfs_ok_tables)
  show ?case
  proof (cases "0 < d")
    case False
    with Cons.prems show ?thesis by (simp split: if_splits)
  next
    case True
    with Cons.prems(2) obtain q where q: "get_mb_id s d = Inr q" by (auto simp: bnd_eq_Inr)
    show ?thesis using t q
    proof (rule get_mb_id_cases)
      assume "q = -1"
      with True q Cons.prems show ?thesis by simp
    next
      fix i m
      assume i: "q = int i" "i < MAX_MAILBOXES" "slot s i = Some m" "owner_pid m = d" and m: "get_mb s q = Inr m"
      have lv: "live m" using vfs_ok_slot [OF Cons.prems(1) i(3)] i(4) True by (auto simp: slot_ok_def)
      have v: "isValidSender s q pid = Inr (if pid \<in> set (registered m) then 1 else 0)"
        using valid_sender [OF Cons.prems(1) i(2,3) lv] i(1,4) True by simp
      show ?thesis
      proof (cases "pid \<in> set (registered m)")
        case False
        with Cons.prems True q i v show ?thesis by (auto split: if_splits)
      next
        case pid: True
        with Cons.prems(2) True q i v m obtain r m1 s1 where p: "putMsg fpe m msg s = Inr (r, m1, s1)"
          by (auto simp: bnd_eq_Inr)
        note put = putMsg_ok [OF Cons.prems(1) i(2,3) p]
        show ?thesis
        proof (cases "r = -1")
          case full: True
          with put(3) have e: "m1 = m" "s1 = s" by simp_all
          from Cons.prems(2) True q i v pid m p full e obtain ss where
            ss: "wr (suspended_sender m) (sus_sender_idx m) pid = Inr ss"
            by (auto simp: bnd_eq_Inr)
          show ?thesis
            using Cons.IH [OF suspend_ok [OF Cons.prems(1) i(2,3) ss], of "sus @ [q]"]
              Cons.prems(2) True q i v pid m p full e ss put(1)
            by (auto simp: bnd_eq_Inr split: if_splits)
        next
          case False
          then show ?thesis
            using Cons.IH [OF put(2), of sus] Cons.prems(2) True q i v pid m p put(1)
            by (auto simp: bnd_eq_Inr)
        qed
      qed
    qed
  qed
qed

section \<open>Listing the mailboxes a process may use\<close>

definition visible :: "vfs \<Rightarrow> int \<Rightarrow> int \<Rightarrow> nat list \<Rightarrow> MailBox list" where
  "visible s uid gid is =
     filter (\<lambda>mb. authorised mb uid gid) (List.map_filter (slot s) is)"

definition id_pairs :: "MailBox list \<Rightarrow> int list" where
  "id_pairs mbs = concat (map (\<lambda>mb. [mb_id mb, owner_pid mb]) mbs)"

lemma visible_simps [simp]:
  "visible s uid gid [] = []"
  "slot s i = None \<Longrightarrow> visible s uid gid (i # is) = visible s uid gid is"
  "slot s i = Some mb \<Longrightarrow> visible s uid gid (i # is) =
     (if authorised mb uid gid then mb # visible s uid gid is else visible s uid gid is)"
  by (simp_all add: visible_def List.map_filter_def)

lemma visible_length: "length (visible s uid gid is) \<le> length is"
  unfolding visible_def List.map_filter_def comp_def
  by (rule order_trans [OF length_filter_le]) (simp add: length_filter_le)

lemma take_pair: "2 * k + 1 < length xs \<Longrightarrow>
    take (2 * k + 2) (xs[2 * k := a, 2 * k + 1 := b]) = take (2 * k) xs @ [a, b]"
  by (rule nth_equalityI) (auto simp: nth_append nth_list_update less_Suc_eq)

lemma av_loop_spec:
  assumes t: "tables_ok s" and L: "mbList s \<noteq> None"
  shows "set is \<subseteq> {..<MAX_MAILBOXES} \<Longrightarrow> length ml = 20 \<Longrightarrow> k + length (visible s uid gid is) \<le> 10 \<Longrightarrow>
    \<exists>ml'. av_loop s uid gid is ml (int k) = Inr (ml', int (k + length (visible s uid gid is))) \<and>
      length ml' = 20 \<and>
      take (2 * (k + length (visible s uid gid is))) ml' = take (2 * k) ml @ id_pairs (visible s uid gid is)"
proof (induction "is" arbitrary: ml k)
  case Nil
  then show ?case by (simp add: id_pairs_def)
next
  case (Cons i "is")
  have p: "mb_ptr s (int i) = Inr (slot s i)"
    using mb_ptr_slot [OF t, of "int i"] L Cons.prems(1) by simp
  show ?case
  proof (cases "slot s i")
    case None
    with Cons p show ?thesis by simp
  next
    case (Some mb)
    show ?thesis
    proof (cases "authorised mb uid gid")
      case False
      with Cons p Some show ?thesis by simp
    next
      case True
      let ?ml = "ml[2 * k := mb_id mb, 2 * k + 1 := owner_pid mb]"
      have k: "k < 10" using Cons.prems(3) Some True by simp
      have w: "wr ml (2 * int k) (mb_id mb) = Inr (ml[2 * k := mb_id mb])"
        "wr (ml[2 * k := mb_id mb]) (2 * int k + 1) (owner_pid mb) = Inr ?ml"
        using k Cons.prems(2) by (simp_all add: wr_def nat_add_distrib nat_mult_distrib)
      have step: "av_loop s uid gid (i # is) ml (int k) = av_loop s uid gid is ?ml (int (Suc k))"
        using p Some True w by (simp add: add.commute)
      have tk: "take (2 * Suc k) ?ml = take (2 * k) ml @ [mb_id mb, owner_pid mb]"
        using take_pair [of k ml] k Cons.prems(2) by simp
      obtain ml' where "av_loop s uid gid is ?ml (int (Suc k)) =
            Inr (ml', int (Suc k + length (visible s uid gid is)))" "length ml' = 20"
          "take (2 * (Suc k + length (visible s uid gid is))) ml' =
            take (2 * Suc k) ?ml @ id_pairs (visible s uid gid is)"
        using Cons.IH [of ?ml "Suc k"] Cons.prems Some True by auto
      then show ?thesis unfolding step tk using Some True by (intro exI [of _ ml']) (simp add: id_pairs_def)
    qed
  qed
qed

text \<open>The pairs and the terminator reach the caller while at most nine mailboxes are visible.\<close>

lemma av_mailboxes_effect:
  fixes m_in :: message
  assumes ok: "vfs_ok s" and L: "mbList s \<noteq> None"
  defines "vs \<equiv> visible s (m7_i2 m_in) (m7_i3 m_in) [0..<MAX_MAILBOXES]"
  shows "do_get_av_mailboxes m_in s =
    (if length vs < MAX_MAILBOXES
     then Inr (0, emit [CopyOut (m_source m_in) (m7_p1 m_in) (Ints (id_pairs vs @ [-1, -1]))] s)
     else Inl OutOfBounds)"
proof -
  have le: "length vs \<le> 10" using visible_length [of s _ _ "[0..<10]"] by (simp add: vs_def)
  have "set [0..<MAX_MAILBOXES] \<subseteq> {..<MAX_MAILBOXES}" by auto
  from av_loop_spec [OF vfs_ok_tables [OF ok] L this, of "replicate (MAX_MAILBOXES * 2) (-1)" 0]
  obtain ml where ml: "av_loop s (m7_i2 m_in) (m7_i3 m_in) [0..<MAX_MAILBOXES]
        (replicate (MAX_MAILBOXES * 2) (-1)) 0 = Inr (ml, int (length vs))"
    "length ml = 20" "take (2 * length vs) ml = id_pairs vs"
    using le unfolding vs_def by (auto simp del: upt_rec_numeral)
  show ?thesis
  proof (cases "length vs < 10")
    case True
    let ?n = "length vs"
    have w: "wr ml (2 * int ?n) (-1) = Inr (ml[2 * ?n := -1])"
      "wr (ml[2 * ?n := -1]) (2 * int ?n + 1) (-1) = Inr (ml[2 * ?n := -1, 2 * ?n + 1 := -1])"
      using True ml(2) by (simp_all add: wr_def nat_add_distrib nat_mult_distrib)
    have "nat (2 * (int ?n + 1)) = 2 * ?n + 2" by simp
    with take_pair [of ?n ml "-1" "-1"] True ml
    have "take (nat (2 * (int ?n + 1))) (ml[2 * ?n := -1, 2 * ?n + 1 := -1]) = id_pairs vs @ [-1, -1]" by simp
    with True show ?thesis unfolding do_get_av_mailboxes_def ml(1) by (simp add: w)
  next
    case False
    with le ml(2) have "wr ml (2 * int (length vs)) (-1) = Inl OutOfBounds" by (simp add: wr_def)
    with False show ?thesis unfolding do_get_av_mailboxes_def ml(1) by simp
  qed
qed

section \<open>Blocking in a full mailbox\<close>

lemma get_sender_local_id_owner:
  assumes "vfs_ok s" and "populated s" and "owner_slot s pid = Some k"
  shows "get_sender_local_id s pid = Inr (int k)"
  using get_mb_id_populated [OF assms(1,2), of pid] assms(3) by (simp add: get_sender_local_id_def)

lemma get_sender_local_id_unknown:
  assumes "vfs_ok s" and "populated s" and "owner_slot s pid = None" and "pid \<notin> set (senderDB s)"
  shows "get_sender_local_id s pid = Inr (-1)"
proof -
  have len: "length (senderDB s) = MAX_SENDERS * MAX_MAILBOXES"
    using vfs_ok_tables [OF assms(1)] by (simp add: tables_ok_def)
  define f where "f = find (\<lambda>i. senderDB s ! i = pid) [0..<MAX_SENDERS * MAX_MAILBOXES]"
  have "f = None" unfolding f_def find_upt_None using assms(4) len nth_mem by metis
  moreover have "get_sender_local_id s pid = (case f of Some i \<Rightarrow> Inr (int i) | None \<Rightarrow> Inr (-1))"
    using get_mb_id_populated [OF assms(1,2), of pid] assms(3)
    unfolding get_sender_local_id_def f_def by (simp del: upt_rec_numeral)
  ultimately show ?thesis by simp
qed

text \<open>A deposit to one full mailbox, up to the point where the sender is suspended.\<close>

lemma do_deposit_full:
  fixes m_in :: message
  assumes ok: "vfs_ok s" and p: "populated s" and d: "0 < d" and o: "owner_slot s d = Some i"
    and sl: "slot s i = Some m" and reg: "m7_i1 m_in \<in> set (registered m)"
    and full: "length (items_at s i) = 10" and idx: "sus_sender_idx m < int MAX_SENDERS" and e: "e \<le> 0"
  obtains s1 where "vfs_ok s1" "populated s1" "owner_slot s1 = owner_slot s" "items_at s1 = items_at s"
    "effs s1 = effs s" "susContext s1 = susContext s" "senderDB s1 = senderDB s"
    "slot s1 = (slot s)(i \<mapsto> m\<lparr>suspended_sender := (suspended_sender m)[nat (sus_sender_idx m) := m7_i1 m_in],
                              sus_sender_idx := sus_sender_idx m + 1\<rparr>)"
    "do_deposit fpe junk who (d # e # rest) bytes m_in s =
       bnd (get_sender_local_id s1 (m7_i1 m_in)) (\<lambda>k.
       bnd (ctx_ptr s1 k) (\<lambda>_.
       bnd (set_ctx s1 k \<lparr>ctx_msg = \<lparr>data = bytes, sender_id = m7_i1 m_in\<rparr>, suspened_for = [int i],
                         len_sus_for = 1, ctx_end_p = who, ctx_m_source = m_source m_in,
                         ctx_p1 = m7_p1 m_in, ctx_p2 = m7_p2 m_in\<rparr>) (\<lambda>s2.
       bnd (check_dead_lock s2 k) (\<lambda>dead_lock.
         if dead_lock = 1 then
           bnd (indicate_deadlock fpe junk k s2) (\<lambda>(_, s3).
             Inr (Ret 0, emit [CopyOut (m_source m_in) (m7_p2 m_in) (Ints [-2, -2])] s3))
         else Inr (SUSPEND, s2)))))"
proof -
  let ?msg = "\<lparr>data = bytes, sender_id = m7_i1 m_in\<rparr>"
  show thesis
  proof (rule deposit_full [OF ok p d o sl reg full idx, where fpe = fpe and sus = "[]" and msg = ?msg])
    fix s1
    let ?m = "m\<lparr>suspended_sender := (suspended_sender m)[nat (sus_sender_idx m) := m7_i1 m_in],
                sus_sender_idx := sus_sender_idx m + 1\<rparr>"
    assume step: "\<And>ds. deposit_loop fpe (m7_i1 m_in) ?msg (d # ds) [] s =
        deposit_loop fpe (m7_i1 m_in) ?msg ds ([] @ [int i]) s1"
      and s1: "vfs_ok s1" "items_at s1 = items_at s" "effs s1 = effs s" "susContext s1 = susContext s"
        "senderDB s1 = senderDB s" and sl1: "slot s1 = (slot s)(i \<mapsto> ?m)"
    have "deposit_loop fpe (m7_i1 m_in) ?msg (e # rest) [int i] s1 = Inr (None, [int i], s1)"
      using e by simp
    then have "deposit_loop fpe (m7_i1 m_in) ?msg (d # e # rest) [] s = Inr (None, [int i], s1)"
      using step [of "e # rest"] by (simp only: append_Nil)
    then have c: "do_deposit fpe junk who (d # e # rest) bytes m_in s =
       bnd (get_sender_local_id s1 (m7_i1 m_in)) (\<lambda>k.
       bnd (ctx_ptr s1 k) (\<lambda>_.
       bnd (set_ctx s1 k \<lparr>ctx_msg = ?msg, suspened_for = [int i],
                         len_sus_for = 1, ctx_end_p = who, ctx_m_source = m_source m_in,
                         ctx_p1 = m7_p1 m_in, ctx_p2 = m7_p2 m_in\<rparr>) (\<lambda>s2.
       bnd (check_dead_lock s2 k) (\<lambda>dead_lock.
         if dead_lock = 1 then
           bnd (indicate_deadlock fpe junk k s2) (\<lambda>(_, s3).
             Inr (Ret 0, emit [CopyOut (m_source m_in) (m7_p2 m_in) (Ints [-2, -2])] s3))
         else Inr (SUSPEND, s2)))))"
      by (simp add: do_deposit_def Let_def del: deposit_loop.simps)
    show thesis
      by (rule that [OF s1(1) populated_update [OF sl1 p] owner_slot_update [OF sl1 sl] s1(2-5) sl1 c]) simp
  qed simp
qed

end
