(* ===== verification/MbCycle.thy ===== *)
theory MbCycle
  imports MbPreserve
begin

text \<open>
  What the deadlock routines compute (prj_2/src/mailbox.c): check_dead_lock decides whether
  the caller lies on a cycle of the waits-for relation, when it returns; indicate_deadlock
  always returns, breaks a cycle of two, and runs off the table on a cycle of three.
\<close>

section \<open>The waits-for relation\<close>

text \<open>x waits first for the mailbox y: the context of x is in use and names y.\<close>

definition waits_on :: "vfs \<Rightarrow> int \<Rightarrow> int option" where
  "waits_on s x =
     (case ctx_ptr s x of
        Inr (Some c) \<Rightarrow> (case suspened_for c of [] \<Rightarrow> None | f # _ \<Rightarrow> if f = -1 then None else Some f)
      | _ \<Rightarrow> None)"

definition waits :: "vfs \<Rightarrow> (int \<times> int) set" where
  "waits s = {(x, y). waits_on s x = Some y}"

lemma ctx_ptr_range:
  assumes "vfs_ok s" and "susContext s \<noteq> None" and "0 \<le> x" and "x < 100"
  obtains p where "ctx_ptr s x = Inr p" "\<And>c. p = Some c \<Longrightarrow> ctx_ok c"
proof -
  obtain C where C: "susContext s = Some C" using assms(2) by blast
  then have "length C = 100"
    using vfs_ok_tables [OF assms(1)] by (auto simp: tables_ok_def split: option.splits)
  then have p: "ctx_ptr s x = Inr (C ! nat x)" using C assms(3,4) by (simp add: ctx_ptr_def)
  show thesis
    by (rule that [OF p]) (use p in \<open>auto intro: ctx_ptr_ok [OF assms(1)]\<close>)
qed

text \<open>Two equations the reasoning about check_dead_lock rests on.\<close>

lemma check_step:
  assumes ok: "vfs_ok s" and C: "susContext s \<noteq> None" and x: "0 \<le> x" "x < 100" and l: "0 \<le> l"
  shows "check_dead_lock_loop (Suc n) s l x =
     (case waits_on s x of None \<Rightarrow> Inr 0
      | Some f \<Rightarrow> if f = l then Inr 1 else check_dead_lock_loop n s l f)"
proof -
  obtain p where p: "ctx_ptr s x = Inr p" "\<And>c. p = Some c \<Longrightarrow> ctx_ok c"
    using ctx_ptr_range [OF ok C x] by blast
  show ?thesis
  proof (cases p)
    case None
    with p show ?thesis by (simp add: waits_on_def)
  next
    case (Some c)
    then obtain f fs where f: "suspened_for c = f # fs" using p(2) by (cases "suspened_for c") (auto simp: ctx_ok_def)
    with p Some l show ?thesis by (simp add: waits_on_def)
  qed
qed

lemma waits_range:
  assumes ok: "vfs_ok s" and w: "(x, y) \<in> waits s"
  shows "0 \<le> y \<and> y < 10"
proof -
  from w obtain c fs where c: "ctx_ptr s x = Inr (Some c)" "suspened_for c = y # fs" "y \<noteq> -1"
    by (auto simp: waits_def waits_on_def split: sum.splits option.splits list.splits if_splits)
  with ctx_ptr_ok [OF ok c(1)] show ?thesis by (simp add: ctx_ok_def)
qed

section \<open>check_dead_lock\<close>

text \<open>The steps that do not end the loop, and the loop as a path of them.\<close>

definition onward :: "vfs \<Rightarrow> int \<Rightarrow> (int \<times> int) set" where
  "onward s l = {(x, y). (x, y) \<in> waits s \<and> y \<noteq> l}"

lemma check_cases:
  assumes ok: "vfs_ok s" and C: "susContext s \<noteq> None" and x: "0 \<le> x" "x < 100" and l: "0 \<le> l"
  shows "check_dead_lock_loop n s l x = Inl Diverges \<longleftrightarrow> (\<exists>y. (x, y) \<in> onward s l ^^ n)"
    and "check_dead_lock_loop n s l x \<in> {Inl Diverges, Inr 0, Inr 1}"
proof -
  have "(check_dead_lock_loop n s l x = Inl Diverges \<longleftrightarrow> (\<exists>y. (x, y) \<in> onward s l ^^ n)) \<and>
    check_dead_lock_loop n s l x \<in> {Inl Diverges, Inr 0, Inr 1}"
    using x
  proof (induction n arbitrary: x)
    case 0
    then show ?case by auto
  next
    case (Suc n)
    note st = check_step [OF ok C Suc.prems l, of n]
    show ?case
    proof (cases "waits_on s x")
      case None
      then have "(x, y) \<notin> onward s l ^^ Suc n" for y
        by (auto simp: onward_def waits_def dest: relpow_Suc_D2 simp del: relpow.simps)
      with st None show ?thesis by simp
    next
      case (Some f)
      have w: "(x, f) \<in> waits s" using Some by (simp add: waits_def)
      have f: "0 \<le> f" "f < 100" using waits_range [OF ok w] by auto
      have det: "(x, y) \<in> onward s l \<longleftrightarrow> y = f \<and> f \<noteq> l" for y
        using Some by (auto simp: onward_def waits_def)
      have "(x, y) \<in> onward s l ^^ Suc n \<longleftrightarrow> f \<noteq> l \<and> (f, y) \<in> onward s l ^^ n" for y
        using det by (auto intro: relpow_Suc_I2 dest!: relpow_Suc_D2 simp del: relpow.simps)
      then show ?thesis unfolding st Some using Suc.IH [OF f] by (auto simp del: relpow.simps)
    qed
  qed
  then show "check_dead_lock_loop n s l x = Inl Diverges \<longleftrightarrow> (\<exists>y. (x, y) \<in> onward s l ^^ n)"
    "check_dead_lock_loop n s l x \<in> {Inl Diverges, Inr 0, Inr 1}" by blast+
qed

lemma relpow_prefix: "(x, y) \<in> (R :: ('a \<times> 'a) set) ^^ (m + n) \<Longrightarrow> \<exists>z. (x, z) \<in> R ^^ m"
  by (auto simp: relpow_add)

lemma relpow_cycle: "(y, y) \<in> R ^^ k \<Longrightarrow> (y, y) \<in> R ^^ (k * m)"
  by (induction m) (auto simp: relpow_add intro: relcompI)

text \<open>Eleven steps without an end already go round a cycle, so the loop never ends.\<close>

lemma onward_cycle:
  assumes ok: "vfs_ok s" and path: "(x, y) \<in> onward s l ^^ 11"
  shows "\<exists>z i k. (x, z) \<in> onward s l ^^ i \<and> (z, z) \<in> onward s l ^^ Suc k"
proof -
  from path obtain f where f: "f 0 = x" "\<And>i. i < 11 \<Longrightarrow> (f i, f (Suc i)) \<in> onward s l"
    unfolding relpow_fun_conv by auto
  have "f ` {1..11} \<subseteq> {0..<10}"
  proof
    fix z assume "z \<in> f ` {1..11}"
    then obtain i where "z = f (Suc i)" "i < 11"
      by (auto simp: image_iff) (metis Suc_le_eq Suc_pred' zero_less_one less_le_trans)
    with f(2) waits_range [OF ok] show "z \<in> {0..<10}" by (auto simp: onward_def)
  qed
  then have "card (f ` {1..11}) \<le> card {0..<10::int}" by (rule card_mono [rotated]) simp
  then have "\<not> inj_on f {1..11}" by (auto simp: inj_on_iff_eq_card)
  then obtain i j where ij: "i < j" "j \<le> 11" "f i = f j"
    unfolding inj_on_def by (metis atLeastAtMost_iff linorder_neqE_nat)
  have seg: "(f a, f (a + n)) \<in> onward s l ^^ n" if "a + n \<le> 11" for a n
    using that
  proof (induction n)
    case (Suc n)
    then have "(f a, f (a + n)) \<in> onward s l ^^ n" "(f (a + n), f (Suc (a + n))) \<in> onward s l"
      using f(2) by simp_all
    then show ?case using relpow_Suc_I by fastforce
  qed simp
  have "(x, f i) \<in> onward s l ^^ i" using seg [of 0 i] ij f(1) by simp
  moreover have "Suc (j - i - 1) = j - i" using ij by simp
  then have "(f i, f i) \<in> onward s l ^^ Suc (j - i - 1)"
    using seg [of i "j - i"] ij by (simp del: relpow.simps)
  ultimately show ?thesis by blast
qed

lemma check_stuck:
  assumes ok: "vfs_ok s" and C: "susContext s \<noteq> None" and x: "0 \<le> x" "x < 100" and l: "0 \<le> l"
    and d: "check_dead_lock_loop m s l x = Inl Diverges" and m: "11 \<le> m"
  shows "check_dead_lock_loop n s l x = Inl Diverges"
proof -
  note cc = check_cases(1) [OF ok C x l]
  from d obtain y where "(x, y) \<in> onward s l ^^ m" unfolding cc by blast
  then have "(x, y) \<in> onward s l ^^ (11 + (m - 11))" using m by simp
  then obtain y' where "(x, y') \<in> onward s l ^^ 11" by (blast dest: relpow_prefix)
  from onward_cycle [OF ok this] obtain z i k where
    z: "(x, z) \<in> onward s l ^^ i" "(z, z) \<in> onward s l ^^ Suc k" by blast
  have "(x, z) \<in> onward s l ^^ (i + Suc k * n)"
    using z(1) relpow_cycle [OF z(2), of n] unfolding relpow_add by blast
  also have "i + Suc k * n = n + (i + k * n)" by simp
  finally show ?thesis unfolding cc by (rule relpow_prefix)
qed

lemma check_more:
  assumes ok: "vfs_ok s" and C: "susContext s \<noteq> None" and x: "0 \<le> x" "x < 100" and l: "0 \<le> l"
    and r: "check_dead_lock_loop n s l x = Inr r" and m: "n \<le> m"
  shows "check_dead_lock_loop m s l x = Inr r"
  using r m x
proof (induction n arbitrary: x m)
  case (Suc n)
  then obtain m' where m': "m = Suc m'" "n \<le> m'" by (cases m) auto
  note st = check_step [OF ok C Suc.prems(3,4) l]
  show ?case
  proof (cases "waits_on s x")
    case None
    with Suc.prems(1) m' show ?thesis unfolding m'(1) st by simp
  next
    case (Some f)
    then have "0 \<le> f" "f < 100" using waits_range [OF ok, of x f] by (auto simp: waits_def)
    with Suc.IH [of f m'] Suc.prems(1) m' Some show ?thesis unfolding m'(1) st by (auto split: if_splits)
  qed
qed simp

text \<open>More fuel changes nothing: 101 tells a result from an endless loop.\<close>

lemma check_fuel_enough:
  assumes ok: "vfs_ok s" and C: "susContext s \<noteq> None" and l: "0 \<le> l" "l < 100" and n: "check_fuel \<le> n"
  shows "check_dead_lock_loop n s l l = check_dead_lock s l"
proof (cases "check_dead_lock s l")
  case (Inr r)
  with check_more [OF ok C l l(1) _ n] show ?thesis unfolding check_dead_lock_def by simp
next
  case (Inl e)
  then have "e = Diverges" using check_cases(2) [OF ok C l l(1), of check_fuel] unfolding check_dead_lock_def by auto
  with Inl check_stuck [OF ok C l l(1), of check_fuel n] show ?thesis
    unfolding check_dead_lock_def by (simp add: check_fuel_def)
qed

lemma check_finds:
  assumes ok: "vfs_ok s" and C: "susContext s \<noteq> None" and l: "0 \<le> l"
    and w: "(x, l) \<in> waits s ^^ Suc k" and x: "0 \<le> x" "x < 100"
  shows "\<exists>n. check_dead_lock_loop n s l x = Inr 1"
  using w x
proof (induction k arbitrary: x)
  case 0
  then have "waits_on s x = Some l" by (simp add: waits_def)
  then have "check_dead_lock_loop (Suc 0) s l x = Inr 1"
    unfolding check_step [OF ok C 0(2,3) l] by simp
  then show ?case by blast
next
  case (Suc k)
  from Suc.prems(1) obtain f where f: "(x, f) \<in> waits s" "(f, l) \<in> waits s ^^ Suc k"
    by (rule relpow_Suc_E2)
  then have r: "0 \<le> f" "f < 100" using waits_range [OF ok f(1)] by auto
  from Suc.IH [OF f(2) r] obtain n where "check_dead_lock_loop n s l f = Inr 1" by blast
  then have "check_dead_lock_loop (Suc n) s l x = Inr 1"
    using f(1) unfolding check_step [OF ok C Suc.prems(2,3) l] by (simp add: waits_def)
  then show ?case by blast
qed

lemma check_found:
  assumes ok: "vfs_ok s" and C: "susContext s \<noteq> None" and l: "0 \<le> l"
    and r: "check_dead_lock_loop n s l x = Inr 1" and x: "0 \<le> x" "x < 100"
  shows "(x, l) \<in> (waits s)\<^sup>+"
  using r x
proof (induction n arbitrary: x)
  case (Suc n)
  show ?case
  proof (cases "waits_on s x")
    case None
    with Suc.prems show ?thesis unfolding check_step [OF ok C Suc.prems(2,3) l] by simp
  next
    case (Some f)
    then have w: "(x, f) \<in> waits s" by (simp add: waits_def)
    then have f: "0 \<le> f" "f < 100" using waits_range [OF ok w] by auto
    show ?thesis
    proof (cases "f = l")
      case True
      with w show ?thesis by blast
    next
      case False
      with Suc.prems(1) Some have "check_dead_lock_loop n s l f = Inr 1"
        unfolding check_step [OF ok C Suc.prems(2,3) l] by simp
      from Suc.IH [OF this f] w show ?thesis by (rule trancl_into_trancl2 [rotated])
    qed
  qed
qed simp

lemma check_iff:
  assumes ok: "vfs_ok s" and C: "susContext s \<noteq> None" and l: "0 \<le> l" "l < 100"
  shows "check_dead_lock s l = Inr 1 \<longleftrightarrow> (l, l) \<in> (waits s)\<^sup>+"
proof
  assume "check_dead_lock s l = Inr 1"
  then show "(l, l) \<in> (waits s)\<^sup>+"
    unfolding check_dead_lock_def by (rule check_found [OF ok C l(1) _ l])
next
  assume "(l, l) \<in> (waits s)\<^sup>+"
  then obtain k where "(l, l) \<in> waits s ^^ Suc k"
    unfolding trancl_power by (metis Suc_pred')
  from check_finds [OF ok C l(1) this l] obtain n where n: "check_dead_lock_loop n s l l = Inr 1" by blast
  have "check_dead_lock_loop (max n check_fuel) s l l = Inr 1"
    by (rule check_more [OF ok C l l(1) n]) simp
  then show "check_dead_lock s l = Inr 1"
    using check_fuel_enough [OF ok C l, of "max n check_fuel"] by simp
qed

text \<open>The loop is endless exactly when the chain runs into a cycle that misses the caller.\<close>

lemma check_diverges_iff:
  assumes ok: "vfs_ok s" and C: "susContext s \<noteq> None" and l: "0 \<le> l" "l < 100"
  shows "check_dead_lock s l = Inl Diverges \<longleftrightarrow>
    (\<exists>z i k. (l, z) \<in> onward s l ^^ i \<and> (z, z) \<in> onward s l ^^ Suc k)"
proof -
  note cc = check_cases(1) [OF ok C l l(1)]
  have "(\<exists>y. (l, y) \<in> onward s l ^^ check_fuel) \<longleftrightarrow>
      (\<exists>z i k. (l, z) \<in> onward s l ^^ i \<and> (z, z) \<in> onward s l ^^ Suc k)"
  proof
    assume "\<exists>y. (l, y) \<in> onward s l ^^ check_fuel"
    then obtain y where "(l, y) \<in> onward s l ^^ (11 + 90)" by (auto simp: check_fuel_def)
    then obtain y' where "(l, y') \<in> onward s l ^^ 11" by (blast dest: relpow_prefix)
    then show "\<exists>z i k. (l, z) \<in> onward s l ^^ i \<and> (z, z) \<in> onward s l ^^ Suc k"
      by (rule onward_cycle [OF ok])
  next
    assume "\<exists>z i k. (l, z) \<in> onward s l ^^ i \<and> (z, z) \<in> onward s l ^^ Suc k"
    then obtain z i k where z: "(l, z) \<in> onward s l ^^ i" "(z, z) \<in> onward s l ^^ Suc k" by blast
    have "(l, z) \<in> onward s l ^^ (i + Suc k * check_fuel)"
      using z(1) relpow_cycle [OF z(2), of check_fuel] unfolding relpow_add by blast
    also have "i + Suc k * check_fuel = check_fuel + (i + k * check_fuel)" by simp
    finally show "\<exists>y. (l, y) \<in> onward s l ^^ check_fuel" by (rule relpow_prefix)
  qed
  then show ?thesis unfolding check_dead_lock_def cc .
qed

section \<open>indicate_deadlock\<close>

text \<open>The contexts whose first entry still names a mailbox: each revival uses one up.\<close>

definition holds :: "SuspendContext option \<Rightarrow> bool" where
  "holds p = (case p of None \<Rightarrow> False
     | Some c \<Rightarrow> (case suspened_for c of [] \<Rightarrow> False | f # _ \<Rightarrow> f \<noteq> -1))"

definition held :: "vfs \<Rightarrow> nat" where
  "held s = (case susContext s of None \<Rightarrow> 0 | Some C \<Rightarrow> length (filter holds C))"

lemma filter_update_drop:
  "i < length xs \<Longrightarrow> P (xs ! i) \<Longrightarrow> \<not> P y \<Longrightarrow> Suc (length (filter P (xs[i := y]))) = length (filter P xs)"
proof (induction xs arbitrary: i)
  case (Cons x xs)
  then show ?case by (cases i) auto
qed simp

lemma held_emit [simp]: "held (emit es s) = held s"
  and ctx_ptr_emit [simp]: "ctx_ptr (emit es s) x = ctx_ptr s x"
  by (simp_all add: held_def ctx_ptr_def emit_def)

lemma set_ctx_held:
  assumes p: "ctx_ptr s x = Inr (Some c)" and f: "rd (suspened_for c) 0 = Inr f" "f \<noteq> -1"
    and u: "set_ctx s x (c\<lparr>suspened_for := (suspened_for c)[0 := -1]\<rparr>) = Inr s1"
  shows "Suc (held s1) = held s"
proof -
  from p obtain C where C: "susContext s = Some C" "0 \<le> x" "nat x < length C" "C ! nat x = Some c"
    by (auto simp: ctx_ptr_def bnd_eq_Inr rd_eq_Inr nat_less_iff)
  from u C have s1: "s1 = s\<lparr>susContext := Some (C[nat x := Some (c\<lparr>suspened_for := (suspened_for c)[0 := -1]\<rparr>)])\<rparr>"
    by (auto simp: set_ctx_def bnd_eq_Inr wr_eq_Inr)
  obtain fs where fs: "suspened_for c = f # fs" using f(1) by (cases "suspened_for c") (auto simp: rd_eq_Inr)
  have h: "holds (C ! nat x)" using C(4) fs f(2) by (simp add: holds_def)
  have nh: "\<not> holds (Some (c\<lparr>suspened_for := (suspened_for c)[0 := -1]\<rparr>))" using fs by (simp add: holds_def)
  show ?thesis using filter_update_drop [of "nat x" C holds, OF C(3) h nh] C(1) by (simp add: held_def s1)
qed

lemma ctx_ptr_not_Diverges: "ctx_ptr s x \<noteq> Inl Diverges"
  by (cases "susContext s") (simp_all add: ctx_ptr_def rd_def)

lemma set_ctx_not_Diverges: "set_ctx s x c \<noteq> Inl Diverges"
  by (cases "susContext s") (simp_all add: set_ctx_def wr_def)

lemma rd_not_Diverges: "rd xs i \<noteq> Inl Diverges"
  by (simp add: rd_def)

lemma deref_not_Diverges: "deref p \<noteq> Inl Diverges"
  by (cases p) simp_all

lemmas not_Diverges = ctx_ptr_not_Diverges set_ctx_not_Diverges rd_not_Diverges deref_not_Diverges

text \<open>At the index -1 the table access faults, so a freed context ends the walk.\<close>

lemma ctx_ptr_neg: "susContext s \<noteq> None \<Longrightarrow> x < 0 \<Longrightarrow> ctx_ptr s x = Inl OutOfBounds"
  by (auto simp: ctx_ptr_def)

lemma set_ctx_susContext: "set_ctx s x c = Inr s1 \<Longrightarrow> susContext s1 \<noteq> None"
  by (auto simp: set_ctx_def bnd_eq_Inr)

lemma indicate_terminates:
  "2 * held s + (if cursor = l then 1 else 0) < n \<Longrightarrow> indicate_loop n fpe junk l cursor s \<noteq> Inl Diverges"
proof (induction n fpe junk l cursor s rule: indicate_loop.induct)
  case (1 fpe junk l cursor s)
  then show ?case by simp
next
  case (2 n fpe junk l cursor s)
  show ?case
  proof
    assume div: "indicate_loop (Suc n) fpe junk l cursor s = Inl Diverges"
    then obtain c where c: "ctx_ptr s cursor = Inr (Some c)"
      by (auto simp: bnd_eq_Inl not_Diverges split: option.splits)
    with div obtain f where f: "rd (suspened_for c) 0 = Inr f"
      by (auto simp: bnd_eq_Inl not_Diverges)
    have nf: "f \<noteq> l" using div c f by (auto simp: bnd_eq_Inl not_Diverges)
    show False
    proof (cases "cursor = l")
      case True
      then have "indicate_loop n fpe junk l f s = Inl Diverges" using div c f nf by simp
      moreover have "2 * held s + (if f = l then 1 else 0) < n" using "2.prems" True nf by simp
      ultimately show False using "2.IH"(2) c f nf True by blast
    next
      case False
      let ?s = "emit [CopyOut (ctx_m_source c) (ctx_p2 c) (Ints [-2, -2, -2, junk]),
                      Reply (fpe (ctx_end_p c)) 0] s"
      from div c f nf False obtain s1 c' f' where
        s1: "set_ctx ?s cursor (c\<lparr>suspened_for := (suspened_for c)[0 := -1]\<rparr>) = Inr s1"
        and c': "bnd (ctx_ptr s1 f) deref = Inr c'" "rd (suspened_for c') 0 = Inr f'"
        and rest: "indicate_loop n fpe junk l f' s1 = Inl Diverges"
        by (auto simp: bnd_eq_Inl not_Diverges)
      have "f \<noteq> -1"
      proof
        assume "f = -1"
        with ctx_ptr_neg [OF set_ctx_susContext [OF s1], of f] c'(1) show False by simp
      qed
      then have "Suc (held s1) = held s" using set_ctx_held [of ?s cursor c f s1] s1 c f by simp
      then have "2 * held s1 + (if f' = l then 1 else 0) < n" using "2.prems" False by simp
      with "2.IH"(1) c f nf False s1 c' rest show False by blast
    qed
  qed
qed

lemma held_le: "vfs_ok s \<Longrightarrow> held s \<le> 100"
proof -
  assume "vfs_ok s"
  then have "susContext s = Some C \<Longrightarrow> length C = 100" for C
    by (auto dest!: vfs_ok_tables simp: tables_ok_def split: option.splits)
  moreover have "length (filter holds C) \<le> length C" for C by simp
  ultimately show ?thesis by (auto simp: held_def split: option.splits) (metis length_filter_le)
qed

text \<open>A cycle of two: the other process is revived, and its wait is over.\<close>

lemma waits_ctx:
  assumes "waits_on s x = Some y"
  obtains c ys where "ctx_ptr s x = Inr (Some c)" "suspened_for c = y # ys" "y \<noteq> -1" "susContext s \<noteq> None"
proof -
  from assms obtain c ys where c: "ctx_ptr s x = Inr (Some c)" "suspened_for c = y # ys" "y \<noteq> -1"
    by (auto simp: waits_on_def split: sum.splits option.splits list.splits if_splits)
  moreover from c(1) have "susContext s \<noteq> None" by (auto simp: ctx_ptr_def bnd_eq_Inr)
  ultimately show thesis by (rule that)
qed

lemma set_ctx_at:
  assumes "ctx_ptr s x = Inr p"
  obtains s1 where "set_ctx s x c = Inr s1"
    "\<And>y. ctx_ptr s1 y = (if y = x then Inr (Some c) else ctx_ptr s y)" "effs s1 = effs s"
proof -
  from assms obtain C where C: "susContext s = Some C" "0 \<le> x" "x < int (length C)"
    by (auto simp: ctx_ptr_def bnd_eq_Inr rd_eq_Inr)
  show thesis
  proof (rule that)
    show "set_ctx s x c = Inr (s\<lparr>susContext := Some (C[nat x := Some c])\<rparr>)"
      using C by (simp add: set_ctx_def)
    show "ctx_ptr (s\<lparr>susContext := Some (C[nat x := Some c])\<rparr>) y =
        (if y = x then Inr (Some c) else ctx_ptr s y)" for y
      using C by (auto simp: ctx_ptr_def rd_def nth_list_update)
  qed simp
qed

lemma indicate_two:
  assumes la: "waits_on s l = Some a" and al: "waits_on s a = Some l" and ne: "a \<noteq> l"
    and ca: "ctx_ptr s a = Inr (Some c)"
  obtains s' where "indicate_deadlock fpe junk l s = Inr (1, s')" "waits_on s' a = None"
    "\<And>x. x \<noteq> a \<Longrightarrow> waits_on s' x = waits_on s x"
    "effs s' = effs s @ [CopyOut (ctx_m_source c) (ctx_p2 c) (Ints [-2, -2]), Reply (fpe (ctx_end_p c)) 0]"
proof -
  obtain cl ys where cl: "ctx_ptr s l = Inr (Some cl)" "suspened_for cl = a # ys" using la by (rule waits_ctx)
  obtain zs where c: "suspened_for c = l # zs" using waits_ctx [OF al] ca by auto
  obtain s1 where s1: "set_ctx s a (c\<lparr>suspened_for := -1 # zs\<rparr>) = Inr s1"
    "\<And>y. ctx_ptr s1 y = (if y = a then Inr (Some (c\<lparr>suspened_for := -1 # zs\<rparr>)) else ctx_ptr s y)"
    "effs s1 = effs s"
    using ca by (rule set_ctx_at) blast
  let ?s = "emit [CopyOut (ctx_m_source c) (ctx_p2 c) (Ints [-2, -2]), Reply (fpe (ctx_end_p c)) 0] s1"
  have "indicate_loop (Suc (Suc n)) fpe junk l l s = Inr (1, ?s)" for n
    using cl ca c ne s1(1) by simp
  from this [of 200] have "indicate_deadlock fpe junk l s = Inr (1, ?s)"
    by (simp add: indicate_deadlock_def indicate_fuel_def del: indicate_loop.simps)
  moreover have "waits_on ?s a = None" by (simp add: waits_on_def s1(2))
  moreover have "waits_on ?s x = waits_on s x" if "x \<noteq> a" for x using that by (simp add: waits_on_def s1(2))
  moreover have "effs ?s = effs s @ [CopyOut (ctx_m_source c) (ctx_p2 c) (Ints [-2, -2]), Reply (fpe (ctx_end_p c)) 0]"
    using s1(3) by (simp add: emit_def)
  ultimately show thesis by (rule that)
qed

text \<open>A cycle of three: one process is revived, the walk returns to it and leaves the table.\<close>

lemma indicate_three:
  assumes la: "waits_on s l = Some a" and ab: "waits_on s a = Some b" and bl: "waits_on s b = Some l"
    and ne: "a \<noteq> l" "b \<noteq> l" "a \<noteq> b"
  shows "indicate_deadlock fpe junk l s = Inl OutOfBounds"
proof -
  obtain cl ys where cl: "ctx_ptr s l = Inr (Some cl)" "suspened_for cl = a # ys" using la by (rule waits_ctx)
  obtain ca zs where ca: "ctx_ptr s a = Inr (Some ca)" "suspened_for ca = b # zs" using ab by (rule waits_ctx)
  obtain cb us where cb: "ctx_ptr s b = Inr (Some cb)" "suspened_for cb = l # us" "l \<noteq> -1" using bl by (rule waits_ctx)
  let ?e = "emit [CopyOut (ctx_m_source ca) (ctx_p2 ca) (Ints [-2, -2, -2, junk]), Reply (fpe (ctx_end_p ca)) 0]"
  let ?c = "ca\<lparr>suspened_for := -1 # zs\<rparr>"
  have "ctx_ptr (?e s) a = Inr (Some ca)" using ca by simp
  then obtain s1 where s1: "set_ctx (?e s) a ?c = Inr s1"
    "\<And>y. ctx_ptr s1 y = (if y = a then Inr (Some ?c) else ctx_ptr (?e s) y)"
    by (rule set_ctx_at) blast
  have "ctx_ptr (?e s1) a = Inr (Some ?c)" using s1(2) by simp
  then obtain s2 where s2: "set_ctx (?e s1) a ?c = Inr s2"
    by (rule set_ctx_at) blast
  have neg: "ctx_ptr s2 (-1) = Inl OutOfBounds"
    using ctx_ptr_neg [OF set_ctx_susContext [OF s2]] by simp
  have "indicate_loop (Suc (Suc (Suc (Suc n)))) fpe junk l l s = Inl OutOfBounds" for n
    using cl ca cb ne s1 s2 neg by simp
  from this [of 198] show ?thesis
    by (simp add: indicate_deadlock_def indicate_fuel_def del: indicate_loop.simps)
qed

end
