(* ===== verification/MbChain.thy ===== *)
theory MbChain
  imports MbSpec MbCycle
begin

text \<open>
  The contexts of suspended senders without tables and pointers: who waits, for which mailbox
  first, and where its notice goes. The routines check_dead_lock and indicate_deadlock
  (prj_2/src/mailbox.c) are read off this view: how a chain of waits ends, and what becomes of a
  circle of one or two.
\<close>

section \<open>Chains of waits\<close>

text \<open>\<open>w_for\<close> is None once the process has been told of a deadlock.\<close>

record waiting =
  w_for :: "nat option"
  w_who :: int
  w_source :: int
  w_addr :: int

text \<open>The mailbox at the end of k waits from x.\<close>

fun after :: "(nat \<Rightarrow> waiting option) \<Rightarrow> nat \<Rightarrow> nat \<Rightarrow> nat option" where
  "after W 0 x = Some x"
| "after W (Suc k) x =
     (case W x of None \<Rightarrow> None
      | Some w \<Rightarrow> (case w_for w of None \<Rightarrow> None | Some y \<Rightarrow> after W k y))"

text \<open>Among ten mailboxes a chain of eleven waits has been round a circle.\<close>

definition deadlocked :: "(nat \<Rightarrow> waiting option) \<Rightarrow> nat \<Rightarrow> bool" where
  "deadlocked W me \<longleftrightarrow> list_ex (\<lambda>k. after W k me = Some me) [1..<12]"

text \<open>
  A sender that owns mailbox i begins to wait. When it closes a circle with the owner of the
  mailbox it waits for, or waits for itself, both are sent the notice (-2, -2) and answered.
  None: a longer circle, on which the server faults, and a chain into a circle that i is not on,
  which it follows for ever.
\<close>

definition block_sender ::
    "(int \<Rightarrow> int) \<Rightarrow> nat \<Rightarrow> waiting \<Rightarrow> (nat \<Rightarrow> waiting option)
      \<Rightarrow> (answer \<times> effect list \<times> (nat \<Rightarrow> waiting option)) option" where
  "block_sender fpe i w W0 =
     (let W = W0(i \<mapsto> w)
      in if deadlocked W i then
           (case w_for w of None \<Rightarrow> None
            | Some a \<Rightarrow> (case W a of None \<Rightarrow> None
                | Some v \<Rightarrow>
                    if w_for v = Some i then
                      Some (Ret 0, [CopyOut (w_source v) (w_addr v) (Ints [-2, -2]), Reply (fpe (w_who v)) 0,
                                    CopyOut (w_source w) (w_addr w) (Ints [-2, -2])],
                            W(a \<mapsto> v\<lparr>w_for := None\<rparr>))
                    else None))
         else if after W 11 i = None then Some (SUSPEND, [], W) else None)"

section \<open>The view of the contexts\<close>

definition waiting_of :: "SuspendContext \<Rightarrow> waiting" where
  "waiting_of c = \<lparr>w_for = (if hd (suspened_for c) = -1 then None else Some (nat (hd (suspened_for c)))),
     w_who = ctx_end_p c, w_source = ctx_m_source c, w_addr = ctx_p2 c\<rparr>"

definition waits_of :: "vfs \<Rightarrow> nat \<Rightarrow> waiting option" where
  "waits_of s x = (case ctx_ptr s (int x) of Inr (Some c) \<Rightarrow> Some (waiting_of c) | _ \<Rightarrow> None)"

lemma waits_of_cong: "susContext s' = susContext s \<Longrightarrow> waits_of s' = waits_of s"
  by (simp add: waits_of_def ctx_ptr_def fun_eq_iff)

lemma waits_of_emit [simp]: "waits_of (emit es s) = waits_of s"
  by (rule waits_of_cong) (simp add: emit_def)

lemma waits_on_view:
  assumes "vfs_ok s"
  shows "waits_on s (int x) = map_option int (Option.bind (waits_of s x) w_for)"
proof (cases "\<exists>c. ctx_ptr s (int x) = Inr (Some c)")
  case True
  then obtain c where c: "ctx_ptr s (int x) = Inr (Some c)" by blast
  from ctx_ptr_ok [OF assms c] obtain f fs where "suspened_for c = f # fs" "-1 \<le> f"
    by (cases "suspened_for c") (auto simp: ctx_ok_def)
  with c show ?thesis by (auto simp: waits_on_def waits_of_def waiting_of_def)
next
  case False
  then show ?thesis by (auto simp: waits_on_def waits_of_def split: sum.splits option.splits)
qed

lemma set_ctx_waits:
  assumes "set_ctx s (int i) c = Inr s1"
  shows "waits_of s1 = (waits_of s)(i \<mapsto> waiting_of c)"
proof -
  from assms obtain C where C: "susContext s = Some C" "i < length C" "s1 = s\<lparr>susContext := Some (C[i := Some c])\<rparr>"
    by (auto simp: set_ctx_def bnd_eq_Inr wr_eq_Inr)
  then show ?thesis
    by (auto simp: waits_of_def ctx_ptr_def rd_def nth_list_update fun_eq_iff)
qed

section \<open>check_dead_lock\<close>

lemma check_loop_after:
  assumes ok: "vfs_ok s" and C: "susContext s \<noteq> None"
  shows "x < 100 \<Longrightarrow> check_dead_lock_loop n s (int me) (int x) =
    (if \<exists>k\<in>{1..n}. after (waits_of s) k x = Some me then Inr 1
     else if after (waits_of s) n x = None then Inr 0 else Inl Diverges)"
proof (induction n arbitrary: x)
  case (Suc n)
  let ?W = "waits_of s"
  note st = check_step [OF ok C, of "int x" "int me" n]
  show ?case
  proof (cases "Option.bind (?W x) w_for")
    case None
    then have a: "after ?W (Suc k) x = None" for k by (cases "?W x") auto
    have "after ?W k x = None" if "k \<in> {1..Suc n}" for k using a [of "k - 1"] that by (simp del: after.simps)
    then have "\<not> (\<exists>k\<in>{1..Suc n}. after ?W k x = Some me)" by auto
    with a [of n] None st Suc.prems show ?thesis by (simp add: waits_on_view [OF ok])
  next
    case (Some y)
    then have a: "after ?W (Suc k) x = after ?W k y" for k by (cases "?W x") auto
    have w: "waits_on s (int x) = Some (int y)" using Some by (simp add: waits_on_view [OF ok])
    then have y: "y < 100" using waits_range [OF ok, of "int x" "int y"] by (simp add: waits_def)
    have "(\<exists>k\<in>{1..Suc n}. after ?W k x = Some me) \<longleftrightarrow> y = me \<or> (\<exists>k\<in>{1..n}. after ?W k y = Some me)"
    proof -
      have set: "{1..Suc n} = insert 1 (Suc ` {1..n})" by (auto simp: image_iff)
      have "after ?W 1 x = Some y" using a [of 0] by simp
      then show ?thesis unfolding set by (simp add: a del: after.simps image_Suc_atLeastAtMost)
    qed
    with Suc.IH [OF y] st Suc.prems w show ?thesis by (simp add: a del: after.simps)
  qed
qed simp

lemma check_dead_lock_after:
  assumes ok: "vfs_ok s" and C: "susContext s \<noteq> None" and me: "me < 100"
  shows "check_dead_lock s (int me) =
    (if deadlocked (waits_of s) me then Inr 1
     else if after (waits_of s) 11 me = None then Inr 0 else Inl Diverges)"
proof -
  have r: "0 \<le> int me" "int me < 100" using me by simp_all
  have d: "deadlocked (waits_of s) me \<longleftrightarrow> (\<exists>k\<in>{1..11}. after (waits_of s) k me = Some me)"
    by (auto simp: deadlocked_def list_ex_iff simp del: upt_rec_numeral)
  note e = check_loop_after [OF ok C me, of 11 me, folded d]
  show ?thesis
  proof (cases "check_dead_lock_loop 11 s (int me) (int me)")
    case (Inr b)
    from check_more [OF ok C r r(1) this, of check_fuel] have "check_dead_lock s (int me) = Inr b"
      by (simp add: check_dead_lock_def check_fuel_def del: check_dead_lock_loop.simps)
    with e Inr show ?thesis by (simp split: if_splits)
  next
    case (Inl f)
    with e have "f = Diverges" by (simp split: if_splits)
    with Inl check_stuck [OF ok C r r(1), of 11 check_fuel] have "check_dead_lock s (int me) = Inl Diverges"
      by (simp add: check_dead_lock_def del: check_dead_lock_loop.simps)
    with e Inl show ?thesis by (simp split: if_splits)
  qed
qed

section \<open>indicate_deadlock\<close>

text \<open>A circle of one or two: the one that waits for the caller is answered.\<close>

lemma indicate_victim:
  assumes cl: "ctx_ptr s l = Inr (Some cl)" "suspened_for cl = a # as"
    and ca: "ctx_ptr s a = Inr (Some c)" "suspened_for c = l # ls"
  obtains s1 where "set_ctx s a (c\<lparr>suspened_for := -1 # ls\<rparr>) = Inr s1"
    "indicate_deadlock fpe junk l s =
       Inr (1, emit [CopyOut (ctx_m_source c) (ctx_p2 c) (Ints [-2, -2]), Reply (fpe (ctx_end_p c)) 0] s1)"
proof -
  obtain s1 where s1: "set_ctx s a (c\<lparr>suspened_for := -1 # ls\<rparr>) = Inr s1" using ca(1) by (rule set_ctx_at)
  have "indicate_loop (Suc (Suc n)) fpe junk l l s =
      Inr (1, emit [CopyOut (ctx_m_source c) (ctx_p2 c) (Ints [-2, -2]), Reply (fpe (ctx_end_p c)) 0] s1)" for n
    using cl ca s1 by (cases "a = l") simp_all
  from this [of 200] show thesis
    by (intro that [OF s1]) (simp add: indicate_deadlock_def indicate_fuel_def del: indicate_loop.simps)
qed

section \<open>A deposit that blocks\<close>

lemma set_ctx_frame:
  assumes "set_ctx s k c = Inr s'"
  shows "slot s' = slot s" "items_at s' = items_at s"
proof -
  have L: "mbList s' = mbList s" "nodes s' = nodes s" "brk s' = brk s"
    using assms by (auto simp: set_ctx_def bnd_eq_Inr)
  show sl: "slot s' = slot s" by (rule slot_cong) (rule L(1))
  show "items_at s' = items_at s"
    using queue_cong(3) [OF L(2,3)] by (simp add: fun_eq_iff items_at_def sl cong: option.case_cong)
qed

lemma susContext_exists: "vfs_ok s \<Longrightarrow> populated s \<Longrightarrow> susContext s \<noteq> None"
  using vfs_ok_tables populated_mbList by (fastforce simp: tables_ok_def split: option.splits)

text \<open>The contexts and the effects after a deposit that met the full mailboxes sus.\<close>

lemma do_deposit_blocks:
  fixes m :: message
  assumes ok: "vfs_ok s1" and p: "populated s1" and o: "owner_slot s1 (m7_i1 m) = Some i"
    and sus: "sus \<noteq> []" "dest_range (map int sus)"
    and l: "deposit_loop fpe (m7_i1 m) \<lparr>data = bytes, sender_id = m7_i1 m\<rparr> dest [] s = Inr (None, map int sus, s1)"
    and b: "block_sender fpe i \<lparr>w_for = Some (hd sus), w_who = who, w_source = m_source m, w_addr = m7_p2 m\<rparr>
      (waits_of s1) = Some (a, es, W)"
  obtains s' where "do_deposit fpe junk who dest bytes m s = Inr (a, s')" "waits_of s' = W"
    "slot s' = slot s1" "items_at s' = items_at s1" "effs s' = effs s1 @ es"
proof -
  let ?c = "\<lparr>ctx_msg = \<lparr>data = bytes, sender_id = m7_i1 m\<rparr>, suspened_for = map int sus,
    len_sus_for = int (length sus), ctx_end_p = who, ctx_m_source = m_source m, ctx_p1 = m7_p1 m, ctx_p2 = m7_p2 m\<rparr>"
  have i: "i < 10" using owner_slotD [OF o] by blast
  have C: "susContext s1 \<noteq> None" using ok p by (rule susContext_exists)
  obtain q where q: "ctx_ptr s1 (int i) = Inr q" using ctx_ptr_range [OF ok C, of "int i"] i by auto
  obtain s2 where s2: "set_ctx s1 (int i) ?c = Inr s2" "effs s2 = effs s1"
    "\<And>y. ctx_ptr s2 y = (if y = int i then Inr (Some ?c) else ctx_ptr s1 y)"
    using set_ctx_at [OF q] by metis
  have c: "ctx_ok ?c" using sus by (auto simp: ctx_ok_def dest_range_def list_all_iff)
  have ok2: "vfs_ok s2" and C2: "susContext s2 \<noteq> None"
    using set_ctx_ok [OF ok c s2(1)] set_ctx_susContext [OF s2(1)] by simp_all
  obtain a0 as where a0: "sus = a0 # as" using sus(1) by (cases sus) auto
  let ?w = "\<lparr>w_for = Some (hd sus), w_who = who, w_source = m_source m, w_addr = m7_p2 m\<rparr>"
  let ?W = "(waits_of s1)(i \<mapsto> ?w)"
  have W: "waits_of s2 = ?W" using set_ctx_waits [OF s2(1)] by (simp add: waiting_of_def a0)
  have call: "do_deposit fpe junk who dest bytes m s = bnd (check_dead_lock s2 (int i)) (\<lambda>dead_lock.
      if dead_lock = 1 then
        bnd (indicate_deadlock fpe junk (int i) s2) (\<lambda>(_, s3).
          Inr (Ret 0, emit [CopyOut (m_source m) (m7_p2 m) (Ints [-2, -2])] s3))
      else Inr (SUSPEND, s2))"
    using get_sender_local_id_owner [OF ok p o] q s2(1)
    by (simp add: do_deposit_def Let_def l Suc_le_eq sus(1) del: deposit_loop.simps)
  note d = check_dead_lock_after [OF ok2 C2, of i, unfolded W]
  note fr = set_ctx_frame [OF s2(1)]
  show thesis
  proof (cases "deadlocked ?W i")
    case False
    with b have "after ?W 11 i = None" "a = SUSPEND" "es = []" "W = ?W"
      by (auto simp: block_sender_def Let_def split: if_splits)
    with False d i call fr s2(2) W show thesis by (intro that [of s2]) simp_all
  next
    case True
    with b obtain v where v: "?W a0 = Some v" "w_for v = Some i" "a = Ret 0" "W = ?W(a0 \<mapsto> v\<lparr>w_for := None\<rparr>)"
      "es = [CopyOut (w_source v) (w_addr v) (Ints [-2, -2]), Reply (fpe (w_who v)) 0,
             CopyOut (m_source m) (m7_p2 m) (Ints [-2, -2])]"
      by (auto simp: block_sender_def Let_def a0 split: option.splits if_splits)
    then obtain cv where cv: "ctx_ptr s2 (int a0) = Inr (Some cv)" "v = waiting_of cv"
      by (auto simp: W [symmetric] waits_of_def split: sum.splits option.splits)
    with ctx_ptr_ok [OF ok2 cv(1)] v(2) obtain ls where ls: "suspened_for cv = int i # ls"
      by (cases "suspened_for cv") (auto simp: ctx_ok_def waiting_of_def split: if_splits)
    have ci: "ctx_ptr s2 (int i) = Inr (Some ?c)" "suspened_for ?c = int a0 # map int as" using s2(3) a0 by simp_all
    obtain s3 where s3: "set_ctx s2 (int a0) (cv\<lparr>suspened_for := -1 # ls\<rparr>) = Inr s3"
      "indicate_deadlock fpe junk (int i) s2 =
         Inr (1, emit [CopyOut (ctx_m_source cv) (ctx_p2 cv) (Ints [-2, -2]), Reply (fpe (ctx_end_p cv)) 0] s3)"
      using indicate_victim [OF ci cv(1) ls] by blast
    have "waiting_of (cv\<lparr>suspened_for := -1 # ls\<rparr>) = v\<lparr>w_for := None\<rparr>" by (simp add: waiting_of_def cv(2))
    with set_ctx_waits [OF s3(1)] v(4) W have W3: "waits_of s3 = W" by simp
    have e3: "effs s3 = effs s2" using s3(1) by (auto simp: set_ctx_def bnd_eq_Inr)
    have f3: "slot s3 = slot s1" "items_at s3 = items_at s1" using set_ctx_frame [OF s3(1)] fr by simp_all
    have es: "es = [CopyOut (ctx_m_source cv) (ctx_p2 cv) (Ints [-2, -2]), Reply (fpe (ctx_end_p cv)) 0,
        CopyOut (m_source m) (m7_p2 m) (Ints [-2, -2])]" using v(5) by (simp add: cv(2) waiting_of_def)
    let ?s = "emit es s3"
    have "do_deposit fpe junk who dest bytes m s = Inr (Ret 0, ?s)"
      using True d i s3(2) by (simp add: call es emit_def)
    then show thesis
      by (rule that [of ?s, unfolded v(3)])
        (use W3 e3 f3 s2(2) in \<open>simp_all add: fun_eq_iff\<close>, simp add: emit_def)
  qed
qed

end
