(* ===== verification/MbDemo.thy ===== *)
theory MbDemo
  imports MbChain
begin

text \<open>
  One concrete server state on which the theorems about the mailbox calls are tried: ten
  live mailboxes owned by the processes 100 to 109, each with the senders 109 and 200
  registered; mailbox 8 is full, the owner of mailbox 2 waits for a message, and five
  contexts wait for each other in a cycle of two (0, 1) and a cycle of three (3, 4, 5).
\<close>

definition demo_msg :: "nat \<Rightarrow> Message_mb" where
  "demo_msg n = \<lparr>data = CHR ''m'' # replicate 255 NUL, sender_id = int n\<rparr>"

definition demo_message :: message where
  "demo_message = \<lparr>m_source = 0, m7_i1 = 0, m7_i2 = 0, m7_i3 = 0, m7_i4 = 0, m7_p1 = 0, m7_p2 = 0\<rparr>"

definition demo_mb :: "nat \<Rightarrow> MailBox" where
  "demo_mb i = \<lparr>mb_id = int i, owner_pid = 100 + int i, owner_uid = 0, owner_gid = 0, perm = 1,
     senders = [109, 200] @ replicate 8 (-1), suspended_sender = replicate 10 (-1),
     sus_sender_idx = 0, num_senders = 2, num_messages = (if i = 8 then 10 else 0),
     rx_suspended = (if i = 2 then 1 else 0), sus_end_p = 0, sus_m_source = 0,
     sus_message = demo_message,
     front = (if i = 8 then Ref 0 else NULL), rear = (if i = 8 then Ref 9 else NULL)\<rparr>"

definition demo_ctx :: "int \<Rightarrow> SuspendContext" where
  "demo_ctx f = \<lparr>ctx_msg = demo_msg 0, suspened_for = [f], len_sus_for = 1, ctx_end_p = 5,
     ctx_m_source = 6, ctx_p1 = 0, ctx_p2 = 7\<rparr>"

definition demo_contexts :: "SuspendContext option list" where
  "demo_contexts = [Some (demo_ctx 1), Some (demo_ctx 0), None, Some (demo_ctx 4), Some (demo_ctx 5),
     Some (demo_ctx 3)] @ replicate 94 None"

definition demo :: vfs where
  "demo = \<lparr>nodes = (\<lambda>a. if a < 10 then Some \<lparr>node_msg = demo_msg a,
              node_next = (if a = 9 then NULL else Ref (Suc a))\<rparr> else None),
           brk = 10, effs = [],
           mb_id_pool = 1023, num_active_mailboxes = 10, senderDB = replicate 100 0,
           mbList = Some (map (\<lambda>i. Some (demo_mb i)) [0..<10]), susContext = Some demo_contexts, initialize = 50\<rparr>"

lemma demo_slot: "slot demo i = (if i < 10 then Some (demo_mb i) else None)"
  by (simp add: slot_def demo_def del: upt_rec_numeral)

lemma demo_pool: "bit (mb_id_pool demo) i \<longleftrightarrow> i < 10"
proof -
  have "mb_id_pool demo = mask 10" by (simp add: demo_def mask_eq_exp_minus_1)
  then show ?thesis by (auto simp: bit_mask_iff)
qed

lemma demo_queue: "queue_nodes (demo_mb i) demo = Some (if i = 8 then [0..<10] else [])"
proof (cases "i = 8")
  case True
  have "queue_nodes (demo_mb 8) demo = Some [0..<10]" by code_simp
  with True show ?thesis by simp
next
  case False
  then show ?thesis by (simp add: queue_nodes_def demo_mb_def)
qed

lemma demo_registered [simp]: "registered (demo_mb i) = [109, 200]"
  by (simp add: registered_def demo_mb_def takeWhile_replicate)

lemma demo_fields [simp]:
  "senders (demo_mb i) = [109, 200] @ replicate 8 (-1)" "num_senders (demo_mb i) = 2"
  "live (demo_mb i)" "owner_pid (demo_mb i) = 100 + int i" "perm (demo_mb i) = 1"
  "rx_suspended (demo_mb i) = (if i = 2 then 1 else 0)" "sus_sender_idx (demo_mb i) = 0"
  by (simp_all add: live_def demo_mb_def)

lemma demo_ok: "vfs_ok demo"
proof (rule vfs_okI)
  show "tables_ok demo"
    by (simp add: tables_ok_def demo_def demo_contexts_def demo_ctx_def ctx_ok_def list_all_iff)
next
  fix i and mb :: MailBox
  assume "slot demo i = Some mb"
  then have i: "i < 10" "mb = demo_mb i" by (simp_all add: demo_slot split: if_splits)
  have q: "queue_ok (demo_mb i) demo"
    unfolding queue_ok_iff demo_queue by (auto simp: demo_def demo_mb_def)
  have n: "senders_ok (demo_mb i)" unfolding senders_ok_def by simp
  show "slot_ok demo i mb"
    using i q n by (simp add: slot_ok_def demo_pool) (simp add: demo_mb_def)
next
  fix i j and m1 m2 :: MailBox
  assume "slot demo i = Some m1" "slot demo j = Some m2" "i \<noteq> j"
  then show "node_set demo m1 \<inter> node_set demo m2 = {}"
    by (auto simp: demo_slot node_set_def demo_queue simp del: upt_rec_numeral split: if_splits)
qed (simp add: demo_pool demo_slot)

lemma demo_populated: "populated demo"
  by (simp add: populated_def demo_slot list_all_iff)

lemma demo_owner: "i < 10 \<Longrightarrow> owner_slot demo (100 + int i) = Some i"
  unfolding owner_slot_def
  unfolding find_Some_iff by (rule exI [of _ i]) (auto simp: demo_slot simp del: upt_rec_numeral)

lemma demo_owner_none: "p < 100 \<or> 110 \<le> p \<Longrightarrow> owner_slot demo p = None"
  unfolding owner_slot_def by (auto simp: find_None_iff demo_slot)

lemma demo_items: "items_at demo i = (if i = 8 then map demo_msg [0..<10] else [])"
proof (cases "i = 8")
  case True
  have "items_at demo 8 = map demo_msg [0..<10]" by code_simp
  with True show ?thesis by simp
next
  case False
  then show ?thesis by (simp add: items_at_def demo_slot queue_msgs_def demo_queue)
qed

lemma demo_items8: "items_at demo 8 = demo_msg 0 # map demo_msg [1..<10]"
  by (simp add: demo_items upt_conv_Cons del: upt_rec_numeral)

lemma demo_waits:
  "waits_on demo 0 = Some 1" "waits_on demo 1 = Some 0" "waits_on demo 3 = Some 4"
  "waits_on demo 4 = Some 5" "waits_on demo 5 = Some 3" "waits_on demo 8 = None"
  by (simp_all add: waits_on_def ctx_ptr_def demo_def demo_contexts_def demo_ctx_def)

lemma demo_ctx_ptr: "ctx_ptr demo 1 = Inr (Some (demo_ctx 0))"
  by (simp add: ctx_ptr_def demo_def demo_contexts_def)

end
