(* ===== verification/MbProps.thy ===== *)
theory MbProps
  imports MbDemo
begin

text \<open>
  The properties of the mailbox server (prj_2/src/mailbox.c), each with a witness on the
  state of MbDemo or on the server at boot.
\<close>

section \<open>Invariant and queue\<close>


lemma boot_create:
  obtains s' where "do_create_mailbox (demo_mb 0) demo_message boot = Inr (0, s')"
proof -
  have b: "\<not> live_at boot i" for i by (simp add: live_at_def slot_def boot_def)
  have f: "front (demo_mb 0) = NULL" by (simp add: demo_mb_def)
  show thesis
  proof (rule create_effect [OF vfs_ok_boot f, where m_in = demo_message])
    assume "\<forall>i<MAX_MAILBOXES. live_at boot i"
    then have "live_at boot 0" by simp
    with b show thesis by blast
  next
    fix i s'
    assume "\<forall>j<i. live_at boot j"
      "do_create_mailbox (demo_mb 0) demo_message boot = Inr (int i, s')"
    with b that show thesis by (cases i) auto
  qed
qed



definition empty_queue :: "MailBox \<times> store" where
  "empty_queue = (demo_mb 0, \<lparr>nodes = (\<lambda>_. None), brk = 0, effs = []\<rparr>)"

lemma demo_msg_ok: "msg_ok (demo_msg n)"
  by (simp add: msg_ok_def demo_msg_def)

lemma empty_queue_ok: "mbq_ok empty_queue" "mbq_items empty_queue = []"
  by (simp_all add: mbq_ok_def empty_queue_def queue_ok_iff queue_nodes_def queue_msgs_def demo_mb_def)


section \<open>Mailbox ids\<close>

text \<open>
  do_create_mailbox returns the smallest id with no live mailbox, and puts there a mailbox
  of the caller with no senders and no messages; when all ten are live it returns -1. No other
  mailbox and no other queue changes.
\<close>

theorem create_smallest_free:
  assumes "vfs_ok s" and "front block = NULL"
  shows "\<exists>r s'. do_create_mailbox block m_in s = Inr (r, s') \<and>
    (if \<forall>i<MAX_MAILBOXES. live_at s i then r = -1 \<and> slot s' = slot s
     else \<exists>i<MAX_MAILBOXES. r = int i \<and> \<not> live_at s i \<and> (\<forall>j<i. live_at s j) \<and>
            slot s' = (slot s)(i \<mapsto> new_mailbox block r m_in) \<and>
            items_at s' = (items_at s)(i := []))"
proof (rule create_effect [OF assms, where m_in = m_in])
  assume "\<forall>i<MAX_MAILBOXES. live_at s i" "do_create_mailbox block m_in s = Inr (-1, initialised s)"
  then show ?thesis using vfs_ok_initialised [OF assms(1)] by auto
next
  fix i s'
  assume "i < MAX_MAILBOXES" "\<not> live_at s i" "\<forall>j<i. live_at s j"
    "do_create_mailbox block m_in s = Inr (int i, s')"
    "slot s' = (slot s)(i \<mapsto> new_mailbox block (int i) m_in)" "items_at s' = (items_at s)(i := [])"
  then show ?thesis by (intro exI [of _ "int i"] exI [of _ s']) auto
qed

theorem create_smallest_free_witness:
  "\<exists>s'. do_create_mailbox (demo_mb 0) demo_message boot = Inr (0, s') \<and>
     slot s' 0 = Some (new_mailbox (demo_mb 0) 0 demo_message) \<and> items_at s' 0 = []"
proof -
  have b: "\<not> live_at boot i" for i by (simp add: live_at_def slot_def boot_def)
  have f: "front (demo_mb 0) = NULL" by (simp add: demo_mb_def)
  have nb: "\<not> (\<forall>i<MAX_MAILBOXES. live_at boot i)"
  proof
    assume "\<forall>i<MAX_MAILBOXES. live_at boot i"
    then have "live_at boot 0" by simp
    with b show False by blast
  qed
  obtain r s' i where c: "do_create_mailbox (demo_mb 0) demo_message boot = Inr (r, s')"
    "r = int i" "\<forall>j<i. live_at boot j" "slot s' = (slot boot)(i \<mapsto> new_mailbox (demo_mb 0) r demo_message)"
    "items_at s' = (items_at boot)(i := [])"
    using create_smallest_free [OF vfs_ok_boot f, of demo_message] nb by auto
  moreover have "i = 0" using c(3) b by (cases i) auto
  ultimately show ?thesis by simp
qed

text \<open>
  C5. Destroying a live mailbox succeeds, empties its queue and frees its id: when the ids
  below are in use the next mailbox that is created gets the same id, and starts empty. The
  other mailboxes keep their records and messages through both calls.
\<close>

theorem destroyed_id_is_reused:
  assumes "vfs_ok s" and "slot s i = Some mb" and "live mb" and "\<forall>j<i. live_at s j"
    and "m7_i4 m_in = int i" and "front block = NULL"
  shows "\<exists>s1 s2. do_destroy_mailbox m_in s = Inr (0, s1) \<and> \<not> live_at s1 i \<and> items_at s1 i = [] \<and>
    do_create_mailbox block m2 s1 = Inr (int i, s2) \<and> items_at s2 i = [] \<and>
    (\<forall>j. j \<noteq> i \<longrightarrow> slot s2 j = slot s j \<and> items_at s2 j = items_at s j)"
proof (rule destroy_effect [OF assms(1,2,5)])
  fix s1
  assume d: "do_destroy_mailbox m_in s = Inr (if live mb then 0 else -1, s1)" and ok1: "vfs_ok s1"
    and sl: "slot s1 = (slot s)(i \<mapsto> destroyed mb)" and it: "items_at s1 = (items_at s)(i := [])"
  have i: "i < MAX_MAILBOXES" using slot_bound [OF vfs_ok_tables [OF assms(1)] assms(2)] .
  have free: "\<not> live_at s1 i" by (simp add: live_at_def sl live_def destroyed_def)
  have low: "live_at s1 j" if "j < i" for j using assms(4) that by (simp add: live_at_def sl)
  show ?thesis
  proof (rule create_effect [OF ok1 assms(6), where m_in = m2])
    assume "\<forall>i<MAX_MAILBOXES. live_at s1 i"
    with free i show ?thesis by blast
  next
    fix k s2
    assume k: "\<not> live_at s1 k" "\<forall>j<k. live_at s1 j" "do_create_mailbox block m2 s1 = Inr (int k, s2)"
      "slot s2 = (slot s1)(k \<mapsto> new_mailbox block (int k) m2)" "items_at s2 = (items_at s1)(k := [])"
    have "k = i" using k(1,2) free low by (metis linorder_neqE_nat)
    with k d assms(3) free sl it show ?thesis by auto
  qed
qed

theorem destroyed_id_is_reused_witness:
  "\<exists>s1 s2. do_destroy_mailbox (demo_message\<lparr>m7_i4 := 8\<rparr>) demo = Inr (0, s1) \<and>
     do_create_mailbox (demo_mb 0) demo_message s1 = Inr (8, s2) \<and> items_at s2 8 = []"
proof -
  have "slot demo 8 = Some (demo_mb 8)" "\<forall>j<8. live_at demo j" "m7_i4 (demo_message\<lparr>m7_i4 := 8\<rparr>) = int 8"
    "front (demo_mb 0) = NULL"
    by (simp_all add: demo_slot live_at_def) (simp add: demo_mb_def)
  from destroyed_id_is_reused [OF demo_ok this(1) _ this(2-4), of demo_message]
  show ?thesis by auto
qed

section \<open>Registering\<close>

text \<open>
  do_register_mb on every branch, in a server whose ten mailboxes have been created: -1
  when the caller is not authorised or the mailbox already has ten senders, -2 when the caller
  is registered, and otherwise 0 and the caller is added behind the registered senders, which
  makes isValidSender accept it. No other mailbox changes.
\<close>

theorem register_result:
  assumes "vfs_ok s" and "populated s" and "slot s i = Some mb" and "m7_i4 m_in = int i"
    and "m7_i1 m_in \<noteq> -1"
  shows "\<exists>s' mb'. do_register_mb m_in s =
      Inr (register_code mb (m7_i1 m_in) (m7_i2 m_in) (m7_i3 m_in), s') \<and>
    slot s' = (slot s)(i \<mapsto> mb') \<and> items_at s' = items_at s \<and>
    registered mb' = (if register_code mb (m7_i1 m_in) (m7_i2 m_in) (m7_i3 m_in) = 0
                      then registered mb @ [m7_i1 m_in] else registered mb) \<and>
    (register_code mb (m7_i1 m_in) (m7_i2 m_in) (m7_i3 m_in) = 0 \<longrightarrow> live mb \<longrightarrow> owner_pid mb \<noteq> -1 \<longrightarrow>
       isValidSender s' (int i) (m7_i1 m_in) = Inr 1)"
proof -
  have i: "i < MAX_MAILBOXES" using slot_bound [OF vfs_ok_tables [OF assms(1)] assms(3)] .
  show ?thesis
  proof (rule register_effect [OF assms(1,2) i assms(3,4,5)])
    fix s' mb'
    assume c: "do_register_mb m_in s =
        Inr (register_code mb (m7_i1 m_in) (m7_i2 m_in) (m7_i3 m_in), s')"
      "slot s' = (slot s)(i \<mapsto> mb')" "items_at s' = items_at s"
      "registered mb' = (if register_code mb (m7_i1 m_in) (m7_i2 m_in) (m7_i3 m_in) = 0
         then registered mb @ [m7_i1 m_in] else registered mb)"
      "owner_pid mb' = owner_pid mb" "live mb' = live mb"
    have "isValidSender s' (int i) (m7_i1 m_in) = Inr 1"
      if "register_code mb (m7_i1 m_in) (m7_i2 m_in) (m7_i3 m_in) = 0" "live mb" "owner_pid mb \<noteq> -1"
      using valid_sender [OF do_register_mb_ok [OF assms(1) c(1)] i, of mb' "m7_i1 m_in"] c that by simp
    with c show ?thesis by blast
  qed
qed

theorem register_result_witness:
  "\<exists>s'. do_register_mb (demo_message\<lparr>m7_i1 := 300, m7_i4 := 3\<rparr>) demo = Inr (0, s') \<and>
     isValidSender s' 3 300 = Inr 1"
proof -
  let ?m = "demo_message\<lparr>m7_i1 := 300, m7_i4 := 3\<rparr>"
  have s: "slot demo 3 = Some (demo_mb 3)" by (simp add: demo_slot)
  have c: "register_code (demo_mb 3) (m7_i1 ?m) (m7_i2 ?m) (m7_i3 ?m) = 0"
    by (simp add: register_code_def authorised_def EVERYONE_def)
  from register_result [OF demo_ok demo_populated s, of ?m] c show ?thesis by auto
qed

text \<open>
  isValidSender answers 1 for exactly the registered senders of a live mailbox and 0 for
  everybody else.
\<close>

theorem valid_sender_iff_registered:
  assumes "vfs_ok s" and "slot s i = Some mb" and "live mb" and "owner_pid mb \<noteq> -1"
  shows "isValidSender s (int i) pid = Inr (if pid \<in> set (registered mb) then 1 else 0)"
  using valid_sender [OF assms(1) slot_bound [OF vfs_ok_tables [OF assms(1)] assms(2)] assms(2-4)] .

theorem valid_sender_iff_registered_witness:
  "isValidSender demo 4 200 = Inr 1 \<and> isValidSender demo 4 300 = Inr 0"
  using valid_sender_iff_registered [of demo 4 "demo_mb 4" 200]
    valid_sender_iff_registered [of demo 4 "demo_mb 4" 300] demo_ok
  by (simp add: demo_slot)

section \<open>Depositing\<close>

text \<open>
  A deposit to a list of processes, each with a mailbox that has room, that has the sender
  registered and whose owner does not wait, answers 0 and appends the message to the queue of
  exactly those mailboxes, once each; it wakes nobody and changes no other queue.
\<close>

theorem deposit_reaches_all:
  assumes "vfs_ok s" and "populated s" and "\<forall>d\<in>set ds. takes s (m7_i1 m_in) d"
    and "distinct (map (owner_slot s) ds)" and "e \<le> 0"
  shows "\<exists>s'. do_deposit fpe junk who (ds @ e # rest) bytes m_in s = Inr (Ret 0, s') \<and> vfs_ok s' \<and>
    effs s' = effs s \<and>
    (\<forall>j. items_at s' j = (if Some j \<in> owner_slot s ` set ds
       then items_at s j @ [\<lparr>data = bytes, sender_id = m7_i1 m_in\<rparr>] else items_at s j))"
  using deposit_all [OF assms, of fpe "\<lparr>data = bytes, sender_id = m7_i1 m_in\<rparr>" rest "[]"]
    do_deposit_plain [of fpe m_in bytes "ds @ e # rest" s] by blast

lemma demo_takes: "i < 10 \<Longrightarrow> i \<noteq> 8 \<Longrightarrow> i \<noteq> 2 \<Longrightarrow> takes demo 200 (100 + int i)"
  by (simp add: takes_def demo_owner demo_slot demo_items)

theorem deposit_reaches_all_witness:
  "\<exists>s'. do_deposit (\<lambda>i. i) 0 7 [104, 105, -1] [] (demo_message\<lparr>m7_i1 := 200\<rparr>) demo = Inr (Ret 0, s') \<and>
     items_at s' 4 = [\<lparr>data = [], sender_id = 200\<rparr>] \<and> items_at s' 6 = []"
proof -
  have o: "owner_slot demo 104 = Some 4" "owner_slot demo 105 = Some 5"
    using demo_owner [of 4] demo_owner [of 5] by simp_all
  have t: "\<forall>d\<in>set [104, 105]. takes demo (m7_i1 (demo_message\<lparr>m7_i1 := 200\<rparr>)) d"
    using demo_takes [of 4] demo_takes [of 5] by simp
  have d: "distinct (map (owner_slot demo) [104, 105])" using o by simp
  show ?thesis
    using deposit_reaches_all [OF demo_ok demo_populated t d, of "-1" "\<lambda>i. i" 0 7 "[]" "[]"] o
    by (auto simp: demo_items)
qed

text \<open>
  A deposit whose first destination has no mailbox is refused with -3, and one whose
  destination has not registered the sender with -5; the state does not change.
\<close>

theorem deposit_refused:
  assumes "vfs_ok s" and "populated s" and "0 < d"
  shows "(owner_slot s d = None \<longrightarrow> do_deposit fpe junk who (d # ds) bytes m_in s = Inr (Ret (-3), s)) \<and>
    (\<forall>i mb. owner_slot s d = Some i \<longrightarrow> slot s i = Some mb \<longrightarrow> m7_i1 m_in \<notin> set (registered mb) \<longrightarrow>
       do_deposit fpe junk who (d # ds) bytes m_in s = Inr (Ret (-5), s))"
  using do_deposit_code [OF deposit_unknown [OF assms]] do_deposit_code
    deposit_known [OF assms] by (auto simp del: deposit_loop.simps)

theorem deposit_refused_witness:
  "do_deposit (\<lambda>i. i) 0 7 [500] [] (demo_message\<lparr>m7_i1 := 200\<rparr>) demo = Inr (Ret (-3), demo) \<and>
   do_deposit (\<lambda>i. i) 0 7 [104] [] (demo_message\<lparr>m7_i1 := 300\<rparr>) demo = Inr (Ret (-5), demo)"
proof -
  have "(0::int) < 500" "(0::int) < 104" by simp_all
  note r = this [THEN deposit_refused [OF demo_ok demo_populated]]
  have "owner_slot demo 500 = None" "owner_slot demo 104 = Some 4"
    using demo_owner_none [of 500] demo_owner [of 4] by simp_all
  then show ?thesis
    using r(1) [of "\<lambda>i. i" 0 7 "[]" "[]" "demo_message\<lparr>m7_i1 := 200\<rparr>"]
      r(2) [of "\<lambda>i. i" 0 7 "[]" "[]" "demo_message\<lparr>m7_i1 := 300\<rparr>"]
    by (simp add: demo_slot)
qed

text \<open>
  Every answer of a deposit is 0, -3 or -5 (or the caller stays suspended): the code -4
  for a mailbox without an owner, which the source also returns, is never the answer.
\<close>

theorem deposit_answers:
  assumes "vfs_ok s" and "do_deposit fpe junk who dest bytes m_in s = Inr (a, s')"
  shows "a \<in> {SUSPEND, Ret 0, Ret (-3), Ret (-5)}"
proof -
  let ?msg = "\<lparr>data = bytes, sender_id = m7_i1 m_in\<rparr>"
  from assms(2) obtain code sus s1 where
    l: "deposit_loop fpe (m7_i1 m_in) ?msg dest [] s = Inr (code, sus, s1)"
    by (auto simp: do_deposit_def Let_def bnd_eq_Inr)
  show ?thesis
  proof (cases code)
    case (Some c)
    then have "a = Ret c" using assms(2) l by (simp add: do_deposit_def)
    then show ?thesis using deposit_loop_codes [OF assms(1) l] Some by auto
  next
    case None
    then show ?thesis using assms(2) l by (auto simp: do_deposit_def Let_def bnd_eq_Inr split: if_splits)
  qed
qed

theorem deposit_answers_witness:
  "\<exists>a s'. do_deposit (\<lambda>i. i) 0 7 [500] [] demo_message demo = Inr (a, s') \<and>
     a \<in> {SUSPEND, Ret 0, Ret (-3), Ret (-5)}"
proof -
  have "owner_slot demo 500 = None" using demo_owner_none [of 500] by simp
  then have c: "do_deposit (\<lambda>i. i) 0 7 [500] [] demo_message demo = Inr (Ret (-3), demo)"
    by (intro do_deposit_code [OF deposit_unknown [OF demo_ok demo_populated]]) simp_all
  then show ?thesis using deposit_answers [OF demo_ok c] by blast
qed

text \<open>A process that waits for one that does not wait itself is in no deadlock.\<close>

lemma no_dead_lock_ahead:
  assumes ok: "vfs_ok s" and C: "susContext s \<noteq> None" and kr: "0 \<le> k" "k < 100"
    and w: "waits_on s k = Some (int i)" and ne: "k \<noteq> int i" and stop: "waits_on s (int i) = None"
    and i: "i < 100"
  shows "check_dead_lock s k = Inr 0"
proof -
  have "check_dead_lock_loop (Suc (Suc n)) s k k = Inr 0" for n
    unfolding check_step [OF ok C kr kr(1)] w using ne stop i
    by (simp only: option.case if_False) (subst check_step [OF ok C], use kr in auto)
  from this [of 99] show ?thesis
    by (simp add: check_dead_lock_def check_fuel_def del: check_dead_lock_loop.simps)
qed

text \<open>
  C6. A deposit to a full mailbox by a process that owns a mailbox suspends the sender, when
  the owner of the full mailbox does not wait itself: nothing is delivered or answered, the
  sender's pid is noted in the mailbox, and its context says which mailbox it waits for.
\<close>

theorem full_mailbox_suspends:
  assumes "vfs_ok s" and "populated s" and "0 < d" and "e \<le> 0"
    and "owner_slot s d = Some i" and "slot s i = Some m" and "m7_i1 m_in \<in> set (registered m)"
    and "length (items_at s i) = 10" and "sus_sender_idx m < int MAX_SENDERS"
    and "owner_slot s (m7_i1 m_in) = Some k" and "k \<noteq> i" and "waits_on s (int i) = None"
  shows "\<exists>s'. do_deposit fpe junk who (d # e # rest) bytes m_in s = Inr (SUSPEND, s') \<and> vfs_ok s' \<and>
    items_at s' = items_at s \<and> effs s' = effs s \<and> waits_on s' (int k) = Some (int i) \<and>
    (\<exists>m'. slot s' i = Some m' \<and> suspended_sender m' ! nat (sus_sender_idx m) = m7_i1 m_in)"
proof (rule do_deposit_full [OF assms(1-3,5-9,4), where fpe = fpe and junk = junk and who = who
      and bytes = bytes and rest = rest])
  fix s1
  let ?c = "\<lparr>ctx_msg = \<lparr>data = bytes, sender_id = m7_i1 m_in\<rparr>, suspened_for = [int i],
             len_sus_for = 1, ctx_end_p = who, ctx_m_source = m_source m_in,
             ctx_p1 = m7_p1 m_in, ctx_p2 = m7_p2 m_in\<rparr>"
  assume s1: "vfs_ok s1" "populated s1" "owner_slot s1 = owner_slot s" "items_at s1 = items_at s"
    "effs s1 = effs s" "susContext s1 = susContext s"
    "slot s1 = (slot s)(i \<mapsto> m\<lparr>suspended_sender := (suspended_sender m)[nat (sus_sender_idx m) := m7_i1 m_in],
                              sus_sender_idx := sus_sender_idx m + 1\<rparr>)"
    and c: "do_deposit fpe junk who (d # e # rest) bytes m_in s =
       bnd (get_sender_local_id s1 (m7_i1 m_in)) (\<lambda>k. bnd (ctx_ptr s1 k) (\<lambda>_. bnd (set_ctx s1 k ?c) (\<lambda>s2.
       bnd (check_dead_lock s2 k) (\<lambda>dead_lock.
         if dead_lock = 1 then
           bnd (indicate_deadlock fpe junk k s2) (\<lambda>(_, s3).
             Inr (Ret 0, emit [CopyOut (m_source m_in) (m7_p2 m_in) (Ints [-2, -2])] s3))
         else Inr (SUSPEND, s2)))))"
  have ik: "i < 10" "k < 10" using owner_slotD [OF assms(5)] owner_slotD [OF assms(10)] by (blast, blast)
  have g: "get_sender_local_id s1 (m7_i1 m_in) = Inr (int k)"
    using get_sender_local_id_owner [OF s1(1,2)] s1(3) assms(10) by simp
  have C: "susContext s1 \<noteq> None"
    using vfs_ok_tables [OF s1(1)] populated_mbList [OF s1(2)] by (auto simp: tables_ok_def split: option.splits)
  have kr: "0 \<le> int k" "int k < 100" using ik by simp_all
  obtain p where p: "ctx_ptr s1 (int k) = Inr p" using ctx_ptr_range [OF s1(1) C kr] by blast
  obtain s2 where s2: "set_ctx s1 (int k) ?c = Inr s2"
    "\<And>y. ctx_ptr s2 y = (if y = int k then Inr (Some ?c) else ctx_ptr s1 y)" "effs s2 = effs s1"
    using set_ctx_at [OF p] by blast
  have co: "ctx_ok ?c" using ik by (simp add: ctx_ok_def)
  have ok2: "vfs_ok s2" using set_ctx_ok [OF s1(1) co s2(1)] .
  have ctxs: "ctx_ptr s1 = ctx_ptr s" by (simp add: fun_eq_iff ctx_ptr_def s1(6))
  have w: "waits_on s2 (int k) = Some (int i)" "waits_on s2 (int i) = None"
    using assms(11,12) by (simp_all add: waits_on_def s2(2) ctxs)
  have C2: "susContext s2 \<noteq> None" using s2(1) by (rule set_ctx_susContext)
  have "check_dead_lock s2 (int k) = Inr 0"
    using no_dead_lock_ahead [OF ok2 C2 kr w(1) _ w(2)] assms(11) ik by simp
  then have r: "do_deposit fpe junk who (d # e # rest) bytes m_in s = Inr (SUSPEND, s2)"
    unfolding c g bnd.simps p s2(1) by simp
  have sl2: "slot s2 = slot s1" and it: "items_at s2 = items_at s"
    using set_ctx_frame [OF s2(1)] s1(4) by simp_all
  have sus: "length (suspended_sender m) = 10" "0 \<le> sus_sender_idx m"
    using vfs_ok_slot [OF assms(1,6)] by (simp_all add: slot_ok_def)
  show ?thesis
    by (intro exI [of _ s2] conjI) (use r ok2 it w s1 s2 sl2 sus assms(9) in \<open>auto simp: nat_less_iff\<close>)
qed

theorem full_mailbox_suspends_witness:
  "\<exists>s'. do_deposit (\<lambda>i. i) 0 7 [108, -1] [] (demo_message\<lparr>m7_i1 := 109\<rparr>) demo = Inr (SUSPEND, s') \<and>
     waits_on s' 9 = Some 8 \<and> effs s' = []"
proof -
  have o: "owner_slot demo 108 = Some 8" "owner_slot demo (m7_i1 (demo_message\<lparr>m7_i1 := 109\<rparr>)) = Some 9"
    using demo_owner [of 8] demo_owner [of 9] by simp_all
  have "m7_i1 (demo_message\<lparr>m7_i1 := 109\<rparr>) \<in> set (registered (demo_mb 8))" by simp
  note f = full_mailbox_suspends [OF demo_ok demo_populated _ _ o(1) _ this _ _ o(2), of "-1" "\<lambda>i. i" 0 7 "[]" "[]"]
  have "waits_on demo (int 8) = None" using demo_waits by simp
  with f show ?thesis by (auto simp: demo_slot demo_items) (simp add: demo_def)
qed

text \<open>
  A sender that is registered but owns no mailbox has no local id, since senderDB never
  holds it: when its destination is full the server reads susContext at the index -1.
\<close>

theorem blocked_outsider_faults:
  assumes "vfs_ok s" and "populated s" and "0 < d" and "e \<le> 0"
    and "owner_slot s d = Some i" and "slot s i = Some m" and "m7_i1 m_in \<in> set (registered m)"
    and "length (items_at s i) = 10" and "sus_sender_idx m < int MAX_SENDERS"
    and "owner_slot s (m7_i1 m_in) = None" and "m7_i1 m_in \<notin> set (senderDB s)"
  shows "do_deposit fpe junk who (d # e # rest) bytes m_in s = Inl OutOfBounds"
proof (rule do_deposit_full [OF assms(1-3,5-9,4), where fpe = fpe and junk = junk and who = who
      and bytes = bytes and rest = rest])
  fix s1
  assume s1: "vfs_ok s1" "populated s1" "owner_slot s1 = owner_slot s" "senderDB s1 = senderDB s"
    and c: "do_deposit fpe junk who (d # e # rest) bytes m_in s =
       bnd (get_sender_local_id s1 (m7_i1 m_in)) (\<lambda>k. bnd (ctx_ptr s1 k) (\<lambda>_.
       bnd (set_ctx s1 k \<lparr>ctx_msg = \<lparr>data = bytes, sender_id = m7_i1 m_in\<rparr>, suspened_for = [int i],
             len_sus_for = 1, ctx_end_p = who, ctx_m_source = m_source m_in,
             ctx_p1 = m7_p1 m_in, ctx_p2 = m7_p2 m_in\<rparr>) (\<lambda>s2.
       bnd (check_dead_lock s2 k) (\<lambda>dead_lock.
         if dead_lock = 1 then
           bnd (indicate_deadlock fpe junk k s2) (\<lambda>(_, s3).
             Inr (Ret 0, emit [CopyOut (m_source m_in) (m7_p2 m_in) (Ints [-2, -2])] s3))
         else Inr (SUSPEND, s2)))))"
  have "get_sender_local_id s1 (m7_i1 m_in) = Inr (-1)"
    using get_sender_local_id_unknown [OF s1(1,2)] s1(3,4) assms(10,11) by simp
  moreover have "susContext s1 \<noteq> None"
    using vfs_ok_tables [OF s1(1)] populated_mbList [OF s1(2)] by (auto simp: tables_ok_def split: option.splits)
  ultimately show ?thesis unfolding c by (simp add: ctx_ptr_neg)
qed

theorem blocked_outsider_faults_witness:
  "do_deposit (\<lambda>i. i) 0 7 [108, -1] [] (demo_message\<lparr>m7_i1 := 200\<rparr>) demo = Inl OutOfBounds"
proof -
  have o: "owner_slot demo 108 = Some 8" "owner_slot demo (m7_i1 (demo_message\<lparr>m7_i1 := 200\<rparr>)) = None"
    using demo_owner [of 8] demo_owner_none [of 200] by simp_all
  have "m7_i1 (demo_message\<lparr>m7_i1 := 200\<rparr>) \<in> set (registered (demo_mb 8))" by simp
  from blocked_outsider_faults [OF demo_ok demo_populated _ _ o(1) _ this _ _ o(2)]
  show ?thesis by (simp add: demo_slot demo_items) (simp add: demo_def)
qed

section \<open>Retrieving\<close>

text \<open>
  C7. do_retrieve on every branch: a process without a mailbox gets -1; an empty mailbox
  suspends its owner and marks it waiting; otherwise the caller gets the string of the oldest
  message in a block of 256 bytes and that message alone leaves the queue.
\<close>

theorem retrieve_result:
  assumes "vfs_ok s" and "populated s"
  shows "case owner_slot s (m7_i1 m_in) of
      None \<Rightarrow> do_retrieve junk who m_in s = Inr (Ret (-1), s)
    | Some i \<Rightarrow> (case items_at s i of
          [] \<Rightarrow> (\<exists>s' mb'. do_retrieve junk who m_in s = Inr (SUSPEND, s') \<and> items_at s' = items_at s \<and>
                  effs s' = effs s \<and> slot s' i = Some mb' \<and> rx_suspended mb' = 1 \<and> sus_end_p mb' = who)
        | m # ms \<Rightarrow> msg_ok m \<longrightarrow>
            (\<exists>s' buf. do_retrieve junk who m_in s = Inr (Ret 0, s') \<and> items_at s' = (items_at s)(i := ms) \<and>
               effs s' = effs s @ [CopyOut (m_source m_in) (m7_p1 m_in) (Bytes buf)] \<and>
               cstr buf = cstr (data m) \<and> length buf = 256))"
proof (cases "owner_slot s (m7_i1 m_in)")
  case None
  with retrieve_stranger [OF assms] show ?thesis by simp
next
  case (Some i)
  show ?thesis
  proof (cases "items_at s i")
    case Nil
    show ?thesis
      by (rule retrieve_empty [OF assms Some Nil, where junk = junk and who = who])
        (use Some Nil in auto)
  next
    case (Cons m ms)
    have "\<exists>s' buf. do_retrieve junk who m_in s = Inr (Ret 0, s') \<and> items_at s' = (items_at s)(i := ms) \<and>
               effs s' = effs s @ [CopyOut (m_source m_in) (m7_p1 m_in) (Bytes buf)] \<and>
               cstr buf = cstr (data m) \<and> length buf = 256" if "msg_ok m"
      by (rule retrieve_some [OF assms Some Cons that, where junk = junk and who = who]) blast
    with Some Cons show ?thesis by simp
  qed
qed

theorem retrieve_result_witness:
  "\<exists>s' buf. do_retrieve (\<lambda>_. NUL) 7 (demo_message\<lparr>m7_i1 := 108\<rparr>) demo = Inr (Ret 0, s') \<and>
     effs s' = [CopyOut 0 0 (Bytes buf)] \<and> cstr buf = ''m'' \<and> items_at s' 8 = map demo_msg [1..<10]"
proof -
  have o: "owner_slot demo (m7_i1 (demo_message\<lparr>m7_i1 := 108\<rparr>)) = Some 8"
    using demo_owner [of 8] by simp
  have m: "msg_ok (demo_msg 0)" "cstr (data (demo_msg 0)) = ''m''"
    by (simp_all add: demo_msg_ok) (simp add: demo_msg_def cstr_def)
  from retrieve_result [OF demo_ok demo_populated, of "\<lambda>_. NUL" 7 "demo_message\<lparr>m7_i1 := 108\<rparr>"] o demo_items8 m
  show ?thesis by (auto simp: demo_message_def) (simp add: demo_def)
qed

lemma deposit_retrieve_law:
  assumes "vfs_ok s" and "populated s" and "takes s (m7_i1 m_in) d" and "owner_slot s d = Some i"
    and "items_at s i = []" and "length bytes = 256" and "NUL \<in> set bytes" and "m7_i1 m2 = d"
  shows "\<exists>s1 s2 buf. do_deposit fpe junk who [d, -1] bytes m_in s = Inr (Ret 0, s1) \<and>
    do_retrieve junkb who2 m2 s1 = Inr (Ret 0, s2) \<and> items_at s2 i = [] \<and>
    effs s2 = effs s @ [CopyOut (m_source m2) (m7_p1 m2) (Bytes buf)] \<and> cstr buf = cstr bytes"
proof -
  let ?msg = "\<lparr>data = bytes, sender_id = m7_i1 m_in\<rparr>"
  obtain m where t: "0 < d" "slot s i = Some m" "m7_i1 m_in \<in> set (registered m)" "rx_suspended m \<noteq> 1"
    using assms(3,4) by (rule_tac takesE) auto
  have room: "length (items_at s i) < 10" using assms(5) by simp
  show ?thesis
  proof (rule deposit_room [OF assms(1,2) t(1) assms(4) t(2,3,4) room, where fpe = fpe and msg = ?msg])
    fix s1 m1
    assume step: "\<And>ds sus. deposit_loop fpe (m7_i1 m_in) ?msg (d # ds) sus s =
        deposit_loop fpe (m7_i1 m_in) ?msg ds sus s1"
      and s1: "vfs_ok s1" "slot s1 = (slot s)(i \<mapsto> m1)" "same_but_queue m m1"
        "items_at s1 = (items_at s)(i := items_at s i @ [?msg])" "effs s1 = effs s"
    have "deposit_loop fpe (m7_i1 m_in) ?msg [d, -1] [] s = Inr (None, [], s1)"
      unfolding step by simp
    then have dep: "do_deposit fpe junk who [d, -1] bytes m_in s = Inr (Ret 0, s1)" by (rule do_deposit_plain)
    have o1: "owner_slot s1 (m7_i1 m2) = Some i"
      using owner_slot_update [OF s1(2) t(2)] same_but_queueD [OF s1(3)] assms(4,8) by simp
    have it: "items_at s1 i = [?msg]" using s1(4) assms(5) by simp
    have mok: "msg_ok ?msg" using assms(6,7) by (simp add: msg_ok_def)
    show ?thesis
      by (rule retrieve_some [OF s1(1) populated_update [OF s1(2) assms(2)] o1 it mok, where junk = junkb and who = who2])
        (use dep s1(4,5) in auto)
  qed
qed

text \<open>
  Round trip: a message deposited into an empty mailbox is what its owner retrieves next,
  as a C string, however the fresh receiving block looked before.
\<close>

theorem deposit_then_retrieve:
  assumes "vfs_ok s" and "populated s" and "takes s (m7_i1 m_in) d" and "owner_slot s d = Some i"
    and "items_at s i = []" and "length bytes = 256" and "NUL \<in> set bytes" and "m7_i1 m2 = d"
  shows "\<exists>s1 s2 buf. do_deposit fpe junk who [d, -1] bytes m_in s = Inr (Ret 0, s1) \<and>
    do_retrieve junkb who2 m2 s1 = Inr (Ret 0, s2) \<and> items_at s2 i = [] \<and>
    effs s2 = effs s @ [CopyOut (m_source m2) (m7_p1 m2) (Bytes buf)] \<and> cstr buf = cstr bytes"
  using assms by (rule deposit_retrieve_law)

theorem deposit_then_retrieve_witness:
  "\<exists>s1 s2 buf. do_deposit (\<lambda>i. i) 0 7 [104, -1] (''hi'' @ replicate 254 NUL) (demo_message\<lparr>m7_i1 := 200\<rparr>) demo
       = Inr (Ret 0, s1) \<and>
     do_retrieve (\<lambda>_. CHR ''x'') 8 (demo_message\<lparr>m7_i1 := 104\<rparr>) s1 = Inr (Ret 0, s2) \<and>
     effs s2 = [CopyOut 0 0 (Bytes buf)] \<and> cstr buf = ''hi''"
proof -
  have t: "takes demo (m7_i1 (demo_message\<lparr>m7_i1 := 200\<rparr>)) 104" "owner_slot demo 104 = Some 4"
    using demo_takes [of 4] demo_owner [of 4] by simp_all
  have i: "items_at demo 4 = []" by (simp add: demo_items)
  have b: "length (''hi'' @ replicate 254 NUL) = 256" "NUL \<in> set (''hi'' @ replicate 254 NUL)" by simp_all
  have c: "cstr (''hi'' @ replicate 254 NUL) = ''hi''" by (simp add: cstr_def takeWhile_replicate)
  have "effs demo = []" by (simp add: demo_def)
  with deposit_then_retrieve [OF demo_ok demo_populated t i b, of "demo_message\<lparr>m7_i1 := 104\<rparr>" "\<lambda>i. i" 0 7
      "\<lambda>_. CHR ''x''" 8] c
  show ?thesis by (auto simp: demo_message_def)
qed

text \<open>
  C9. Retrieving makes room but resumes nobody: it answers and revives no process, leaves
  every context of a suspended sender, and keeps the list of senders blocked on each mailbox.
  A sender that a full mailbox suspended therefore stays suspended.
\<close>

theorem retrieve_resumes_nobody:
  assumes "vfs_ok s" and "do_retrieve junk who m_in s = Inr (a, s')"
  shows "susContext s' = susContext s \<and>
    (effs s' = effs s \<or> (\<exists>buf. effs s' = effs s @ [CopyOut (m_source m_in) (m7_p1 m_in) (Bytes buf)])) \<and>
    (\<forall>i mb. slot s i = Some mb \<longrightarrow> (\<exists>mb'. slot s' i = Some mb' \<and>
       suspended_sender mb' = suspended_sender mb \<and> sus_sender_idx mb' = sus_sender_idx mb))"
  using assms
proof (rule do_retrieve_cases)
  assume "s' = s"
  then show ?thesis by simp
next
  fix i and mb :: MailBox
  assume i: "slot s i = Some mb"
    and s': "s' = put_slot i (mb\<lparr>rx_suspended := 1, sus_end_p := who, sus_m_source := m_source m_in,
              sus_message := (sus_message mb)\<lparr>m7_p1 := m7_p1 m_in\<rparr>\<rparr>) s"
  show ?thesis unfolding s' using i slot_put [OF assms(1) i] by simp
next
  fix i buf f p and m :: Message_mb and mb mb' :: MailBox
  assume i: "slot s i = Some mb"
    and mb': "mb' = mb\<lparr>front := f, rear := p, num_messages := num_messages mb - 1\<rparr>"
    and s': "s' = emit [CopyOut (m_source m_in) (m7_p1 m_in) (Bytes buf)]
              (put_slot i (mb'\<lparr>rx_suspended := 0\<rparr>) s)"
  have "susContext s' = susContext s" "effs s' = effs s @ [CopyOut (m_source m_in) (m7_p1 m_in) (Bytes buf)]"
    by (simp_all add: s' emit_def)
  moreover have "slot s' = (slot s)(i \<mapsto> mb'\<lparr>rx_suspended := 0\<rparr>)"
    unfolding s' using slot_put [OF assms(1) i] by (simp add: fun_eq_iff)
  ultimately show ?thesis using i mb' by simp
qed

theorem retrieve_resumes_nobody_witness:
  "\<exists>s'. do_retrieve (\<lambda>_. NUL) 7 (demo_message\<lparr>m7_i1 := 108\<rparr>) demo = Inr (Ret 0, s') \<and>
     susContext s' = susContext demo"
proof -
  have o: "owner_slot demo (m7_i1 (demo_message\<lparr>m7_i1 := 108\<rparr>)) = Some 8"
    using demo_owner [of 8] by simp
  show ?thesis
    by (rule retrieve_some [OF demo_ok demo_populated o demo_items8 demo_msg_ok, where junk = "\<lambda>_. NUL" and who = 7])
      (use retrieve_resumes_nobody [OF demo_ok] in blast)
qed

text \<open>
  A deposit to a receiver that waits copies the message out and answers the receiver, but
  leaves it marked as waiting: a second deposit answers the same receiver again and its
  message reaches no queue. (The source resets the flag with \<open>==\<close> in place of \<open>=\<close>.)
\<close>

theorem second_deposit_bypasses_queue:
  assumes "vfs_ok s" and "populated s" and "0 < d" and "owner_slot s d = Some i"
    and "slot s i = Some m" and "m7_i1 m_in \<in> set (registered m)" and "rx_suspended m = 1"
    and "length (items_at s i) < 10"
  shows "\<exists>s1 s2. do_deposit fpe junk who [d, -1] b1 m_in s = Inr (Ret 0, s1) \<and>
    do_deposit fpe junk who [d, -1] b2 m_in s1 = Inr (Ret 0, s2) \<and> items_at s2 = items_at s \<and>
    effs s2 = effs s @ concat (map (\<lambda>b. [Revive (sus_end_p m),
        CopyOut (sus_m_source m) (m7_p1 (sus_message m)) (Bytes b), Reply (fpe (sus_end_p m)) 0]) [b1, b2])"
proof -
  let ?msg = "\<lambda>b. \<lparr>data = b, sender_id = m7_i1 m_in\<rparr>"
  let ?es = "\<lambda>b. [Revive (sus_end_p m), CopyOut (sus_m_source m) (m7_p1 (sus_message m)) (Bytes b),
        Reply (fpe (sus_end_p m)) 0]"
  have one: "\<exists>t. do_deposit fpe junk who [d, -1] b m_in r = Inr (Ret 0, t) \<and> vfs_ok t \<and>
      slot t = slot r \<and> items_at t = items_at r \<and> effs t = effs r @ ?es b"
    if r: "vfs_ok r" "populated r" "owner_slot r d = Some i" "slot r i = Some m" "length (items_at r i) < 10" for r b
  proof (rule deposit_waiting [OF r(1,2) assms(3) r(3,4) assms(6,7) r(5), where fpe = fpe and msg = "?msg b"])
    fix t
    assume step: "\<And>ds sus. deposit_loop fpe (m7_i1 m_in) (?msg b) (d # ds) sus r =
        deposit_loop fpe (m7_i1 m_in) (?msg b) ds sus t"
      and t: "vfs_ok t" "slot t = slot r" "items_at t = items_at r"
        "effs t = effs r @ [Revive (sus_end_p m),
          CopyOut (sus_m_source m) (m7_p1 (sus_message m)) (Bytes (data (?msg b))), Reply (fpe (sus_end_p m)) 0]"
    have "deposit_loop fpe (m7_i1 m_in) (?msg b) [d, -1] [] r = Inr (None, [], t)"
      unfolding step by simp
    then have "do_deposit fpe junk who [d, -1] b m_in r = Inr (Ret 0, t)" by (rule do_deposit_plain)
    with t show ?thesis by auto
  qed
  from one [OF assms(1,2,4,5,8), of b1] obtain s1 where
    s1: "do_deposit fpe junk who [d, -1] b1 m_in s = Inr (Ret 0, s1)" "vfs_ok s1" "slot s1 = slot s"
      "items_at s1 = items_at s" "effs s1 = effs s @ ?es b1" by blast
  have "populated s1" "owner_slot s1 = owner_slot s"
    using assms(2) by (simp_all add: populated_def owner_slot_def s1(3) fun_eq_iff)
  with one [of s1 b2] s1 assms(4,5,8) show ?thesis by auto
qed

theorem second_deposit_bypasses_queue_witness:
  "\<exists>s1 s2. do_deposit (\<lambda>i. i) 0 7 [102, -1] ''a'' (demo_message\<lparr>m7_i1 := 200\<rparr>) demo = Inr (Ret 0, s1) \<and>
     do_deposit (\<lambda>i. i) 0 7 [102, -1] ''b'' (demo_message\<lparr>m7_i1 := 200\<rparr>) s1 = Inr (Ret 0, s2) \<and>
     items_at s2 2 = []"
proof -
  have o: "owner_slot demo 102 = Some 2" using demo_owner [of 2] by simp
  have s: "slot demo 2 = Some (demo_mb 2)" by (simp add: demo_slot)
  have r: "m7_i1 (demo_message\<lparr>m7_i1 := 200\<rparr>) \<in> set (registered (demo_mb 2))" by simp
  have i: "items_at demo 2 = []" by (simp add: demo_items)
  show ?thesis
    using second_deposit_bypasses_queue [OF demo_ok demo_populated _ o s r, of "\<lambda>i. i" 0 7 "''a''" "''b''"] i
    by auto
qed

end
