(* ===== verification/MbLib.thy ===== *)
theory MbLib
  imports MbProps
begin

text \<open>
  The client library of the mailboxes (prj_2/src/mailbox_lib.c), the call numbers
  (prj_2/src/callnr.h) and the call table of VFS (prj_2/src/table.c), put together with the
  handlers. The trap into the kernel, which delivers the message and adds its source, is the
  step from a library call to \<open>serve\<close>.
\<close>

section \<open>Call numbers and the call table\<close>

definition NCALLS :: nat where "NCALLS = 114"
definition DEPOSIT :: nat where "DEPOSIT = 97"
definition RETRIEVE :: nat where "RETRIEVE = 103"
definition CREATE_MB :: nat where "CREATE_MB = 105"
definition DESTROY_MB :: nat where "DESTROY_MB = 79"
definition GET_AV_MB :: nat where "GET_AV_MB = 108"
definition REGISTER :: nat where "REGISTER = 109"
definition GET_SENDERS :: nat where "GET_SENDERS = 110"

lemmas call_numbers =
  DEPOSIT_def RETRIEVE_def CREATE_MB_def DESTROY_MB_def GET_AV_MB_def REGISTER_def GET_SENDERS_def

text \<open>The handlers by their names; entry n serves call n.\<close>

definition call_vec :: "string list" where
  "call_vec =
     [''no_sys'', ''no_sys'', ''no_sys'', ''do_read'', ''do_write'', ''do_open'',
      ''do_close'', ''no_sys'', ''do_creat'', ''do_link'', ''do_unlink'', ''no_sys'',
      ''do_chdir'', ''no_sys'', ''do_mknod'', ''do_chmod'', ''do_chown'', ''no_sys'',
      ''do_stat'', ''do_lseek'', ''no_sys'', ''do_mount'', ''do_umount'', ''no_sys'',
      ''no_sys'', ''no_sys'', ''no_sys'', ''no_sys'', ''do_fstat'', ''no_sys'',
      ''do_utime'', ''no_sys'', ''no_sys'', ''do_access'', ''no_sys'', ''no_sys'',
      ''do_sync'', ''no_sys'', ''do_rename'', ''do_mkdir'', ''do_unlink'', ''do_dup'',
      ''do_pipe'', ''no_sys'', ''no_sys'', ''do_slink'', ''no_sys'', ''no_sys'',
      ''no_sys'', ''do_rdlink'', ''do_lstat'', ''do_stat'', ''do_fstat'', ''do_lstat'',
      ''do_ioctl'', ''do_fcntl'', ''no_sys'', ''do_fsready'', ''no_sys'', ''no_sys'',
      ''do_umask'', ''do_chroot'', ''no_sys'', ''no_sys'', ''no_sys'', ''do_stat'',
      ''do_fstat'', ''do_lstat'', ''no_sys'', ''no_sys'', ''no_sys'', ''no_sys'',
      ''no_sys'', ''no_sys'', ''no_sys'', ''no_sys'', ''no_sys'', ''do_svrctl'',
      ''no_sys'', ''do_destroy_mailbox'', ''do_getdents'', ''do_llseek'', ''do_fstatfs'', ''do_statvfs'',
      ''do_fstatvfs'', ''do_select'', ''do_fchdir'', ''do_fsync'', ''no_sys'', ''no_sys'',
      ''no_sys'', ''no_sys'', ''no_sys'', ''do_truncate'', ''do_ftruncate'', ''do_chmod'',
      ''do_chown'', ''do_deposit'', ''no_sys'', ''no_sys'', ''no_sys'', ''no_sys'',
      ''no_sys'', ''do_retrieve'', ''no_sys'', ''do_create_mailbox'', ''no_sys'', ''no_sys'',
      ''do_get_av_mailboxes'', ''do_register_mb'', ''do_get_senders'', ''no_sys'', ''do_gcov_flush'', ''no_sys'']"

section \<open>The library\<close>

text \<open>
  A library function fills in a message on its stack and traps with a call number. \<open>stack\<close> is
  what the message holds before, \<open>source\<close> the endpoint the kernel writes into it.
\<close>

record client =
  getpid :: int
  getuid :: int
  getgid :: int
  endpoint :: int
  stack :: message

definition mes :: "client \<Rightarrow> message" where
  "mes c = (stack c)\<lparr>m_source := endpoint c, m7_i1 := getpid c\<rparr>"

definition mes_ids :: "client \<Rightarrow> message" where
  "mes_ids c = (mes c)\<lparr>m7_i2 := getuid c, m7_i3 := getgid c\<rparr>"

definition lib_deposit :: "client \<Rightarrow> int \<Rightarrow> int \<Rightarrow> nat \<times> message" where
  "lib_deposit c dst msg = (DEPOSIT, (mes c)\<lparr>m7_p1 := msg, m7_p2 := dst\<rparr>)"

definition lib_retrieve :: "client \<Rightarrow> int \<Rightarrow> int \<Rightarrow> nat \<times> message" where
  "lib_retrieve c source msg = (RETRIEVE, (mes c)\<lparr>m7_p1 := msg\<rparr>)"

definition lib_create_mailbox :: "client \<Rightarrow> int \<Rightarrow> nat \<times> message" where
  "lib_create_mailbox c permissions = (CREATE_MB, (mes_ids c)\<lparr>m7_i4 := permissions\<rparr>)"

definition lib_destroy_mailbox :: "client \<Rightarrow> int \<Rightarrow> nat \<times> message" where
  "lib_destroy_mailbox c i = (DESTROY_MB, (mes c)\<lparr>m7_i4 := i\<rparr>)"

definition lib_get_av_mailboxes :: "client \<Rightarrow> int \<Rightarrow> nat \<times> message" where
  "lib_get_av_mailboxes c mb_list = (GET_AV_MB, (mes_ids c)\<lparr>m7_p1 := mb_list\<rparr>)"

definition lib_register_mb :: "client \<Rightarrow> int \<Rightarrow> nat \<times> message" where
  "lib_register_mb c i = (REGISTER, (mes_ids c)\<lparr>m7_i4 := i\<rparr>)"

definition lib_get_senders :: "client \<Rightarrow> int \<Rightarrow> int \<Rightarrow> nat \<times> message" where
  "lib_get_senders c i sender_list = (GET_SENDERS, (mes c)\<lparr>m7_i4 := i, m7_p1 := sender_list\<rparr>)"

text \<open>
  What deposit returns to its caller: \<open>r\<close> is the result of the trap and \<open>dst0\<close> the first entry
  of the destination list after it, where the server reports a deadlock. There is no return
  statement for another result than 0 (None).
\<close>

definition deposit_result :: "int \<Rightarrow> int \<Rightarrow> int option" where
  "deposit_result r dst0 = (if r = 0 then (if dst0 < 0 then Some dst0 else Some r) else None)"

section \<open>Serving a call\<close>

text \<open>What the handlers take from their surroundings.\<close>

record surroundings =
  fresh_mailbox :: MailBox
  fproc_endpt :: "int \<Rightarrow> int"
  stack_int :: int
  who_p :: int
  rx_pid :: int
  list_junk :: "nat \<Rightarrow> int"
  block_junk :: "nat \<Rightarrow> char"
  ints_at :: "int \<Rightarrow> int list"
  bytes_at :: "int \<Rightarrow> char list"

definition plain_answer :: "(int \<times> vfs) res \<Rightarrow> (answer \<times> vfs) res" where
  "plain_answer r = bnd r (\<lambda>(v, s). Inr (Ret v, s))"

text \<open>
  The handler the table has for a call; None is a handler that is not one of the mailbox
  server. \<open>ints_at\<close> and \<open>bytes_at\<close> are what sys_datacopy reads from the caller.
\<close>

definition serve :: "surroundings \<Rightarrow> nat \<times> message \<Rightarrow> vfs \<Rightarrow> (answer \<times> vfs) res option" where
  "serve sr call s =
     (let nr = fst call; m_in = snd call; h = call_vec ! nr
      in if length call_vec \<le> nr then None
         else if h = ''do_deposit'' then
           Some (do_deposit (fproc_endpt sr) (stack_int sr) (who_p sr) (ints_at sr (m7_p2 m_in))
                   (bytes_at sr (m7_p1 m_in)) m_in s)
         else if h = ''do_retrieve'' then Some (do_retrieve (block_junk sr) (who_p sr) m_in s)
         else if h = ''do_create_mailbox'' then Some (plain_answer (do_create_mailbox (fresh_mailbox sr) m_in s))
         else if h = ''do_destroy_mailbox'' then Some (plain_answer (do_destroy_mailbox m_in s))
         else if h = ''do_get_av_mailboxes'' then Some (plain_answer (do_get_av_mailboxes m_in s))
         else if h = ''do_register_mb'' then Some (plain_answer (do_register_mb m_in s))
         else if h = ''do_get_senders'' then Some (plain_answer (do_get_senders (rx_pid sr) (list_junk sr) m_in s))
         else None)"

lemma call_vec_entries:
  "length call_vec = NCALLS"
  "call_vec ! DEPOSIT = ''do_deposit''" "call_vec ! RETRIEVE = ''do_retrieve''"
  "call_vec ! CREATE_MB = ''do_create_mailbox''" "call_vec ! DESTROY_MB = ''do_destroy_mailbox''"
  "call_vec ! GET_AV_MB = ''do_get_av_mailboxes''" "call_vec ! REGISTER = ''do_register_mb''"
  "call_vec ! GET_SENDERS = ''do_get_senders''"
  by code_simp+

lemma numbers_in_table:
  "DEPOSIT < NCALLS" "RETRIEVE < NCALLS" "CREATE_MB < NCALLS" "DESTROY_MB < NCALLS" "GET_AV_MB < NCALLS"
  "REGISTER < NCALLS" "GET_SENDERS < NCALLS"
  by (simp_all add: call_numbers NCALLS_def)

text \<open>Each library function reaches its handler.\<close>

lemma serve_library:
  "serve sr (lib_deposit c dst msg) s = Some (do_deposit (fproc_endpt sr) (stack_int sr) (who_p sr)
     (ints_at sr dst) (bytes_at sr msg) ((mes c)\<lparr>m7_p1 := msg, m7_p2 := dst\<rparr>) s)"
  "serve sr (lib_retrieve c source msg) s = Some (do_retrieve (block_junk sr) (who_p sr) ((mes c)\<lparr>m7_p1 := msg\<rparr>) s)"
  "serve sr (lib_create_mailbox c p) s =
     Some (plain_answer (do_create_mailbox (fresh_mailbox sr) ((mes_ids c)\<lparr>m7_i4 := p\<rparr>) s))"
  "serve sr (lib_destroy_mailbox c i) s = Some (plain_answer (do_destroy_mailbox ((mes c)\<lparr>m7_i4 := i\<rparr>) s))"
  "serve sr (lib_get_av_mailboxes c l) s = Some (plain_answer (do_get_av_mailboxes ((mes_ids c)\<lparr>m7_p1 := l\<rparr>) s))"
  "serve sr (lib_register_mb c i) s = Some (plain_answer (do_register_mb ((mes_ids c)\<lparr>m7_i4 := i\<rparr>) s))"
  "serve sr (lib_get_senders c i l) s =
     Some (plain_answer (do_get_senders (rx_pid sr) (list_junk sr) ((mes c)\<lparr>m7_i4 := i, m7_p1 := l\<rparr>) s))"
  by (simp_all add: serve_def Let_def call_vec_entries numbers_in_table not_le lib_deposit_def lib_retrieve_def
      lib_create_mailbox_def lib_destroy_mailbox_def lib_get_av_mailboxes_def lib_register_mb_def lib_get_senders_def)

section \<open>Properties\<close>

text \<open>
  C8. Round trip from library call to library call: when a process deposits a string to a
  mailbox that is empty and takes messages from it, deposit returns 0, and the owner's next
  retrieve returns 0 and brings that string to the address it passed.
\<close>

theorem library_roundtrip:
  assumes "vfs_ok s" and "populated s" and "takes s (getpid tx) (getpid rx)"
    and "owner_slot s (getpid rx) = Some i" and "items_at s i = []"
    and "ints_at sr dst = [getpid rx, -1]" and "length (bytes_at sr msg) = 256" and "NUL \<in> set (bytes_at sr msg)"
  shows "\<exists>s1 s2 buf. serve sr (lib_deposit tx dst msg) s = Some (Inr (Ret 0, s1)) \<and>
    deposit_result 0 (getpid rx) = Some 0 \<and>
    serve sr (lib_retrieve rx source dest) s1 = Some (Inr (Ret 0, s2)) \<and> items_at s2 i = [] \<and>
    effs s2 = effs s @ [CopyOut (endpoint rx) dest (Bytes buf)] \<and> cstr buf = cstr (bytes_at sr msg)"
proof -
  have "0 < getpid rx" using assms(3,4) by (rule_tac takesE) auto
  then have r: "deposit_result 0 (getpid rx) = Some 0" by (simp add: deposit_result_def)
  have p: "m7_i1 ((mes tx)\<lparr>m7_p1 := msg, m7_p2 := dst\<rparr>) = getpid tx" "m7_i1 ((mes rx)\<lparr>m7_p1 := dest\<rparr>) = getpid rx"
    "m_source ((mes rx)\<lparr>m7_p1 := dest\<rparr>) = endpoint rx" by (simp_all add: mes_def)
  from deposit_retrieve_law [OF assms(1,2) assms(3) [folded p(1)] assms(4,5,7,8) p(2),
      of "fproc_endpt sr" "stack_int sr" "who_p sr" "block_junk sr" "who_p sr"]
  show ?thesis by (simp add: serve_library assms(6) r p)
qed

text \<open>The demo server of ten mailboxes, its owner 104 and its sender 200.\<close>

definition demo_client :: "int \<Rightarrow> client" where
  "demo_client p = \<lparr>getpid = p, getuid = 1, getgid = 1, endpoint = 1000 + p, stack = demo_message\<rparr>"

definition demo_surroundings :: surroundings where
  "demo_surroundings = \<lparr>fresh_mailbox = demo_mb 0, fproc_endpt = \<lambda>i. i, stack_int = 0, who_p = 7, rx_pid = 0,
     list_junk = \<lambda>_. 0, block_junk = \<lambda>_. CHR ''x'', ints_at = \<lambda>_. [104, -1],
     bytes_at = \<lambda>_. ''hi'' @ replicate 254 NUL\<rparr>"

theorem library_roundtrip_witness:
  "\<exists>s1 s2 buf. serve demo_surroundings (lib_deposit (demo_client 200) 16 32) demo = Some (Inr (Ret 0, s1)) \<and>
     serve demo_surroundings (lib_retrieve (demo_client 104) 0 64) s1 = Some (Inr (Ret 0, s2)) \<and>
     effs s2 = [CopyOut 1104 64 (Bytes buf)] \<and> cstr buf = ''hi''"
proof -
  have t: "takes demo (getpid (demo_client 200)) (getpid (demo_client 104))"
    "owner_slot demo (getpid (demo_client 104)) = Some 4"
    using demo_takes [of 4] demo_owner [of 4] by (simp_all add: demo_client_def)
  have i: "items_at demo 4 = []" by (simp add: demo_items)
  have b: "ints_at demo_surroundings 16 = [getpid (demo_client 104), -1]" "length (bytes_at demo_surroundings 32) = 256"
    "NUL \<in> set (bytes_at demo_surroundings 32)" "cstr (bytes_at demo_surroundings 32) = ''hi''"
    by (simp_all add: demo_surroundings_def demo_client_def cstr_def takeWhile_replicate)
  have e: "effs demo = []" "endpoint (demo_client 104) = 1104" by (simp_all add: demo_def demo_client_def)
  from library_roundtrip [OF demo_ok demo_populated t i b(1-3), of 0 64] show ?thesis
    unfolding e b(4) by auto
qed

end
