(* ===== verification/MbBoxes.thy ===== *)
theory MbBoxes
  imports MbDemo
begin

text \<open>
  The mailbox server without pointers, nodes and tables (prj_2/src/mailbox.c): ten boxes with a
  list of strings in each, and the waits of blocked senders. This theory states what each call
  answers, sends and keeps, and how a state of the server is read as boxes; MbServer shows that
  the handlers do what is stated here. A session is a list of calls.
\<close>

section \<open>Sessions\<close>

text \<open>
  A call with what it brings along: the fresh block of a creation; the indeterminate values of do_get_senders; the process slot of the
  caller, the indeterminate value for indicate_deadlock, the destinations and the bytes of a
  deposit; the fresh block and the process slot of a retrieval.
\<close>

datatype mb_call =
    CreateMb MailBox message
  | DestroyMb message
  | RegisterMb message
  | ListMbs message
  | SendersMb int "nat \<Rightarrow> int" message
  | DepositMb int int "int list" "char list" message
  | RetrieveMb "nat \<Rightarrow> char" int message

definition returns :: "(int \<times> vfs) res \<Rightarrow> (answer \<times> vfs) res" where
  "returns r = bnd r (\<lambda>(x, s). Inr (Ret x, s))"

fun handle :: "(int \<Rightarrow> int) \<Rightarrow> mb_call \<Rightarrow> vfs \<Rightarrow> (answer \<times> vfs) res" where
  "handle fpe (CreateMb block m) s = returns (do_create_mailbox block m s)"
| "handle fpe (DestroyMb m) s = returns (do_destroy_mailbox m s)"
| "handle fpe (RegisterMb m) s = returns (do_register_mb m s)"
| "handle fpe (ListMbs m) s = returns (do_get_av_mailboxes m s)"
| "handle fpe (SendersMb rx junk m) s = returns (do_get_senders rx junk m s)"
| "handle fpe (DepositMb who junk dest bytes m) s = do_deposit fpe junk who dest bytes m s"
| "handle fpe (RetrieveMb junk who m) s = do_retrieve junk who m s"

fun run_server :: "(int \<Rightarrow> int) \<Rightarrow> mb_call list \<Rightarrow> vfs \<Rightarrow> (answer list \<times> vfs) res" where
  "run_server fpe [] s = Inr ([], s)"
| "run_server fpe (c # cs) s =
     bnd (handle fpe c s) (\<lambda>(a, s1). bnd (run_server fpe cs s1) (\<lambda>(as, s2). Inr (a # as, s2)))"

section \<open>The specification\<close>

text \<open>
  A box: whether it is live, its owner and rights, the senders registered, the receiver that
  waits (process slot, endpoint, address), how many senders it has blocked so far, and the mail,
  oldest first, with its senders. Beside the boxes the server keeps the waits of the senders it
  has blocked, under the boxes they own.
\<close>

record box =
  b_live :: bool
  b_owner :: int
  b_uid :: int
  b_gid :: int
  b_perm :: int
  b_senders :: "int list"
  b_waits :: "(int \<times> int \<times> int) option"
  b_blocked :: nat
  b_mail :: "(int \<times> string) list"

type_synonym boxes = "nat \<Rightarrow> box option"
type_synonym mb_view = "boxes \<times> (nat \<Rightarrow> waiting option)"

definition owned :: "boxes \<Rightarrow> int \<Rightarrow> nat option" where
  "owned B pid = find (\<lambda>i. case B i of None \<Rightarrow> False | Some b \<Rightarrow> b_owner b = pid) [0..<MAX_MAILBOXES]"

definition allows :: "box \<Rightarrow> int \<Rightarrow> int \<Rightarrow> bool" where
  "allows b uid gid \<longleftrightarrow> and (b_perm b) 1 \<noteq> 0 \<or> (and (b_perm b) 2 \<noteq> 0 \<and> b_gid b = gid) \<or>
     (and (b_perm b) 4 \<noteq> 0 \<and> b_uid b = uid)"

definition listed_boxes :: "boxes \<Rightarrow> int \<Rightarrow> int \<Rightarrow> nat list \<Rightarrow> int list" where
  "listed_boxes B uid gid is = concat (map (\<lambda>i. case B i of
       None \<Rightarrow> []
     | Some b \<Rightarrow> if allows b uid gid then [if b_live b then int i else -1, b_owner b] else []) is)"

text \<open>
  A string to one destination after the other, with the full boxes met so far. The answer is an
  error code, or none. A box that has blocked ten senders has no room for the name of another.
\<close>

fun put_all ::
    "(int \<Rightarrow> int) \<Rightarrow> int \<Rightarrow> string \<Rightarrow> int list \<Rightarrow> nat list \<Rightarrow> boxes
      \<Rightarrow> (int option \<times> nat list \<times> effect list \<times> boxes) option" where
  "put_all fpe pid str [] full B = Some (None, full, [], B)"
| "put_all fpe pid str (d # ds) full B =
     (if d \<le> 0 then Some (None, full, [], B)
      else case owned B d of
        None \<Rightarrow> Some (Some (-3), full, [], B)
      | Some i \<Rightarrow> (case B i of
          None \<Rightarrow> None
        | Some b \<Rightarrow>
            if pid \<notin> set (b_senders b) then Some (Some (-5), full, [], B)
            else if 10 \<le> length (b_mail b) then
              (if b_blocked b < 10 \<and> length full < 10
               then put_all fpe pid str ds (full @ [i]) (B(i \<mapsto> b\<lparr>b_blocked := Suc (b_blocked b)\<rparr>))
               else None)
            else (case b_waits b of
                Some (e, src, a) \<Rightarrow>
                  map_option (\<lambda>(r, full', es, B').
                      (r, full', [Revive e, CopyOut src a (Bytes str), Reply (fpe e) 0] @ es, B'))
                    (put_all fpe pid str ds full B)
              | None \<Rightarrow> put_all fpe pid str ds full (B(i \<mapsto> b\<lparr>b_mail := b_mail b @ [(pid, str)]\<rparr>)))))"

text \<open>A deposit. A sender that met full boxes waits, if it owns a box itself, for the first.\<close>

definition deposit_call ::
    "(int \<Rightarrow> int) \<Rightarrow> int \<Rightarrow> int list \<Rightarrow> string \<Rightarrow> message \<Rightarrow> mb_view
      \<Rightarrow> (answer \<times> effect list \<times> mb_view) option" where
  "deposit_call fpe who dest str m v =
     (case put_all fpe (m7_i1 m) str dest [] (fst v) of
        None \<Rightarrow> None
      | Some (Some c, full, es, B) \<Rightarrow> Some (Ret c, es, B, snd v)
      | Some (None, full, es, B) \<Rightarrow>
          if full = [] then Some (Ret 0, es, B, snd v)
          else (case owned B (m7_i1 m) of
              None \<Rightarrow> None
            | Some i \<Rightarrow>
                map_option (\<lambda>(a, es', W). (a, es @ es', B, W))
                  (block_sender fpe i
                     \<lparr>w_for = Some (hd full), w_who = who, w_source = m_source m, w_addr = m7_p2 m\<rparr> (snd v))))"

text \<open>
  The answer, the effects and the boxes after another call. None where the specification does
  not say: a fresh block with a wild pointer, ids out of range, ten mailboxes or ten senders to list.
\<close>

fun box_call :: "mb_call \<Rightarrow> boxes \<Rightarrow> (answer \<times> effect list \<times> boxes) option" where
  "box_call (CreateMb block m) B =
     (if front block \<noteq> NULL then None
      else case find (\<lambda>i. case B i of None \<Rightarrow> True | Some b \<Rightarrow> \<not> b_live b) [0..<MAX_MAILBOXES] of
        None \<Rightarrow> Some (Ret (-1), [], B)
      | Some i \<Rightarrow> Some (Ret (int i), [], B(i \<mapsto>
          \<lparr>b_live = True, b_owner = m7_i1 m, b_uid = m7_i2 m, b_gid = m7_i3 m, b_perm = m7_i4 m,
           b_senders = [], b_waits = None, b_blocked = 0, b_mail = []\<rparr>)))"
| "box_call (DestroyMb m) B =
     (if m7_i4 m < 0 then None
      else case B (nat (m7_i4 m)) of
        None \<Rightarrow> Some (Ret 0, [], B)
      | Some b \<Rightarrow> Some (Ret (if b_live b then 0 else -1), [],
          B(nat (m7_i4 m) \<mapsto> b\<lparr>b_live := False, b_owner := -1, b_mail := []\<rparr>)))"
| "box_call (RegisterMb m) B =
     (if m7_i4 m < 0 \<or> m7_i1 m = -1 then None
      else case B (nat (m7_i4 m)) of
        None \<Rightarrow> None
      | Some b \<Rightarrow>
          if \<not> allows b (m7_i2 m) (m7_i3 m) then Some (Ret (-1), [], B)
          else if m7_i1 m \<in> set (b_senders b) then Some (Ret (-2), [], B)
          else if length (b_senders b) = MAX_SENDERS then Some (Ret (-1), [], B)
          else Some (Ret 0, [], B(nat (m7_i4 m) \<mapsto> b\<lparr>b_senders := b_senders b @ [m7_i1 m]\<rparr>)))"
| "box_call (ListMbs m) B =
     (let ps = listed_boxes B (m7_i2 m) (m7_i3 m) [0..<MAX_MAILBOXES]
      in if length ps < 20 then Some (Ret 0, [CopyOut (m_source m) (m7_p1 m) (Ints (ps @ [-1, -1]))], B) else None)"
| "box_call (SendersMb rx junk m) B =
     (if m7_i4 m < 0 \<or> 10 \<le> m7_i4 m then None
      else case B (nat (m7_i4 m)) of
        None \<Rightarrow> Some (Ret (-1), [], B)
      | Some b \<Rightarrow>
          if b_owner b \<noteq> rx then Some (Ret (-1), [], B)
          else (let ps = filter (\<lambda>p. 0 \<le> p) (b_senders b)
                in if length ps = 10 then None
                   else Some (Ret 0, [CopyOut (m_source m) (m7_p1 m) (Ints (ps @ [junk (length ps)]))], B)))"
| "box_call (DepositMb who junk dest bytes m) B = None"
| "box_call (RetrieveMb junk who m) B =
     (case owned B (m7_i1 m) of
        None \<Rightarrow> Some (Ret (-1), [], B)
      | Some i \<Rightarrow> (case B i of
          None \<Rightarrow> None
        | Some b \<Rightarrow> (case b_mail b of
            [] \<Rightarrow> Some (SUSPEND, [], B(i \<mapsto> b\<lparr>b_waits := Some (who, m_source m, m7_p1 m)\<rparr>))
          | (pid, str) # ms \<Rightarrow> Some (Ret 0, [CopyOut (m_source m) (m7_p1 m) (Bytes str)],
              B(i \<mapsto> b\<lparr>b_mail := ms, b_waits := None\<rparr>)))))"

text \<open>
  Any call, over the boxes and the waits. None also for a deposit without a NUL, for one that
  meets a full box and comes from a process without a box, and where a circle of waits is longer
  than two.
\<close>

fun spec_call :: "(int \<Rightarrow> int) \<Rightarrow> mb_call \<Rightarrow> mb_view \<Rightarrow> (answer \<times> effect list \<times> mb_view) option" where
  "spec_call fpe (DepositMb who junk dest bytes m) v =
     (if length bytes = 256 \<and> NUL \<in> set bytes then deposit_call fpe who dest (cstr bytes) m v else None)"
| "spec_call fpe c v = map_option (\<lambda>(a, es, B). (a, es, B, snd v)) (box_call c (fst v))"

fun run_spec :: "(int \<Rightarrow> int) \<Rightarrow> mb_call list \<Rightarrow> mb_view \<Rightarrow> (answer list \<times> effect list \<times> mb_view) option" where
  "run_spec fpe [] B = Some ([], [], B)"
| "run_spec fpe (c # cs) B =
     (case spec_call fpe c B of
        None \<Rightarrow> None
      | Some (a, es, B1) \<Rightarrow> map_option (\<lambda>(as, es', B2). (a # as, es @ es', B2)) (run_spec fpe cs B1))"

section \<open>Abstraction\<close>

definition box_of :: "MailBox \<Rightarrow> Message_mb list \<Rightarrow> box" where
  "box_of mb ms = \<lparr>b_live = live mb, b_owner = owner_pid mb, b_uid = owner_uid mb, b_gid = owner_gid mb,
     b_perm = perm mb, b_senders = registered mb,
     b_waits = (if rx_suspended mb = 1 then Some (sus_end_p mb, sus_m_source mb, m7_p1 (sus_message mb)) else None),
     b_blocked = nat (sus_sender_idx mb), b_mail = map (\<lambda>m. (sender_id m, cstr (data m))) ms\<rparr>"

definition boxes_of :: "vfs \<Rightarrow> boxes" where
  "boxes_of s = (\<lambda>i. map_option (\<lambda>mb. box_of mb (items_at s i)) (slot s i))"

definition view :: "vfs \<Rightarrow> mb_view" where
  "view s = (boxes_of s, waits_of s)"

text \<open>Of the bytes copied to a process, the string in front of the first NUL counts.\<close>

fun seen :: "effect \<Rightarrow> effect" where
  "seen (CopyOut e a (Bytes bs)) = CopyOut e a (Bytes (cstr bs))"
| "seen x = x"

definition serving :: "vfs \<Rightarrow> bool" where
  "serving s \<longleftrightarrow> vfs_ok s \<and> populated s \<and> (\<forall>i. list_all msg_ok (items_at s i))"

lemma box_of_simps [simp]:
  "b_live (box_of mb ms) = live mb" "b_owner (box_of mb ms) = owner_pid mb"
  "b_senders (box_of mb ms) = registered mb" "b_mail (box_of mb ms) = map (\<lambda>m. (sender_id m, cstr (data m))) ms"
  "b_waits (box_of mb ms) =
     (if rx_suspended mb = 1 then Some (sus_end_p mb, sus_m_source mb, m7_p1 (sus_message mb)) else None)"
  "b_blocked (box_of mb ms) = nat (sus_sender_idx mb)"
  "allows (box_of mb ms) uid gid = authorised mb uid gid"
  by (simp_all add: box_of_def allows_def authorised_def EVERYONE_def GROUP_def USER_def)

lemma boxes_at [simp]: "slot s i = Some mb \<Longrightarrow> boxes_of s i = Some (box_of mb (items_at s i))"
  "slot s i = None \<Longrightarrow> boxes_of s i = None"
  by (simp_all add: boxes_of_def)

lemma owned_boxes: "owned (boxes_of s) pid = owner_slot s pid"
  unfolding owned_def owner_slot_def by (rule find_cong) (auto simp: boxes_of_def split: option.splits)

lemma boxes_update:
  "slot s' = (slot s)(i \<mapsto> mb) \<Longrightarrow> items_at s' = (items_at s)(i := ms) \<Longrightarrow> boxes_of s' = (boxes_of s)(i \<mapsto> box_of mb ms)"
  by (auto simp: boxes_of_def fun_eq_iff)

lemma boxes_same: "slot s' = slot s \<Longrightarrow> items_at s' = items_at s \<Longrightarrow> boxes_of s' = boxes_of s"
  by (simp add: boxes_of_def)

lemma serving_update:
  assumes "serving s" and "vfs_ok s'" and "slot s' = (slot s)(i \<mapsto> mb)" and "items_at s' = (items_at s)(i := ms)"
    and "list_all msg_ok ms"
  shows "serving s'"
  using assms populated_update [OF assms(3)] by (auto simp: serving_def)

end
