(* ===== verification/MbServer.thy ===== *)
theory MbServer
  imports MbBoxes
begin

text \<open>
  The handlers of the mailbox server (prj_2/src/mailbox.c) refine the specification of MbBoxes:
  call by call, and over sessions of any length.
\<close>

section \<open>Every call\<close>

lemma set_mb_effs: "set_mb s i mb = Inr s' \<Longrightarrow> effs s' = effs s"
  by (auto simp: set_mb_def guard_simps split: option.splits if_splits)

lemma id_effs:
  "effs (snd (get_free_id s)) = effs s" "set_free_id i s = (r, s1) \<Longrightarrow> effs s1 = effs s"
  by (auto simp: get_free_id_def set_free_id_def Let_def simp del: upt_rec_numeral split: option.split if_splits)

lemma set_sender_local_id_effs: "set_sender_local_id s pid = Inr (r, s') \<Longrightarrow> effs s' = effs s"
  by (auto simp: set_sender_local_id_def bnd_eq_Inr simp del: upt_rec_numeral split: if_splits option.splits)

lemma tables_keep_effs:
  "do_create_mailbox block m s = Inr (r, s') \<Longrightarrow> effs s' = effs s"
  "do_destroy_mailbox m s = Inr (r, s') \<Longrightarrow> effs s' = effs s"
  "do_register_mb m s = Inr (r, s') \<Longrightarrow> effs s' = effs s"
proof -
  have add: "effs s2 = effs s1" if "addMailBox mb s1 = Inr (i, s2)" for mb i and s1 s2 :: vfs
    using that id_effs(1) [of s1]
    by (auto simp: addMailBox_def bnd_eq_Inr dest!: set_mb_effs split: prod.splits if_splits)
  show "do_create_mailbox block m s = Inr (r, s') \<Longrightarrow> effs s' = effs s"
    by (auto simp: do_create_mailbox_def create_mailbox_def Let_def bnd_eq_Inr dest!: add set_mb_effs split: if_splits)
  show "do_destroy_mailbox m s = Inr (r, s') \<Longrightarrow> effs s' = effs s"
    by (auto simp: do_destroy_mailbox_def Let_def bnd_eq_Inr dest!: set_mb_effs id_effs(2) split: if_splits option.splits)
  show "do_register_mb m s = Inr (r, s') \<Longrightarrow> effs s' = effs s"
    by (auto simp: do_register_mb_def Let_def bnd_eq_Inr simp del: upt_rec_numeral
        dest!: set_mb_effs set_sender_local_id_effs split: if_splits option.splits sum.splits)
qed

text \<open>The contexts are those of before after every call but a deposit.\<close>

lemma set_mb_ctx: "set_mb s i mb = Inr s' \<Longrightarrow> susContext s' = susContext s"
  by (auto simp: set_mb_def guard_simps split: option.splits if_splits)

lemma id_ctx:
  "susContext (snd (get_free_id s)) = susContext s" "set_free_id i s = (r, s1) \<Longrightarrow> susContext s1 = susContext s"
  by (auto simp: get_free_id_def set_free_id_def Let_def simp del: upt_rec_numeral split: option.split if_splits)

lemma set_sender_ctx: "set_sender_local_id s pid = Inr (r, s') \<Longrightarrow> susContext s' = susContext s"
  by (auto simp: set_sender_local_id_def bnd_eq_Inr simp del: upt_rec_numeral split: if_splits option.splits)

lemma calls_keep_contexts:
  "do_create_mailbox block m s = Inr (r, s') \<Longrightarrow> initialize s = 50 \<Longrightarrow> susContext s' = susContext s"
  "do_destroy_mailbox m s = Inr (r, s') \<Longrightarrow> susContext s' = susContext s"
  "do_register_mb m s = Inr (r, s') \<Longrightarrow> susContext s' = susContext s"
  "do_get_av_mailboxes m s = Inr (r, s') \<Longrightarrow> susContext s' = susContext s"
  "do_retrieve junk who m s = Inr (a, s') \<Longrightarrow> susContext s' = susContext s"
  "do_get_senders rx ints m s = Inr (r, s') \<Longrightarrow> susContext s' = susContext s"
proof -
  have add: "susContext s2 = susContext s1" if "addMailBox mb s1 = Inr (i, s2)" for mb i and s1 s2 :: vfs
    using that id_ctx(1) [of s1]
    by (auto simp: addMailBox_def bnd_eq_Inr dest!: set_mb_ctx split: prod.splits if_splits)
  show "do_create_mailbox block m s = Inr (r, s') \<Longrightarrow> initialize s = 50 \<Longrightarrow> susContext s' = susContext s"
    by (auto simp: do_create_mailbox_def create_mailbox_def Let_def bnd_eq_Inr dest!: add set_mb_ctx split: if_splits)
  show "do_destroy_mailbox m s = Inr (r, s') \<Longrightarrow> susContext s' = susContext s"
    by (auto simp: do_destroy_mailbox_def Let_def bnd_eq_Inr dest!: set_mb_ctx id_ctx(2) split: if_splits option.splits)
  show "do_register_mb m s = Inr (r, s') \<Longrightarrow> susContext s' = susContext s"
    by (auto simp: do_register_mb_def Let_def bnd_eq_Inr simp del: upt_rec_numeral
        dest!: set_mb_ctx set_sender_ctx split: if_splits option.splits sum.splits)
  show "do_get_av_mailboxes m s = Inr (r, s') \<Longrightarrow> susContext s' = susContext s"
    by (auto simp: emit_def dest!: emit_only(1))
  show "do_get_senders rx ints m s = Inr (r, s') \<Longrightarrow> susContext s' = susContext s"
    by (auto simp: emit_def dest!: emit_only(2))
  show "do_retrieve junk who m s = Inr (a, s') \<Longrightarrow> susContext s' = susContext s"
    by (auto simp: do_retrieve_def bnd_eq_Inr emit_def dest!: set_mb_ctx split: if_splits)
qed

lemma serving_initialize: "serving s \<Longrightarrow> initialize s = 50"
  using vfs_ok_tables populated_mbList by (fastforce simp: serving_def tables_ok_def split: option.splits)

lemma deposit_loop_ctx: "deposit_loop fpe pid msg ds sus s = Inr (code, sus', s') \<Longrightarrow> susContext s' = susContext s"
proof (induction ds arbitrary: sus s)
  case (Cons d ds)
  have put: "susContext s1 = susContext s" if "putMsg fpe m msg s = Inr (x, m1, s1)" for m m1 x and s s1 :: vfs
    using that by (auto simp: putMsg_def unsuspend_rx_def emit_def set_next_def Let_def bnd_eq_Inr split: if_splits ptr.splits option.splits)
  from Cons show ?case
    by (fastforce simp: bnd_eq_Inr dest!: set_mb_ctx put split: if_splits)
qed simp

text \<open>What a call of the specification is refined by.\<close>

definition refined :: "(answer \<times> vfs) res \<Rightarrow> vfs \<Rightarrow> answer \<times> effect list \<times> boxes \<Rightarrow> bool" where
  "refined r s out \<longleftrightarrow> (case out of (a, es, B) \<Rightarrow>
     \<exists>s'. r = Inr (a, s') \<and> boxes_of s' = B \<and> map seen (effs s') = map seen (effs s) @ es \<and> serving s')"

lemma refined_same: "serving s \<Longrightarrow> refined (Inr (a, s)) s (a, [], boxes_of s)"
  by (simp add: refined_def)

lemma create_refines:
  assumes sv: "serving s" and sp: "box_call (CreateMb block m) (boxes_of s) = Some out"
  shows "refined (handle fpe (CreateMb block m) s) s out"
proof -
  have ok: "vfs_ok s" and p: "populated s" using sv by (simp_all add: serving_def)
  have f: "front block = NULL" using sp by (simp split: if_splits)
  let ?free = "\<lambda>i. case boxes_of s i of None \<Rightarrow> True | Some b \<Rightarrow> \<not> b_live b"
  have fr: "?free i \<longleftrightarrow> \<not> live_at s i" for i
    by (cases "slot s i") (auto simp: live_at_def)
  show ?thesis
  proof (rule create_effect [OF ok f, where m_in = m])
    assume a: "\<forall>i<MAX_MAILBOXES. live_at s i" "do_create_mailbox block m s = Inr (-1, initialised s)"
    have "find ?free [0..<MAX_MAILBOXES] = None" unfolding find_None_iff fr using a(1) by auto
    moreover have "initialised s = s"
      using vfs_ok_tables [OF ok] populated_mbList [OF p] by (auto simp: initialised_def tables_ok_def)
    ultimately show ?thesis using sp f a(2) refined_same [OF sv]
      by (auto simp: returns_def simp del: upt_rec_numeral)
  next
    fix i s'
    assume c: "i < MAX_MAILBOXES" "\<not> live_at s i" "\<forall>j<i. live_at s j"
      "do_create_mailbox block m s = Inr (int i, s')" "vfs_ok s'"
      "slot s' = (slot s)(i \<mapsto> new_mailbox block (int i) m)" "items_at s' = (items_at s)(i := [])"
    have "find ?free [0..<MAX_MAILBOXES] = Some i"
      unfolding find_Some_iff fr using c(1-3) by (intro exI [of _ i]) (auto simp del: upt_rec_numeral)
    moreover have "box_of (new_mailbox block (int i) m) [] = \<lparr>b_live = True, b_owner = m7_i1 m, b_uid = m7_i2 m,
        b_gid = m7_i3 m, b_perm = m7_i4 m, b_senders = [], b_waits = None, b_blocked = 0, b_mail = []\<rparr>"
      by (simp add: box_of_def new_mailbox_def live_def registered_def)
    ultimately show ?thesis
      using sp f c(4) boxes_update [OF c(6,7)] tables_keep_effs(1) [OF c(4)] serving_update [OF sv c(5-7)]
      by (auto simp: returns_def refined_def simp del: upt_rec_numeral)
  qed
qed

lemma destroy_refines:
  assumes sv: "serving s" and sp: "box_call (DestroyMb m) (boxes_of s) = Some out"
  shows "refined (handle fpe (DestroyMb m) s) s out"
proof -
  have ok: "vfs_ok s" and p: "populated s" using sv by (simp_all add: serving_def)
  have "\<not> m7_i4 m < 0" using sp by (auto split: if_splits)
  then obtain i where i: "m7_i4 m = int i" by (metis not_less nonneg_int_cases)
  show ?thesis
  proof (cases "slot s i")
    case None
    then have "\<not> i < MAX_MAILBOXES" using populatedE [OF p, of i] by auto
    then have "do_destroy_mailbox m s = Inr (0, s)" by (simp add: do_destroy_mailbox_def i)
    then show ?thesis using sp None i refined_same [OF sv] by (auto simp: returns_def)
  next
    case (Some mb)
    show ?thesis
    proof (rule destroy_effect [OF ok Some i])
      fix s'
      assume c: "do_destroy_mailbox m s = Inr (if live mb then 0 else -1, s')" "vfs_ok s'"
        "slot s' = (slot s)(i \<mapsto> destroyed mb)" "items_at s' = (items_at s)(i := [])"
      have "box_of (destroyed mb) [] = (box_of mb (items_at s i))\<lparr>b_live := False, b_owner := -1, b_mail := []\<rparr>"
        by (simp add: box_of_def destroyed_def live_def registered_def)
      then show ?thesis
        using sp Some i c(1) boxes_update [OF c(3,4)] tables_keep_effs(2) [OF c(1)] serving_update [OF sv c(2-4)]
        by (auto simp: returns_def refined_def)
    qed
  qed
qed

lemma register_refines:
  assumes sv: "serving s" and sp: "box_call (RegisterMb m) (boxes_of s) = Some out"
  shows "refined (handle fpe (RegisterMb m) s) s out"
proof -
  have ok: "vfs_ok s" and p: "populated s" using sv by (simp_all add: serving_def)
  have "\<not> m7_i4 m < 0" and pid: "m7_i1 m \<noteq> -1" using sp by (auto split: if_splits)
  then obtain i where i: "m7_i4 m = int i" by (metis not_less nonneg_int_cases)
  then obtain mb where sl: "slot s i = Some mb" using sp by (cases "slot s i") (auto split: if_splits)
  have r: "i < MAX_MAILBOXES" using slot_bound [OF vfs_ok_tables [OF ok] sl] .
  let ?code = "register_code mb (m7_i1 m) (m7_i2 m) (m7_i3 m)"
  show ?thesis
  proof (rule register_effect [OF ok p r sl i pid])
    fix s' and mb' :: MailBox
    assume c: "do_register_mb m s = Inr (?code, s')" "slot s' = (slot s)(i \<mapsto> mb')" "items_at s' = items_at s"
      "registered mb' = (if ?code = 0 then registered mb @ [m7_i1 m] else registered mb)"
      and "\<exists>xs n. mb' = mb\<lparr>senders := xs, num_senders := n\<rparr>"
    then have b: "box_of mb' ms = (box_of mb ms)\<lparr>b_senders := registered mb'\<rparr>" for ms
      by (auto simp: box_of_def live_def)
    have items: "items_at s' = (items_at s)(i := items_at s i)" by (simp add: c(3))
    have "list_all msg_ok (items_at s i)" using sv by (simp add: serving_def)
    with serving_update [OF sv do_register_mb_ok [OF ok c(1)] c(2) items] have sv': "serving s'" .
    have B: "boxes_of s' = (boxes_of s)(i \<mapsto> (box_of mb (items_at s i))\<lparr>b_senders := registered mb'\<rparr>)"
      using boxes_update [OF c(2) items] b by simp
    have same: "boxes_of s' = boxes_of s" if "?code \<noteq> 0"
      unfolding B using that c(4) sl by (auto simp: fun_eq_iff box_of_def)
    show ?thesis
    proof (cases "?code = 0")
      case True
      then show ?thesis using sp sl i pid c(1,4) B sv' tables_keep_effs(3) [OF c(1)]
        by (auto simp: refined_def returns_def register_code_def split: if_splits)
    next
      case False
      then show ?thesis using sp sl i pid c(1) same sv' tables_keep_effs(3) [OF c(1)]
        by (auto simp: refined_def returns_def register_code_def split: if_splits)
    qed
  qed
qed

lemma listed_boxes_visible:
  assumes "vfs_ok s"
  shows "listed_boxes (boxes_of s) uid gid is = id_pairs (visible s uid gid is)"
proof (induction "is")
  case (Cons i "is")
  then show ?case
    using vfs_ok_slot [OF assms, of i] by (cases "slot s i") (auto simp: listed_boxes_def id_pairs_def slot_ok_def live_def)
qed (simp add: listed_boxes_def id_pairs_def)

lemma id_pairs_length: "length (id_pairs mbs) = 2 * length mbs"
  by (induction mbs) (simp_all add: id_pairs_def)

lemma list_refines:
  assumes sv: "serving s" and sp: "box_call (ListMbs m) (boxes_of s) = Some out"
  shows "refined (handle fpe (ListMbs m) s) s out"
proof -
  have ok: "vfs_ok s" and p: "populated s" using sv by (simp_all add: serving_def)
  let ?vs = "visible s (m7_i2 m) (m7_i3 m) [0..<MAX_MAILBOXES]"
  let ?e = "CopyOut (m_source m) (m7_p1 m) (Ints (id_pairs ?vs @ [-1, -1]))"
  have "length ?vs < 10" and out: "out = (Ret 0, [?e], boxes_of s)"
    using sp unfolding box_call.simps Let_def listed_boxes_visible [OF ok] id_pairs_length by (simp_all split: if_splits)
  then have "do_get_av_mailboxes m s = Inr (0, emit [?e] s)"
    using av_mailboxes_effect [OF ok populated_mbList [OF p], of m] by simp
  moreover have "serving (emit [?e] s)" using sv by (simp add: serving_def populated_def)
  moreover have "boxes_of (emit [?e] s) = boxes_of s" by (rule boxes_same) (simp_all add: fun_eq_iff)
  moreover have "effs (emit [?e] s) = effs s @ [?e]" by (simp add: emit_def)
  ultimately show ?thesis by (simp add: refined_def returns_def out)
qed

lemma senders_refines:
  assumes sv: "serving s" and sp: "box_call (SendersMb rx junk m) (boxes_of s) = Some out"
  shows "refined (handle fpe (SendersMb rx junk m) s) s out"
proof -
  have ok: "vfs_ok s" and p: "populated s" using sv by (simp_all add: serving_def)
  have r: "\<not> (m7_i4 m < 0 \<or> 10 \<le> m7_i4 m)" using sp by (auto split: if_splits)
  then obtain i where i: "m7_i4 m = int i" "i < 10" by (metis linorder_not_less nonneg_int_cases of_nat_less_iff of_nat_numeral)
  obtain mb where sl: "slot s i = Some mb" using populatedE [OF p, of i] i by auto
  have ptr: "mb_ptr s (m7_i4 m) = Inr (Some mb)"
    using mb_ptr_slot [OF vfs_ok_tables [OF ok]] populated_mbList [OF p] sl i by simp
  let ?ps = "filter (\<lambda>p. 0 \<le> p) (registered mb)"
  have f: "filter (\<lambda>p. 0 \<le> p) (senders mb) = ?ps"
  proof -
    have "senders mb = registered mb @ replicate (10 - length (registered mb)) (-1)"
      using vfs_ok_slot [OF ok sl] by (simp add: slot_ok_def senders_ok_def)
    from arg_cong [OF this, of "filter (\<lambda>p. 0 \<le> p)"] show ?thesis by simp
  qed
  show ?thesis
  proof (cases "owner_pid mb = rx")
    case False
    with sp r i sl ptr refined_same [OF sv] show ?thesis by (auto simp: do_get_senders_def Let_def returns_def)
  next
    case True
    let ?e = "CopyOut (m_source m) (m7_p1 m) (Ints (?ps @ [junk (length ?ps)]))"
    have "length (registered mb) \<le> 10" using vfs_ok_slot [OF ok sl] by (simp add: slot_ok_def senders_ok_def)
    then have "length ?ps \<le> 10" using length_filter_le le_trans by blast
    with True sp r i sl have len: "length ?ps < 10" and out: "out = (Ret 0, [?e], boxes_of s)"
      by (auto simp: Let_def split: if_splits)
    have "take (length ?ps + 1) (?ps @ map junk [length ?ps..<10]) = ?ps @ [junk (length ?ps)]"
      using len by (simp add: upt_conv_Cons)
    with True ptr i len f have "do_get_senders rx junk m s = Inr (0, emit [?e] s)"
      by (simp add: do_get_senders_def Let_def)
    moreover have "serving (emit [?e] s)" using sv by (simp add: serving_def populated_def)
    moreover have "boxes_of (emit [?e] s) = boxes_of s" by (rule boxes_same) (simp_all add: fun_eq_iff)
    moreover have "effs (emit [?e] s) = effs s @ [?e]" by (simp add: emit_def)
    ultimately show ?thesis by (simp add: refined_def returns_def out)
  qed
qed

lemma retrieve_refines:
  assumes sv: "serving s" and sp: "box_call (RetrieveMb junk who m) (boxes_of s) = Some out"
  shows "refined (handle fpe (RetrieveMb junk who m) s) s out"
proof -
  have ok: "vfs_ok s" and p: "populated s" using sv by (simp_all add: serving_def)
  show ?thesis
  proof (cases "owner_slot s (m7_i1 m)")
    case None
    then show ?thesis using sp retrieve_stranger [OF ok p None] refined_same [OF sv] by (auto simp: owned_boxes)
  next
    case (Some i)
    then obtain mb where sl: "slot s i = Some mb" by (rule owner_slotD)
    have mok: "list_all msg_ok (items_at s i)" using sv by (simp add: serving_def)
    show ?thesis
    proof (cases "items_at s i")
      case Nil
      show ?thesis
      proof (rule retrieve_empty [OF ok p Some Nil, where junk = junk and who = who])
        fix s' and mb2 :: MailBox
        let ?mb = "mb2\<lparr>rx_suspended := 1, sus_end_p := who, sus_m_source := m_source m,
              sus_message := (sus_message mb2)\<lparr>m7_p1 := m7_p1 m\<rparr>\<rparr>"
        assume c: "do_retrieve junk who m s = Inr (SUSPEND, s')" "slot s i = Some mb2"
          "slot s' = (slot s)(i \<mapsto> ?mb)" "items_at s' = items_at s" "effs s' = effs s"
        have items: "items_at s' = (items_at s)(i := [])" using c(4) Nil by (simp add: fun_upd_idem)
        have "box_of ?mb [] = (box_of mb [])\<lparr>b_waits := Some (who, m_source m, m7_p1 m)\<rparr>"
          using c(2) sl by (simp add: box_of_def live_def registered_def)
        then show ?thesis
          using sp Some sl Nil c(1,5) boxes_update [OF c(3) items]
            serving_update [OF sv do_retrieve_ok [OF ok c(1)] c(3) items]
          by (auto simp: owned_boxes refined_def)
      qed
    next
      case (Cons x ms)
      then have x: "msg_ok x" "list_all msg_ok ms" using mok by simp_all
      show ?thesis
      proof (rule retrieve_some [OF ok p Some Cons x(1), where junk = junk and who = who])
        fix f b buf s' and mb2 :: MailBox
        let ?mb = "mb2\<lparr>front := f, rear := b, num_messages := num_messages mb2 - 1, rx_suspended := 0\<rparr>"
        assume c: "do_retrieve junk who m s = Inr (Ret 0, s')" "slot s i = Some mb2"
          "slot s' = (slot s)(i \<mapsto> ?mb)" "items_at s' = (items_at s)(i := ms)" "cstr buf = cstr (data x)"
          "effs s' = effs s @ [CopyOut (m_source m) (m7_p1 m) (Bytes buf)]"
        have "box_of ?mb ms = (box_of mb (x # ms))\<lparr>b_waits := None, b_mail := map (\<lambda>m. (sender_id m, cstr (data m))) ms\<rparr>"
          using c(2) sl by (simp add: box_of_def live_def registered_def)
        then show ?thesis
          using sp Some sl Cons c(1,5,6) boxes_update [OF c(3,4)]
            serving_update [OF sv do_retrieve_ok [OF ok c(1)] c(3,4) x(2)]
          by (auto simp: owned_boxes refined_def)
      qed
    qed
  qed
qed

section \<open>Deposits\<close>

lemma items_le: "vfs_ok s \<Longrightarrow> length (items_at s i) \<le> 10"
  by (cases "slot s i") (auto simp: items_at_def dest!: queue_at elim!: queue_okE)

text \<open>The loop over the destinations.\<close>

definition loop_refined ::
    "(int option \<times> int list \<times> vfs) res \<Rightarrow> vfs \<Rightarrow> int option \<times> nat list \<times> effect list \<times> boxes \<Rightarrow> bool" where
  "loop_refined r s out \<longleftrightarrow> (case out of (code, full, es, B) \<Rightarrow>
     \<exists>s'. r = Inr (code, map int full, s') \<and> boxes_of s' = B \<and> map seen (effs s') = map seen (effs s) @ es \<and> serving s')"

lemma put_all_refines:
  assumes "serving s" and "put_all fpe (sender_id msg) (cstr (data msg)) ds full (boxes_of s) = Some out"
    and m: "msg_ok msg"
  shows "loop_refined (deposit_loop fpe (sender_id msg) msg ds (map int full) s) s out"
  using assms(1,2)
proof (induction ds arbitrary: s full out)
  case Nil
  then show ?case by (auto simp: loop_refined_def)
next
  case (Cons d ds)
  have ok: "vfs_ok s" and p: "populated s" using Cons.prems(1) by (simp_all add: serving_def)
  show ?case
  proof (cases "d \<le> 0")
    case True
    with Cons.prems show ?thesis by (cases "d = 0") (auto simp: loop_refined_def)
  next
    case False
    then have d: "0 < d" by simp
    show ?thesis
    proof (cases "owner_slot s d")
      case None
      with Cons.prems d deposit_unknown [OF ok p d None, of fpe "sender_id msg" msg ds "map int full"] show ?thesis
        by (auto simp: owned_boxes loop_refined_def simp del: deposit_loop.simps(2))
    next
      case o: (Some i)
      then obtain mb where sl: "slot s i = Some mb" by (rule owner_slotD)
      let ?b = "box_of mb (items_at s i)"
      show ?thesis
      proof (cases "sender_id msg \<in> set (registered mb)")
        case False
        with Cons.prems d o sl deposit_known [OF ok p d o sl, of fpe "sender_id msg" msg ds "map int full"] show ?thesis
          by (auto simp: owned_boxes loop_refined_def simp del: deposit_loop.simps(2))
      next
        case reg: True
        consider "length (items_at s i) = 10" | "length (items_at s i) < 10" "rx_suspended mb = 1"
          | "length (items_at s i) < 10" "rx_suspended mb \<noteq> 1"
          using items_le [OF ok, of i] by linarith
        then show ?thesis
        proof cases
          case 1
          let ?m = "mb\<lparr>suspended_sender := (suspended_sender mb)[nat (sus_sender_idx mb) := sender_id msg],
                      sus_sender_idx := sus_sender_idx mb + 1\<rparr>"
          have idx: "0 \<le> sus_sender_idx mb" using vfs_ok_slot [OF ok sl] by (simp add: slot_ok_def)
          from Cons.prems(2) d o sl reg 1 have room: "nat (sus_sender_idx mb) < 10" "length full < 10"
            and rest: "put_all fpe (sender_id msg) (cstr (data msg)) ds (full @ [i])
              ((boxes_of s)(i \<mapsto> ?b\<lparr>b_blocked := Suc (nat (sus_sender_idx mb))\<rparr>)) = Some out"
            by (auto simp: owned_boxes split: if_splits)
          have sx: "sus_sender_idx mb < int MAX_SENDERS" "length (map int full) < MAX_SENDERS" using room by simp_all
          show ?thesis
          proof (rule deposit_full [OF ok p d o sl reg 1 sx, where fpe = fpe and msg = msg])
            fix s1
            assume c: "\<And>ds. deposit_loop fpe (sender_id msg) msg (d # ds) (map int full) s =
                deposit_loop fpe (sender_id msg) msg ds (map int full @ [int i]) s1"
              "vfs_ok s1" "items_at s1 = items_at s" "effs s1 = effs s" "slot s1 = (slot s)(i \<mapsto> ?m)"
            have items: "items_at s1 = (items_at s)(i := items_at s i)" by (simp add: c(3))
            have "list_all msg_ok (items_at s i)" using Cons.prems(1) by (simp add: serving_def)
            with serving_update [OF Cons.prems(1) c(2,5) items] have sv1: "serving s1" .
            have "box_of ?m (items_at s i) = ?b\<lparr>b_blocked := Suc (nat (sus_sender_idx mb))\<rparr>"
              using idx by (simp add: box_of_def live_def registered_def nat_add_distrib)
            then have B: "boxes_of s1 = (boxes_of s)(i \<mapsto> ?b\<lparr>b_blocked := Suc (nat (sus_sender_idx mb))\<rparr>)"
              using boxes_update [OF c(5) items] by (simp only:)
            have "loop_refined (deposit_loop fpe (sender_id msg) msg (d # ds) (map int full) s) s1 out"
              using Cons.IH [OF sv1 rest [folded B]] unfolding c(1) by simp
            then show ?thesis by (simp add: loop_refined_def c(4) del: deposit_loop.simps(2))
          qed
        next
          case 2
          show ?thesis
          proof (rule deposit_waiting [OF ok p d o sl reg 2(2,1), where fpe = fpe and msg = msg])
            fix s1
            let ?e = "[Revive (sus_end_p mb), CopyOut (sus_m_source mb) (m7_p1 (sus_message mb)) (Bytes (data msg)),
              Reply (fpe (sus_end_p mb)) 0]"
            assume c: "\<And>ds sus. deposit_loop fpe (sender_id msg) msg (d # ds) sus s = deposit_loop fpe (sender_id msg) msg ds sus s1"
              "vfs_ok s1" "slot s1 = slot s" "items_at s1 = items_at s" "effs s1 = effs s @ ?e"
            have sv1: "serving s1" using Cons.prems(1) c(2-4) by (simp add: serving_def populated_def)
            from Cons.prems(2) d o sl reg 2 obtain code full' es1 B where
              "put_all fpe (sender_id msg) (cstr (data msg)) ds full (boxes_of s1) = Some (code, full', es1, B)"
              "out = (code, full', map seen ?e @ es1, B)"
              using boxes_same [OF c(3,4)] by (auto simp: owned_boxes split: if_splits)
            with Cons.IH [OF sv1] c(1,5) show ?thesis by (fastforce simp: loop_refined_def simp del: deposit_loop.simps(2))
          qed
        next
          case 3
          show ?thesis
          proof (rule deposit_room [OF ok p d o sl reg 3(2,1), where fpe = fpe and msg = msg])
            fix s1 and m1 :: MailBox
            assume c: "\<And>ds sus. deposit_loop fpe (sender_id msg) msg (d # ds) sus s = deposit_loop fpe (sender_id msg) msg ds sus s1"
              "vfs_ok s1" "slot s1 = (slot s)(i \<mapsto> m1)" "same_but_queue mb m1"
              "items_at s1 = (items_at s)(i := items_at s i @ [msg])" "effs s1 = effs s"
            have "list_all msg_ok (items_at s i @ [msg])" using Cons.prems(1) m by (simp add: serving_def)
            with serving_update [OF Cons.prems(1) c(2,3,5)] have sv1: "serving s1" .
            have "box_of m1 (items_at s i @ [msg]) = ?b\<lparr>b_mail := b_mail ?b @ [(sender_id msg, cstr (data msg))]\<rparr>"
              using c(4) by (auto simp: same_but_queue_def box_of_def live_def registered_def)
            with Cons.prems(2) d o sl reg 3 boxes_update [OF c(3,5)] have
              "put_all fpe (sender_id msg) (cstr (data msg)) ds full (boxes_of s1) = Some out"
              by (simp add: owned_boxes split: if_splits)
            with Cons.IH [OF sv1] c(1,6) show ?thesis by (simp add: loop_refined_def del: deposit_loop.simps(2))
          qed
        qed
      qed
    qed
  qed
qed

text \<open>A call of the specification with the waits of blocked senders.\<close>

definition view_refined :: "(answer \<times> vfs) res \<Rightarrow> vfs \<Rightarrow> answer \<times> effect list \<times> mb_view \<Rightarrow> bool" where
  "view_refined r s out \<longleftrightarrow> (case out of (a, es, v) \<Rightarrow>
     \<exists>s'. r = Inr (a, s') \<and> view s' = v \<and> map seen (effs s') = map seen (effs s) @ es \<and> serving s')"

lemma serving_same:
  "serving s \<Longrightarrow> vfs_ok s' \<Longrightarrow> slot s' = slot s \<Longrightarrow> items_at s' = items_at s \<Longrightarrow> serving s'"
  by (simp add: serving_def populated_def)

lemma seen_notices: "block_sender fpe i w W0 = Some (a, es, W) \<Longrightarrow> map seen es = es"
  by (auto simp: block_sender_def Let_def split: if_splits option.splits)

lemma deposit_refines:
  assumes sv: "serving s" and sp: "spec_call fpe (DepositMb who junk dest bytes m) (view s) = Some out"
  shows "view_refined (handle fpe (DepositMb who junk dest bytes m) s) s out"
proof -
  let ?msg = "\<lparr>data = bytes, sender_id = m7_i1 m\<rparr>"
  have m: "msg_ok ?msg" and dc: "deposit_call fpe who dest (cstr bytes) m (view s) = Some out"
    using sp by (auto simp: msg_ok_def split: if_splits)
  obtain code full es B where
    pa: "put_all fpe (sender_id ?msg) (cstr (data ?msg)) dest [] (boxes_of s) = Some (code, full, es, B)"
    using dc by (auto simp: deposit_call_def view_def split: option.splits prod.splits)
  from put_all_refines [OF sv pa m] obtain s1 where
    l: "deposit_loop fpe (m7_i1 m) ?msg dest [] s = Inr (code, map int full, s1)" and B: "boxes_of s1 = B"
      and e: "map seen (effs s1) = map seen (effs s) @ es" and sv1: "serving s1"
    by (auto simp: loop_refined_def)
  have W: "waits_of s1 = waits_of s" using waits_of_cong [OF deposit_loop_ctx [OF l]] .
  have ok: "vfs_ok s" and ok1: "vfs_ok s1" and p1: "populated s1" using sv sv1 by (simp_all add: serving_def)
  consider c where "code = Some c" | "code = None" "full = []" | "code = None" "full \<noteq> []" by blast
  then show ?thesis
  proof cases
    case 1
    with dc pa l B e W sv1 do_deposit_code show ?thesis
      by (auto simp: deposit_call_def view_def view_refined_def)
  next
    case 2
    with dc pa l B e W sv1 do_deposit_plain show ?thesis
      by (auto simp: deposit_call_def view_def view_refined_def)
  next
    case 3
    let ?w = "\<lparr>w_for = Some (hd full), w_who = who, w_source = m_source m, w_addr = m7_p2 m\<rparr>"
    from 3 dc pa obtain i a es1 W1 where o: "owned B (m7_i1 m) = Some i"
      and bs: "block_sender fpe i ?w (waits_of s) = Some (a, es1, W1)" and out: "out = (a, es @ es1, B, W1)"
      by (auto simp: deposit_call_def view_def split: option.splits)
    have o1: "owner_slot s1 (m7_i1 m) = Some i" using o by (simp add: B [symmetric] owned_boxes)
    have dr: "dest_range (map int full)" using deposit_loop_ok [OF ok _ l] by (simp add: dest_range_def)
    from l 3(1) have l': "deposit_loop fpe (m7_i1 m) ?msg dest [] s = Inr (None, map int full, s1)" by simp
    show ?thesis
    proof (rule do_deposit_blocks [OF ok1 p1 o1 3(2) dr l', where junk = junk])
      show "block_sender fpe i ?w (waits_of s1) = Some (a, es1, W1)" using bs W by simp
    next
      fix s'
      assume c: "do_deposit fpe junk who dest bytes m s = Inr (a, s')" "waits_of s' = W1" "slot s' = slot s1"
        "items_at s' = items_at s1" "effs s' = effs s1 @ es1"
      have "view s' = (B, W1)" using boxes_same [OF c(3,4)] c(2) B by (simp add: view_def)
      moreover have "serving s'" using serving_same [OF sv1 do_deposit_ok [OF ok c(1)] c(3,4)] .
      ultimately show ?thesis using c(1,5) e seen_notices [OF bs] by (simp add: view_refined_def out)
    qed
  qed
qed

section \<open>Sessions\<close>

text \<open>A call that keeps the contexts, from its refinement over the boxes.\<close>

lemma refined_view:
  assumes "refined r s (a, es, B)" and "\<And>s'. r = Inr (a, s') \<Longrightarrow> susContext s' = susContext s"
  shows "view_refined r s (a, es, B, waits_of s)"
proof -
  from assms(1) obtain s' where "r = Inr (a, s')" "boxes_of s' = B" "map seen (effs s') = map seen (effs s) @ es" "serving s'"
    by (auto simp: refined_def)
  with waits_of_cong [OF assms(2)] show ?thesis by (simp add: view_refined_def view_def)
qed

lemma call_refines:
  assumes sv: "serving s" and sp: "spec_call fpe c (view s) = Some out"
  shows "view_refined (handle fpe c s) s out"
proof -
  have box: "\<exists>a es B. box_call c (boxes_of s) = Some (a, es, B) \<and> out = (a, es, B, waits_of s)"
    if "\<forall>who junk dest bytes m. c \<noteq> DepositMb who junk dest bytes m"
    using sp that by (cases c) (auto simp: view_def simp del: box_call.simps)
  show ?thesis
  proof (cases c)
    case (CreateMb block m)
    with box obtain a es B where b: "box_call c (boxes_of s) = Some (a, es, B)" "out = (a, es, B, waits_of s)" by auto
    from refined_view [OF create_refines [OF sv b(1) [unfolded CreateMb]]] show ?thesis
      using calls_keep_contexts(1) [OF _ serving_initialize [OF sv]]
      by (force simp: CreateMb b(2) returns_def bnd_eq_Inr)
  next
    case (DestroyMb m)
    with box obtain a es B where b: "box_call c (boxes_of s) = Some (a, es, B)" "out = (a, es, B, waits_of s)" by auto
    from refined_view [OF destroy_refines [OF sv b(1) [unfolded DestroyMb]]] show ?thesis
      using calls_keep_contexts(2) by (force simp: DestroyMb b(2) returns_def bnd_eq_Inr)
  next
    case (RegisterMb m)
    with box obtain a es B where b: "box_call c (boxes_of s) = Some (a, es, B)" "out = (a, es, B, waits_of s)" by auto
    from refined_view [OF register_refines [OF sv b(1) [unfolded RegisterMb]]] show ?thesis
      using calls_keep_contexts(3) by (force simp: RegisterMb b(2) returns_def bnd_eq_Inr)
  next
    case (ListMbs m)
    with box obtain a es B where b: "box_call c (boxes_of s) = Some (a, es, B)" "out = (a, es, B, waits_of s)" by auto
    from refined_view [OF list_refines [OF sv b(1) [unfolded ListMbs]]] show ?thesis
      using calls_keep_contexts(4) by (force simp: ListMbs b(2) returns_def bnd_eq_Inr)
  next
    case (SendersMb rx junk m)
    with box obtain a es B where b: "box_call c (boxes_of s) = Some (a, es, B)" "out = (a, es, B, waits_of s)" by auto
    from refined_view [OF senders_refines [OF sv b(1) [unfolded SendersMb]]] show ?thesis
      using calls_keep_contexts(6) by (force simp: SendersMb b(2) returns_def bnd_eq_Inr)
  next
    case (DepositMb who junk dest bytes m)
    with sv sp show ?thesis using deposit_refines by blast
  next
    case (RetrieveMb junk who m)
    with box obtain a es B where b: "box_call c (boxes_of s) = Some (a, es, B)" "out = (a, es, B, waits_of s)" by auto
    from refined_view [OF retrieve_refines [OF sv b(1) [unfolded RetrieveMb]]] show ?thesis
      using calls_keep_contexts(5) by (force simp: RetrieveMb b(2))
  qed
qed

lemma session_refines:
  "serving s \<Longrightarrow> run_spec fpe cs (view s) = Some (as, es, v) \<Longrightarrow>
    \<exists>s'. run_server fpe cs s = Inr (as, s') \<and> view s' = v \<and> map seen (effs s') = map seen (effs s) @ es \<and> serving s'"
proof (induction cs arbitrary: s as es)
  case (Cons c cs)
  from Cons.prems(2) obtain a es1 v1 as2 es2 where sp: "spec_call fpe c (view s) = Some (a, es1, v1)"
    "run_spec fpe cs v1 = Some (as2, es2, v)" "as = a # as2" "es = es1 @ es2"
    by (auto split: option.splits)
  from call_refines [OF Cons.prems(1) sp(1)] obtain s1 where
    s1: "handle fpe c s = Inr (a, s1)" "view s1 = v1" "map seen (effs s1) = map seen (effs s) @ es1" "serving s1"
    by (auto simp: view_refined_def)
  with Cons.IH [OF s1(4), of as2 es2] sp show ?case by auto
qed auto

lemma run_server_append:
  "run_server fpe (cs @ ds) s =
     bnd (run_server fpe cs s) (\<lambda>(as, s1). bnd (run_server fpe ds s1) (\<lambda>(bs, s2). Inr (as @ bs, s2)))"
proof (induction cs arbitrary: s)
  case Nil
  then show ?case by (cases "run_server fpe ds s") auto
next
  case (Cons c cs)
  show ?case
  proof (cases "handle fpe c s")
    case (Inr r)
    obtain a s1 where r: "r = (a, s1)" by (cases r)
    show ?thesis
    proof (cases "run_server fpe cs s1")
      case (Inr q)
      obtain as s2 where "q = (as, s2)" by (cases q)
      with Inr r \<open>handle fpe c s = Inr r\<close> Cons.IH [of s1] show ?thesis by (cases "run_server fpe ds s2") auto
    qed (use Inr r Cons.IH [of s1] in simp)
  qed simp
qed

text \<open>The server serves once each of its slots has been used.\<close>

lemma create_waits:
  assumes "do_create_mailbox block m s = Inr (r, s')" and "waits_of s = (\<lambda>_. None)"
  shows "waits_of s' = (\<lambda>_. None)"
proof (cases "initialize s = 50")
  case True
  with assms calls_keep_contexts(1) [OF assms(1)] waits_of_cong show ?thesis by metis
next
  case False
  let ?s = "s\<lparr>initialize := 50, mbList := Some (replicate MAX_MAILBOXES None),
    susContext := Some (replicate (MAX_MAILBOXES * MAX_SENDERS) None)\<rparr>"
  have "do_create_mailbox block m s = do_create_mailbox block m ?s" using False by (simp add: do_create_mailbox_def)
  with assms(1) calls_keep_contexts(1) [of block m ?s r s'] have "waits_of s' = waits_of ?s" by (simp add: waits_of_cong)
  also have "\<dots> = (\<lambda>_. None)" by (simp add: waits_of_def ctx_ptr_def rd_def fun_eq_iff)
  finally show ?thesis .
qed

lemma ten_creations:
  assumes "\<forall>i<10. front (block i) = NULL"
  shows "k \<le> 10 \<Longrightarrow> \<exists>s. run_server fpe (map (\<lambda>i. CreateMb (block i) (m i)) [0..<k]) boot =
      Inr (map (\<lambda>i. Ret (int i)) [0..<k], s) \<and> vfs_ok s \<and> effs s = [] \<and> waits_of s = (\<lambda>_. None) \<and>
    slot s = (\<lambda>i. if i < k then Some (new_mailbox (block i) (int i) (m i)) else None) \<and> items_at s = (\<lambda>i. [])"
proof (induction k)
  case 0
  have "slot boot = (\<lambda>i. None)" "waits_of boot = (\<lambda>_. None)" "effs boot = []"
    by (simp_all add: slot_def boot_def waits_of_def ctx_ptr_def fun_eq_iff)
  then show ?case using vfs_ok_boot by (simp add: items_at_def)
next
  case (Suc k)
  then obtain s where s: "run_server fpe (map (\<lambda>i. CreateMb (block i) (m i)) [0..<k]) boot =
      Inr (map (\<lambda>i. Ret (int i)) [0..<k], s)" "vfs_ok s" "effs s = []" "waits_of s = (\<lambda>_. None)"
    "slot s = (\<lambda>i. if i < k then Some (new_mailbox (block i) (int i) (m i)) else None)" "items_at s = (\<lambda>i. [])"
    by auto
  have lv: "live_at s i \<longleftrightarrow> i < k" for i by (simp add: live_at_def s(5) live_def new_mailbox_def)
  have f: "front (block k) = NULL" using assms Suc.prems by simp
  show ?case using s(2) f
  proof (rule create_effect [where m_in = "m k"])
    assume "\<forall>i<MAX_MAILBOXES. live_at s i"
    then have "live_at s k" using Suc.prems by simp
    then show ?thesis by (simp add: lv)
  next
    fix i s'
    assume c: "\<not> live_at s i" "\<forall>j<i. live_at s j" "do_create_mailbox (block k) (m k) s = Inr (int i, s')" "vfs_ok s'"
      "slot s' = (slot s)(i \<mapsto> new_mailbox (block k) (int i) (m k))" "items_at s' = (items_at s)(i := [])"
    have "i = k" using c(1,2) unfolding lv by (metis less_irrefl linorder_neqE_nat)
    with c(3-6) s tables_keep_effs(1) [OF c(3)] create_waits [OF c(3) s(4)] show ?thesis
      by (auto simp: run_server_append returns_def fun_eq_iff)
  qed
qed

section \<open>Properties\<close>

text \<open>
  C2. The mailbox server is ten boxes of strings. In a session of any length, from any state in
  which every slot has been used, the handlers answer every call, and send to the processes,
  what the specification says: ids are given out lowest first, deposits reach the boxes of all
  their destinations up to the first one that is unknown or does not know the sender, strings
  leave a box in the order in which they came, a receiver waits when its box is empty, and is
  served by each deposit from then on until it finds mail again. A sender that meets full boxes
  is suspended and waits for the first of them, unless that closes a circle with the owner of
  that box: then both are told. At the end the boxes and the waits are those of the
  specification. It leaves open what becomes of blocked senders without a box, of longer
  circles (the server faults on both), and of messages without a NUL.
\<close>

theorem server_refines_boxes:
  assumes "serving s" and "run_spec fpe cs (view s) = Some (as, es, v)"
  shows "\<exists>s'. run_server fpe cs s = Inr (as, s') \<and> view s' = v \<and>
    map seen (effs s') = map seen (effs s) @ es \<and> serving s'"
  using assms by (rule session_refines)

text \<open>
  From the boot of the server: processes 100 to 109 create mailboxes, 200 registers with the
  fourth and deposits, its owner retrieves, waits and is served. Then 105 and 106 fill each
  other's boxes; the eleventh deposit of 105 blocks, that of 106 would block as well and frees
  both.
\<close>

definition demo_block :: MailBox where
  "demo_block = (demo_mb 0)\<lparr>front := NULL\<rparr>"

definition demo_deposit :: "int \<Rightarrow> int list \<Rightarrow> string \<Rightarrow> mb_call" where
  "demo_deposit p ds str =
     DepositMb (p - 100) 0 ds (str @ replicate 254 NUL) (demo_message\<lparr>m_source := p, m7_i1 := p, m7_p2 := 512\<rparr>)"

definition demo_session :: "mb_call list" where
  "demo_session =
     [RegisterMb (demo_message\<lparr>m7_i1 := 200, m7_i4 := 3\<rparr>),
      demo_deposit 200 [103, -1] ''hi'',
      RetrieveMb (\<lambda>_. NUL) 7 (demo_message\<lparr>m_source := 9, m7_i1 := 103, m7_p1 := 640\<rparr>),
      RetrieveMb (\<lambda>_. NUL) 7 (demo_message\<lparr>m_source := 9, m7_i1 := 103, m7_p1 := 640\<rparr>),
      demo_deposit 200 [103, 104, -1] ''ho'',
      DestroyMb (demo_message\<lparr>m7_i4 := 3\<rparr>),
      RegisterMb (demo_message\<lparr>m7_i1 := 105, m7_i4 := 6\<rparr>),
      RegisterMb (demo_message\<lparr>m7_i1 := 106, m7_i4 := 5\<rparr>)] @
     replicate 11 (demo_deposit 105 [106, -1] ''to'') @ replicate 11 (demo_deposit 106 [105, -1] ''fr'')"

definition demo_answers :: "answer list" where
  "demo_answers = [Ret 0, Ret 0, Ret 0, SUSPEND, Ret (-5), Ret 0, Ret 0, Ret 0] @
     replicate 10 (Ret 0) @ [SUSPEND] @ replicate 11 (Ret 0)"

definition demo_effects :: "effect list" where
  "demo_effects = [CopyOut 9 640 (Bytes ''hi''), Revive 7, CopyOut 9 640 (Bytes ''ho''), Reply 7 0,
     CopyOut 105 512 (Ints [-2, -2]), Reply 5 0, CopyOut 106 512 (Ints [-2, -2])]"

theorem server_refines_boxes_witness:
  "\<exists>s'. run_server (\<lambda>i. i) (map (\<lambda>i. CreateMb demo_block (demo_message\<lparr>m7_i1 := 100 + int i, m7_i4 := 1\<rparr>)) [0..<10] @ demo_session) boot =
      Inr (map (\<lambda>i. Ret (int i)) [0..<10] @ demo_answers, s') \<and> map seen (effs s') = demo_effects"
proof -
  let ?m = "\<lambda>i. demo_message\<lparr>m7_i1 := 100 + int i, m7_i4 := 1\<rparr>"
  have "\<forall>i<10. front ((\<lambda>_. demo_block) i) = NULL" by (simp add: demo_block_def)
  from ten_creations [OF this, of 10 "\<lambda>i. i" ?m] obtain s where
    s: "run_server (\<lambda>i. i) (map (\<lambda>i. CreateMb demo_block (?m i)) [0..<10]) boot = Inr (map (\<lambda>i. Ret (int i)) [0..<10], s)"
      "vfs_ok s" "effs s = []" "waits_of s = (\<lambda>_. None)" "items_at s = (\<lambda>i. [])"
      "slot s = (\<lambda>i. if i < 10 then Some (new_mailbox demo_block (int i) (?m i)) else None)"
    by (auto simp del: upt_rec_numeral)
  have sv: "serving s" using s(2,5,6) by (simp add: serving_def populated_def list_all_iff)
  have v: "view s = (\<lambda>i. if i < 10 then Some \<lparr>b_live = True, b_owner = 100 + int i, b_uid = 0, b_gid = 0, b_perm = 1,
      b_senders = [], b_waits = None, b_blocked = 0, b_mail = []\<rparr> else None, \<lambda>_. None)"
    by (simp add: view_def s(4) boxes_of_def s(5,6) fun_eq_iff box_of_def new_mailbox_def live_def registered_def demo_message_def)
  have "map_option (\<lambda>(as, es, v). (as, es)) (run_spec (\<lambda>i. i) demo_session (view s)) = Some (demo_answers, demo_effects)"
    unfolding v by code_simp
  then obtain v' where "run_spec (\<lambda>i. i) demo_session (view s) = Some (demo_answers, demo_effects, v')" by auto
  from server_refines_boxes [OF sv this] s(1,3) show ?thesis
    by (auto simp: run_server_append simp del: upt_rec_numeral)
qed

end
