(* ===== verification/MbClient.thy ===== *)
theory MbClient
  imports MbLib MbServer
begin

text \<open>
  Client programs against the specification (prj_2/src/mailbox_lib.c down to mailbox.c): a
  session of library calls goes through the messages of the library, the call table and the
  handlers, and every caller is told what the specification of MbBoxes says.
\<close>

section \<open>Library calls\<close>

text \<open>The seven functions with their arguments; lists and strings are given by their addresses.\<close>

datatype lib_call =
    Deposit int int
  | Retrieve int int
  | CreateMailbox int
  | DestroyMailbox int
  | GetAvMailboxes int
  | RegisterMailbox int
  | GetSenders int int

fun lib_trap :: "client \<Rightarrow> lib_call \<Rightarrow> nat \<times> message" where
  "lib_trap c (Deposit dst msg) = lib_deposit c dst msg"
| "lib_trap c (Retrieve source msg) = lib_retrieve c source msg"
| "lib_trap c (CreateMailbox p) = lib_create_mailbox c p"
| "lib_trap c (DestroyMailbox i) = lib_destroy_mailbox c i"
| "lib_trap c (GetAvMailboxes l) = lib_get_av_mailboxes c l"
| "lib_trap c (RegisterMailbox i) = lib_register_mb c i"
| "lib_trap c (GetSenders i l) = lib_get_senders c i l"

text \<open>
  What a function gives its caller: a value, no value (deposit ends without a return statement),
  or nothing yet, where the server keeps the caller waiting. deposit looks at the first entry of
  its list of destinations after the call, into which the server may have copied.
\<close>

datatype outcome = Returned int | NoValue | Waiting

definition dst_after :: "client \<Rightarrow> int \<Rightarrow> int \<Rightarrow> effect list \<Rightarrow> int" where
  "dst_after c dst = foldl (\<lambda>d e. case e of
     CopyOut ep a (Ints (x # _)) \<Rightarrow> if ep = endpoint c \<and> a = dst then x else d
   | _ \<Rightarrow> d)"

definition lib_return :: "surroundings \<Rightarrow> client \<Rightarrow> lib_call \<Rightarrow> answer \<Rightarrow> effect list \<Rightarrow> outcome" where
  "lib_return sr c q a es =
     (case a of
        SUSPEND \<Rightarrow> Waiting
      | Ret r \<Rightarrow> (case q of
          Deposit dst msg \<Rightarrow>
            (case deposit_result r (dst_after c dst (hd (ints_at sr dst)) es) of
               None \<Rightarrow> NoValue | Some x \<Rightarrow> Returned x)
        | _ \<Rightarrow> Returned r))"

text \<open>Each call comes with its caller and what the handler takes from its surroundings.\<close>

type_synonym session = "(surroundings \<times> client \<times> lib_call) list"

fun run_library :: "session \<Rightarrow> vfs \<Rightarrow> (outcome list \<times> vfs) res option" where
  "run_library [] s = Some (Inr ([], s))"
| "run_library ((sr, c, q) # cs) s =
     (case serve sr (lib_trap c q) s of
        None \<Rightarrow> None
      | Some (Inl e) \<Rightarrow> Some (Inl e)
      | Some (Inr (a, s1)) \<Rightarrow>
          map_option (\<lambda>r. bnd r (\<lambda>(os, s2).
              Inr (lib_return sr c q a (drop (length (effs s)) (effs s1)) # os, s2)))
            (run_library cs s1))"

section \<open>The specification of a session\<close>

fun spec_of :: "surroundings \<Rightarrow> client \<Rightarrow> lib_call \<Rightarrow> mb_call" where
  "spec_of sr c (Deposit dst msg) =
     DepositMb (who_p sr) (stack_int sr) (ints_at sr dst) (bytes_at sr msg) ((mes c)\<lparr>m7_p1 := msg, m7_p2 := dst\<rparr>)"
| "spec_of sr c (Retrieve source msg) = RetrieveMb (block_junk sr) (who_p sr) ((mes c)\<lparr>m7_p1 := msg\<rparr>)"
| "spec_of sr c (CreateMailbox p) = CreateMb (fresh_mailbox sr) ((mes_ids c)\<lparr>m7_i4 := p\<rparr>)"
| "spec_of sr c (DestroyMailbox i) = DestroyMb ((mes c)\<lparr>m7_i4 := i\<rparr>)"
| "spec_of sr c (GetAvMailboxes l) = ListMbs ((mes_ids c)\<lparr>m7_p1 := l\<rparr>)"
| "spec_of sr c (RegisterMailbox i) = RegisterMb ((mes_ids c)\<lparr>m7_i4 := i\<rparr>)"
| "spec_of sr c (GetSenders i l) = SendersMb (rx_pid sr) (list_junk sr) ((mes c)\<lparr>m7_i4 := i, m7_p1 := l\<rparr>)"

fun run_lib_spec ::
    "(int \<Rightarrow> int) \<Rightarrow> session \<Rightarrow> mb_view \<Rightarrow> (outcome list \<times> effect list \<times> mb_view) option" where
  "run_lib_spec fpe [] v = Some ([], [], v)"
| "run_lib_spec fpe ((sr, c, q) # cs) v =
     (case spec_call fpe (spec_of sr c q) v of
        None \<Rightarrow> None
      | Some (a, es, v1) \<Rightarrow>
          map_option (\<lambda>(os, es', v2). (lib_return sr c q a es # os, es @ es', v2)) (run_lib_spec fpe cs v1))"

lemma serve_spec: "serve sr (lib_trap c q) s = Some (handle (fproc_endpt sr) (spec_of sr c q) s)"
  by (cases q) (simp_all add: serve_library plain_answer_def returns_def)

lemma dst_after_seen: "dst_after c dst d (map seen es) = dst_after c dst d es"
proof (induction es arbitrary: d)
  case (Cons e es)
  have "(case seen e of CopyOut ep a (Ints (x # _)) \<Rightarrow> if ep = endpoint c \<and> a = dst then x else d | _ \<Rightarrow> d) =
      (case e of CopyOut ep a (Ints (x # _)) \<Rightarrow> if ep = endpoint c \<and> a = dst then x else d | _ \<Rightarrow> d)"
    by (cases e rule: seen.cases) simp_all
  with Cons show ?case by (simp add: dst_after_def)
qed (simp add: dst_after_def)

lemma lib_return_seen: "lib_return sr c q a (map seen es) = lib_return sr c q a es"
  by (simp add: lib_return_def dst_after_seen split: answer.split lib_call.split)

lemma new_effects:
  assumes "map seen xs = map seen ys @ es"
  shows "map seen (drop (length ys) xs) = es"
  using arg_cong [OF assms, of "drop (length ys)"] by (simp add: drop_map)

lemma library_refines:
  "serving s \<Longrightarrow> \<forall>(sr, c, q)\<in>set cs. fproc_endpt sr = fpe \<Longrightarrow> run_lib_spec fpe cs (view s) = Some (os, es, v) \<Longrightarrow>
    \<exists>s'. run_library cs s = Some (Inr (os, s')) \<and> view s' = v \<and> map seen (effs s') = map seen (effs s) @ es \<and> serving s'"
proof (induction cs arbitrary: s os es)
  case (Cons x cs)
  obtain sr c q where x: "x = (sr, c, q)" by (cases x)
  from Cons.prems(3) obtain a es1 v1 os2 es2 where sp: "spec_call fpe (spec_of sr c q) (view s) = Some (a, es1, v1)"
    "run_lib_spec fpe cs v1 = Some (os2, es2, v)" "os = lib_return sr c q a es1 # os2" "es = es1 @ es2"
    by (auto simp: x split: option.splits)
  from call_refines [OF Cons.prems(1) sp(1)] obtain s1 where
    s1: "handle fpe (spec_of sr c q) s = Inr (a, s1)" "view s1 = v1" "map seen (effs s1) = map seen (effs s) @ es1" "serving s1"
    by (auto simp: view_refined_def)
  have sv: "serve sr (lib_trap c q) s = Some (Inr (a, s1))" using Cons.prems(2) s1(1) by (simp add: serve_spec x)
  have "lib_return sr c q a (drop (length (effs s)) (effs s1)) = lib_return sr c q a es1"
    using lib_return_seen new_effects [OF s1(3)] by metis
  with Cons.IH [OF s1(4), of os2 es2] Cons.prems(2) sp s1 sv show ?case by (auto simp: x)
qed auto

section \<open>Properties\<close>

text \<open>
  C3. Client programs see ten boxes of strings. For any session of calls of the seven library
  functions by any processes, the message a function makes is taken by the call table to the
  handler meant for it, with every argument in its place; each function returns to its caller,
  or keeps it waiting, as the specification says: deposit returns 0, or -2 where the server has
  found a deadlock and written so into the list of destinations, and no value at all where the
  server refuses; and what is copied to the processes is what the specification says.
\<close>

theorem library_sessions:
  assumes "serving s" and "\<forall>(sr, c, q)\<in>set cs. fproc_endpt sr = fpe"
    and "run_lib_spec fpe cs (view s) = Some (os, es, v)"
  shows "\<exists>s'. run_library cs s = Some (Inr (os, s')) \<and> view s' = v \<and>
    map seen (effs s') = map seen (effs s) @ es \<and> serving s'"
  using assms by (rule library_refines)

text \<open>
  Ten boxes: 105 and 106 register with each other and fill each other's boxes. 107 is refused,
  104 waits for a message, 105 asks for its senders. The eleventh deposit of 105 waits, that of
  106 finds the deadlock. The context of 106 stays as it was, although 106 has its answer, so the
  next deposit of 105 to the full box is taken for a deadlock again, and 106 is told once more,
  in the middle of whatever it does.
\<close>

definition sends :: "int list \<Rightarrow> string \<Rightarrow> int \<Rightarrow> surroundings" where
  "sends ds str p = demo_surroundings\<lparr>who_p := p, rx_pid := 105, ints_at := \<lambda>_. ds,
     bytes_at := \<lambda>_. str @ replicate (256 - length str) NUL\<rparr>"

definition client_session :: session where
  "client_session =
     [(sends [] [] 0, demo_client 105, RegisterMailbox 6), (sends [] [] 0, demo_client 106, RegisterMailbox 5),
      (sends [105, -1] ''no'' 9, demo_client 107, Deposit 512 0),
      (sends [] [] 4, demo_client 104, Retrieve 1 640),
      (sends [] [] 0, demo_client 105, GetSenders 5 640)] @
     replicate 11 (sends [106, -1] ''to'' 5, demo_client 105, Deposit 512 0) @
     replicate 11 (sends [105, -1] ''fr'' 6, demo_client 106, Deposit 512 0) @
     [(sends [106, -1] ''to'' 5, demo_client 105, Deposit 512 0), (sends [] [] 6, demo_client 106, Retrieve 1 640)]"

definition ten_boxes :: "mb_call list" where
  "ten_boxes = map (\<lambda>i. CreateMb demo_block (demo_message\<lparr>m7_i1 := 100 + int i, m7_i4 := 1\<rparr>)) [0..<10]"

theorem library_sessions_witness:
  "\<exists>s s'. run_server (\<lambda>i. i) ten_boxes boot = Inr (map (\<lambda>i. Ret (int i)) [0..<10], s) \<and>
     run_library client_session s = Some (Inr ([Returned 0, Returned 0, NoValue, Waiting, Returned 0] @
       replicate 10 (Returned 0) @ [Waiting] @ replicate 10 (Returned 0) @ [Returned (-2), Returned (-2), Returned 0], s')) \<and>
     map seen (effs s') = [CopyOut 1105 640 (Ints [106, 0]), CopyOut 1105 512 (Ints [-2, -2]), Reply 5 0,
       CopyOut 1106 512 (Ints [-2, -2]), CopyOut 1106 512 (Ints [-2, -2]), Reply 6 0, CopyOut 1105 512 (Ints [-2, -2]),
       CopyOut 1106 640 (Bytes ''to'')]"
proof -
  let ?m = "\<lambda>i. demo_message\<lparr>m7_i1 := 100 + int i, m7_i4 := 1\<rparr>"
  have "\<forall>i<10. front ((\<lambda>_. demo_block) i) = NULL" by (simp add: demo_block_def)
  from ten_creations [OF this, of 10 "\<lambda>i. i" ?m] obtain s where
    s: "run_server (\<lambda>i. i) ten_boxes boot = Inr (map (\<lambda>i. Ret (int i)) [0..<10], s)"
      "vfs_ok s" "effs s = []" "waits_of s = (\<lambda>_. None)" "items_at s = (\<lambda>i. [])"
      "slot s = (\<lambda>i. if i < 10 then Some (new_mailbox demo_block (int i) (?m i)) else None)"
    by (auto simp: ten_boxes_def simp del: upt_rec_numeral)
  have sv: "serving s" using s(2,5,6) by (simp add: serving_def populated_def list_all_iff)
  have v: "view s = (\<lambda>i. if i < 10 then Some \<lparr>b_live = True, b_owner = 100 + int i, b_uid = 0, b_gid = 0, b_perm = 1,
      b_senders = [], b_waits = None, b_blocked = 0, b_mail = []\<rparr> else None, \<lambda>_. None)"
    by (simp add: view_def s(4) boxes_of_def s(5,6) fun_eq_iff box_of_def new_mailbox_def live_def registered_def demo_message_def)
  let ?os = "[Returned 0, Returned 0, NoValue, Waiting, Returned 0] @
    replicate 10 (Returned 0) @ [Waiting] @ replicate 10 (Returned 0) @ [Returned (-2), Returned (-2), Returned 0]"
  let ?es = "[CopyOut 1105 640 (Ints [106, 0]), CopyOut 1105 512 (Ints [-2, -2]), Reply 5 0,
    CopyOut 1106 512 (Ints [-2, -2]), CopyOut 1106 512 (Ints [-2, -2]), Reply 6 0, CopyOut 1105 512 (Ints [-2, -2]),
    CopyOut 1106 640 (Bytes ''to'')]"
  have "map_option (\<lambda>(os, es, v). (os, es)) (run_lib_spec (\<lambda>i. i) client_session (view s)) = Some (?os, ?es)"
    unfolding v by code_simp
  then obtain v' where r: "run_lib_spec (\<lambda>i. i) client_session (view s) = Some (?os, ?es, v')" by auto
  have e: "\<forall>(sr, c, q)\<in>set client_session. fproc_endpt sr = (\<lambda>i. i)"
    by (simp add: client_session_def sends_def demo_surroundings_def)
  from library_sessions [OF sv e r] s(1,3) show ?thesis by auto
qed

end
