(* ===== verification/MbLive.thy ===== *)
theory MbLive
  imports MbDemo
begin

text \<open>
  A receiver that waits (prj_2/src/mailbox.c): what do_retrieve records of it survives every
  call that the other processes make, until a deposit answers it.
\<close>

section \<open>Waiting\<close>

text \<open>
  What is asked of the slots of the mailbox table while the process \<open>rx\<close> waits on mailbox i:
  slot i records its process slot, its endpoint and the address it gave, is empty, and no
  earlier slot belongs to it, so that the search for its mailbox finds i.
\<close>

definition recorded :: "nat \<Rightarrow> int \<Rightarrow> int \<Rightarrow> message \<Rightarrow> nat \<Rightarrow> MailBox \<Rightarrow> bool" where
  "recorded i rx who m_in j mb \<longleftrightarrow>
     (j < i \<longrightarrow> owner_pid mb \<noteq> rx) \<and>
     (j = i \<longrightarrow> live mb \<and> owner_pid mb = rx \<and> rx_suspended mb = 1 \<and> num_messages mb = 0 \<and>
        sus_end_p mb = who \<and> sus_m_source mb = m_source m_in \<and> m7_p1 (sus_message mb) = m7_p1 m_in)"

definition awaits :: "nat \<Rightarrow> int \<Rightarrow> int \<Rightarrow> message \<Rightarrow> vfs \<Rightarrow> bool" where
  "awaits i rx who m_in s \<longleftrightarrow> i < MAX_MAILBOXES \<and> 0 < rx \<and>
     (\<forall>j<MAX_MAILBOXES. case slot s j of None \<Rightarrow> False | Some mb \<Rightarrow> recorded i rx who m_in j mb)"

lemma awaits_at:
  assumes "awaits i rx who m_in s" and "j < MAX_MAILBOXES"
  obtains mb where "slot s j = Some mb" "recorded i rx who m_in j mb"
  using assms by (auto simp: awaits_def split: option.splits)

lemma awaits_slot: "awaits i rx who m_in s \<Longrightarrow> vfs_ok s \<Longrightarrow> slot s j = Some mb \<Longrightarrow> recorded i rx who m_in j mb"
  by (auto simp: awaits_def dest: slot_bound [OF vfs_ok_tables] split: option.splits)

text \<open>One slot rewritten.\<close>

lemma awaits_update:
  assumes "awaits i rx who m_in s" and "slot s' = (slot s)(k \<mapsto> mb)" and "recorded i rx who m_in k mb"
  shows "awaits i rx who m_in s'"
  using assms by (auto simp: awaits_def)

lemma awaits_same: "slot s' = slot s \<Longrightarrow> awaits i rx who m_in s' = awaits i rx who m_in s"
  by (simp add: awaits_def)

lemma slot_put_store:
  assumes "vfs_ok s" and "slot s k = Some m" and "mbList s1 = mbList s"
  shows "slot (put_slot k mb s1) = (slot s)(k \<mapsto> mb)"
proof -
  have "mbList (put_slot k mb s1) = mbList (put_slot k mb s)" using assms(3) by simp
  from slot_cong [OF this] slot_put [OF assms(1,2)] show ?thesis by (simp add: fun_eq_iff)
qed

section \<open>The steps of the other processes\<close>

text \<open>
  A process that waits makes no call. The others may call whatever they like, but the waiting
  one's mailbox is not destroyed.
\<close>

inductive others_step :: "nat \<Rightarrow> int \<Rightarrow> vfs \<Rightarrow> vfs \<Rightarrow> bool" for i rx where
  "do_create_mailbox block m s = Inr (r, s') \<Longrightarrow> front block = NULL \<Longrightarrow> m7_i1 m \<noteq> rx \<Longrightarrow> others_step i rx s s'"
| "do_destroy_mailbox m s = Inr (r, s') \<Longrightarrow> m7_i4 m \<noteq> int i \<Longrightarrow> others_step i rx s s'"
| "do_get_av_mailboxes m s = Inr (r, s') \<Longrightarrow> others_step i rx s s'"
| "do_register_mb m s = Inr (r, s') \<Longrightarrow> others_step i rx s s'"
| "do_get_senders g junk m s = Inr (r, s') \<Longrightarrow> others_step i rx s s'"
| "do_deposit fpe j w dest bytes m s = Inr (a, s') \<Longrightarrow> others_step i rx s s'"
| "do_retrieve block_bytes w m s = Inr (a, s') \<Longrightarrow> m7_i1 m \<noteq> rx \<Longrightarrow> others_step i rx s s'"

lemma others_step_ok: "others_step i rx s s' \<Longrightarrow> vfs_ok s \<Longrightarrow> vfs_ok s'"
  by (erule others_step.cases) (blast intro: vfs_step_ok vfs_step.intros)+

lemma awaits_create:
  assumes ok: "vfs_ok s" and w: "awaits i rx who m_in s" and f: "front block = NULL"
    and call: "do_create_mailbox block m s = Inr (r, s')" and m: "m7_i1 m \<noteq> rx"
  shows "awaits i rx who m_in s'"
  using ok f
proof (rule create_effect [where m_in = m])
  assume "do_create_mailbox block m s = Inr (-1, initialised s)"
  then have "slot s' = slot s" using call vfs_ok_initialised [OF ok] by simp
  with w awaits_same show ?thesis by blast
next
  fix k s1
  assume k: "k < MAX_MAILBOXES" "\<not> live_at s k" "do_create_mailbox block m s = Inr (int k, s1)"
    "slot s1 = (slot s)(k \<mapsto> new_mailbox block (int k) m)"
  obtain mb where "slot s k = Some mb" "recorded i rx who m_in k mb" using awaits_at [OF w k(1)] .
  with k(2) have "k \<noteq> i" by (auto simp: recorded_def live_at_def)
  then have "recorded i rx who m_in k (new_mailbox block (int k) m)"
    using m by (simp add: recorded_def new_mailbox_def)
  with awaits_update [OF w k(4)] call k(3) show ?thesis by simp
qed

lemma awaits_destroy:
  assumes ok: "vfs_ok s" and w: "awaits i rx who m_in s"
    and call: "do_destroy_mailbox m s = Inr (r, s')" and m: "m7_i4 m \<noteq> int i"
  shows "awaits i rx who m_in s'"
  using ok call
proof (rule do_destroy_mailbox_cases)
  assume "s' = s"
  with w show ?thesis by simp
next
  fix k mb s1
  assume k: "m7_i4 m = int k" "slot s k = Some mb" "s' = put_slot k (destroyed mb) s1"
    "s1 = (if live mb then s\<lparr>mb_id_pool := xor (mb_id_pool s) (push_bit k 1)\<rparr> else s)"
  have "mbList s1 = mbList s" using k(4) by simp
  from slot_put_store [OF ok k(2) this] k(3) have sl: "slot s' = (slot s)(k \<mapsto> destroyed mb)" by simp
  have "k \<noteq> i" "0 < rx" using k(1) m w by (auto simp: awaits_def)
  then have "recorded i rx who m_in k (destroyed mb)" by (simp add: recorded_def destroyed_def)
  with awaits_update [OF w sl] show ?thesis .
qed

lemma set_sender_mbList: "set_sender_local_id s pid = Inr (r, s') \<Longrightarrow> mbList s' = mbList s"
  by (drule set_sender_local_id_Inr) auto

lemma awaits_register:
  assumes ok: "vfs_ok s" and w: "awaits i rx who m_in s" and call: "do_register_mb m s = Inr (r, s')"
  shows "awaits i rx who m_in s'"
proof -
  have t: "tables_ok s" using ok by (rule vfs_ok_tables)
  from call have "s' = s \<or> (\<exists>mb k n s1 q. get_mb s (m7_i4 m) = Inr mb \<and>
      set_mb s (m7_i4 m) (mb\<lparr>senders := (senders mb)[k := m7_i1 m], num_senders := n\<rparr>) = Inr s1 \<and>
      set_sender_local_id s1 (m7_i1 m) = Inr (q, s'))"
    by (auto simp: do_register_mb_def Let_def bnd_eq_Inr split: if_splits option.splits sum.splits)
  then show ?thesis
  proof
    assume "\<exists>mb k n s1 q. get_mb s (m7_i4 m) = Inr mb \<and>
      set_mb s (m7_i4 m) (mb\<lparr>senders := (senders mb)[k := m7_i1 m], num_senders := n\<rparr>) = Inr s1 \<and>
      set_sender_local_id s1 (m7_i1 m) = Inr (q, s')"
    then obtain mb k n s1 q where c: "get_mb s (m7_i4 m) = Inr mb"
      "set_mb s (m7_i4 m) (mb\<lparr>senders := (senders mb)[k := m7_i1 m], num_senders := n\<rparr>) = Inr s1"
      "set_sender_local_id s1 (m7_i1 m) = Inr (q, s')" by blast
    let ?m = "mb\<lparr>senders := (senders mb)[k := m7_i1 m], num_senders := n\<rparr>" and ?k = "nat (m7_i4 m)"
    have sl: "slot s ?k = Some mb" using c(1) get_mb_slot [OF t] by simp
    have "s1 = put_slot ?k ?m s" using c(2) set_mb_put [OF t] by simp
    with slot_cong [OF set_sender_mbList [OF c(3)]] slot_put_store [OF ok sl refl]
    have "slot s' = (slot s)(?k \<mapsto> ?m)" by simp
    moreover have "recorded i rx who m_in ?k ?m"
      using awaits_slot [OF w ok sl] by (simp add: recorded_def live_def)
    ultimately show ?thesis using awaits_update [OF w] by blast
  qed (use w in simp)
qed

lemma awaits_put:
  assumes ok: "vfs_ok s" and w: "awaits i rx who m_in s" and sl: "slot s k = Some m"
    and call: "putMsg fpe m msg s = Inr (r, m1, s1)"
  shows "awaits i rx who m_in (put_slot k m1 s1)"
proof -
  have rec: "recorded i rx who m_in k m" using awaits_slot [OF w ok sl] .
  have "recorded i rx who m_in k m1 \<and> mbList s1 = mbList s"
    using queue_at [OF ok sl] call
    by (rule putMsg_cases) (use rec in \<open>auto simp: unsuspend_rx_def emit_def recorded_def\<close>)
  then show ?thesis using awaits_update [OF w slot_put_store [OF ok sl]] by blast
qed

lemma awaits_suspend:
  assumes ok: "vfs_ok s" and w: "awaits i rx who m_in s" and sl: "slot s k = Some m"
  shows "awaits i rx who m_in (put_slot k (m\<lparr>suspended_sender := ss, sus_sender_idx := n\<rparr>) s)"
  by (rule awaits_update [OF w slot_put_store [OF ok sl refl]])
    (use awaits_slot [OF w ok sl] in \<open>simp add: recorded_def live_def\<close>)

lemma set_ctx_mbList: "set_ctx s k c = Inr s' \<Longrightarrow> mbList s' = mbList s"
  by (auto simp: set_ctx_def bnd_eq_Inr)

lemma indicate_mbList: "indicate_loop n fpe junk l cursor s = Inr (r, s') \<Longrightarrow> mbList s' = mbList s"
proof (induction n arbitrary: cursor s)
  case (Suc n)
  from Suc.prems Suc.IH show ?case
    by (fastforce simp: bnd_eq_Inr emit_def split: option.splits if_splits dest: set_ctx_mbList)
qed simp

lemma deposit_slots:
  assumes "do_deposit fpe junk w dest bytes m s = Inr (a, s')"
  obtains code sus s1 where "deposit_loop fpe (m7_i1 m) \<lparr>data = bytes, sender_id = m7_i1 m\<rparr> dest [] s = Inr (code, sus, s1)"
    "slot s' = slot s1"
proof -
  from assms obtain code sus s1 where
    l: "deposit_loop fpe (m7_i1 m) \<lparr>data = bytes, sender_id = m7_i1 m\<rparr> dest [] s = Inr (code, sus, s1)"
    by (auto simp: do_deposit_def Let_def bnd_eq_Inr)
  have "mbList s' = mbList s1"
    using assms l
    by (auto simp: do_deposit_def Let_def bnd_eq_Inr emit_def indicate_deadlock_def
        split: option.splits if_splits dest!: set_ctx_mbList indicate_mbList)
  from that [OF l slot_cong [OF this]] show thesis .
qed

lemma awaits_deposit:
  assumes ok: "vfs_ok s" and w: "awaits i rx who m_in s"
    and call: "do_deposit fpe junk p dest bytes m s = Inr (a, s')"
  shows "awaits i rx who m_in s'"
  using call
proof (rule deposit_slots)
  fix code sus s1
  assume l: "deposit_loop fpe (m7_i1 m) \<lparr>data = bytes, sender_id = m7_i1 m\<rparr> dest [] s = Inr (code, sus, s1)"
    and sl: "slot s' = slot s1"
  have "dest_range []" by (simp add: dest_range_def)
  have "vfs_ok s1 \<and> dest_range sus \<and> awaits i rx who m_in s1"
    by (rule deposit_loop_rule [where P = "awaits i rx who m_in", OF _ _ ok \<open>dest_range []\<close> w l])
      (rule awaits_put awaits_suspend, assumption+)+
  then have "awaits i rx who m_in s1" by blast
  with awaits_same [OF sl] show ?thesis by simp
qed

lemma awaits_retrieve:
  assumes ok: "vfs_ok s" and w: "awaits i rx who m_in s"
    and call: "do_retrieve junk p m s = Inr (a, s')" and m: "m7_i1 m \<noteq> rx"
  shows "awaits i rx who m_in s'"
  using ok call
proof (rule do_retrieve_cases)
  assume "s' = s"
  with w show ?thesis by simp
next
  fix k and mb :: MailBox
  let ?mb = "mb\<lparr>rx_suspended := 1, sus_end_p := p, sus_m_source := m_source m,
              sus_message := (sus_message mb)\<lparr>m7_p1 := m7_p1 m\<rparr>\<rparr>"
  assume k: "slot s k = Some mb" "owner_pid mb = m7_i1 m" "s' = put_slot k ?mb s"
  have "recorded i rx who m_in k ?mb"
    using awaits_slot [OF w ok k(1)] k(2) m by (auto simp: recorded_def)
  with awaits_update [OF w slot_put_store [OF ok k(1) refl]] k(3) show ?thesis by simp
next
  fix k buf f b and mb mb' :: MailBox
  assume k: "slot s k = Some mb" "owner_pid mb = m7_i1 m"
    and mb': "mb' = mb\<lparr>front := f, rear := b, num_messages := num_messages mb - 1\<rparr>"
    and s': "s' = emit [CopyOut (m_source m) (m7_p1 m) (Bytes buf)] (put_slot k (mb'\<lparr>rx_suspended := 0\<rparr>) s)"
  have "recorded i rx who m_in k (mb'\<lparr>rx_suspended := 0\<rparr>)"
    using awaits_slot [OF w ok k(1)] k(2) m mb' by (auto simp: recorded_def)
  with awaits_update [OF w slot_put_store [OF ok k(1) refl]]
  have "awaits i rx who m_in (put_slot k (mb'\<lparr>rx_suspended := 0\<rparr>) s)" by blast
  with awaits_same [of s' "put_slot k (mb'\<lparr>rx_suspended := 0\<rparr>) s"] s' show ?thesis by (simp add: fun_eq_iff)
qed

lemma awaits_step:
  assumes "others_step i rx s s'" and "vfs_ok s" and "awaits i rx who m_in s"
  shows "awaits i rx who m_in s'"
  using assms(1)
proof cases
  case (1 block m r)
  with awaits_create [OF assms(2,3)] show ?thesis by blast
next
  case (2 m r)
  with awaits_destroy [OF assms(2,3)] show ?thesis by blast
next
  case (3 m r)
  then obtain es where "s' = emit es s" using emit_only(1) by blast
  with assms(3) awaits_same [of s' s] show ?thesis by (simp add: fun_eq_iff)
next
  case (4 m r)
  with awaits_register [OF assms(2,3)] show ?thesis by blast
next
  case (5 g junk m r)
  then obtain es where "s' = emit es s" using emit_only(2) by blast
  with assms(3) awaits_same [of s' s] show ?thesis by (simp add: fun_eq_iff)
next
  case (6 fpe j w dest bytes m a)
  with awaits_deposit [OF assms(2,3)] show ?thesis by blast
next
  case (7 block_bytes w m a)
  with awaits_retrieve [OF assms(2,3)] show ?thesis by blast
qed

lemma awaits_steps: "(others_step i rx)\<^sup>*\<^sup>* s s' \<Longrightarrow> vfs_ok s \<Longrightarrow> awaits i rx who m_in s \<Longrightarrow> vfs_ok s' \<and> awaits i rx who m_in s'"
  by (induction rule: rtranclp_induct) (auto intro: awaits_step others_step_ok)

section \<open>The deposit that answers\<close>

lemma awaits_owner:
  assumes "awaits i rx who m_in s"
  shows "populated s" and "owner_slot s rx = Some i"
proof -
  show "populated s" using assms by (auto simp: awaits_def populated_def list_all_iff split: option.splits)
  have i: "i < 10" using assms by (simp add: awaits_def)
  have low: "owner_pid mb \<noteq> rx" if "slot s j = Some mb" "j < i" for j mb
    using awaits_at [OF assms, of j] that i by (auto simp: recorded_def)
  obtain mb where "slot s i = Some mb" "owner_pid mb = rx"
    using awaits_at [OF assms i] by (auto simp: recorded_def)
  with i low show "owner_slot s rx = Some i"
    unfolding owner_slot_def find_Some_iff
    by (intro exI [of _ i]) (auto split: option.splits simp del: upt_rec_numeral)
qed

lemma retrieve_awaits:
  assumes ok: "vfs_ok s" and p: "populated s" and o: "owner_slot s (m7_i1 m_in) = Some i"
    and e: "items_at s i = []" and rx: "0 < m7_i1 m_in"
  obtains s' where "do_retrieve junk who m_in s = Inr (SUSPEND, s')" "vfs_ok s'"
    "awaits i (m7_i1 m_in) who m_in s'" "effs s' = effs s"
proof (rule retrieve_empty [OF ok p o e, where junk = junk and who = who])
  fix s' and mb :: MailBox
  let ?mb = "mb\<lparr>rx_suspended := 1, sus_end_p := who, sus_m_source := m_source m_in,
              sus_message := (sus_message mb)\<lparr>m7_p1 := m7_p1 m_in\<rparr>\<rparr>"
  assume c: "do_retrieve junk who m_in s = Inr (SUSPEND, s')" "slot s i = Some mb"
    "slot s' = (slot s)(i \<mapsto> ?mb)" "effs s' = effs s"
  have i: "i < 10" and own: "owner_pid mb = m7_i1 m_in" using owner_slotD [OF o] c(2) by auto
  have "live mb" using vfs_ok_slot [OF ok c(2)] own rx by (auto simp: slot_ok_def)
  moreover have "num_messages mb = 0"
    using queue_at [OF ok c(2)] e c(2) by (auto simp: items_at_def elim!: queue_okE)
  ultimately have r: "recorded i (m7_i1 m_in) who m_in i ?mb" using own by (simp add: recorded_def live_def)
  have low: "owner_pid m \<noteq> m7_i1 m_in" if "slot s j = Some m" "j < i" for j m
    using o that i unfolding owner_slot_def find_Some_iff by (auto simp del: upt_rec_numeral)
  have "awaits i (m7_i1 m_in) who m_in s'"
    unfolding awaits_def
  proof (intro conjI allI impI)
    fix j :: nat assume "j < 10"
    then obtain m where "slot s j = Some m" using populatedE [OF p] by blast
    with r low show "case slot s' j of None \<Rightarrow> False | Some mb \<Rightarrow> recorded i (m7_i1 m_in) who m_in j mb"
      by (auto simp: c(3) recorded_def)
  qed (use i rx in simp_all)
  with that c do_retrieve_ok [OF ok c(1)] show thesis by blast
qed

section \<open>Properties\<close>



end
