(* ===== verification/MbDeadProps.thy ===== *)
theory MbDeadProps
  imports MbDemo
begin

text \<open>
  The properties of the deadlock routines and of the table searches (prj_2/src/mailbox.c),
  with witnesses on the state of MbDemo.
\<close>

section \<open>check_dead_lock\<close>

lemma demo_contexts_exist: "susContext demo \<noteq> None"
  by (simp add: demo_def)

text \<open>
  C11. check_dead_lock answers 1 exactly when the caller lies on a cycle of the relation "the
  first mailbox x waits for is y's".
\<close>

theorem check_dead_lock_decides:
  assumes "vfs_ok s" and "susContext s \<noteq> None" and "0 \<le> local_id" and "local_id < 100"
  shows "check_dead_lock s local_id = Inr 1 \<longleftrightarrow> (local_id, local_id) \<in> (waits s)\<^sup>+"
  using assms by (rule check_iff)

theorem check_dead_lock_decides_witness: "check_dead_lock demo 3 = Inr 1"
proof -
  have "(3, 4) \<in> waits demo" "(4, 5) \<in> waits demo" "(5, 3) \<in> waits demo"
    using demo_waits by (simp_all add: waits_def)
  then have "(3, 3) \<in> (waits demo)\<^sup>+" by (meson r_into_trancl trancl_into_trancl)
  with check_dead_lock_decides [OF demo_ok demo_contexts_exist, of 3] show ?thesis by simp
qed

text \<open>
  C12. The while(1) of check_dead_lock ends within 101 rounds or never: more rounds never
  change the outcome, and it runs forever exactly when the chain of the caller enters a cycle
  that the caller is not on.
\<close>

theorem check_dead_lock_ends_or_loops:
  assumes "vfs_ok s" and "susContext s \<noteq> None" and "0 \<le> local_id" and "local_id < 100"
  shows "check_dead_lock_loop (check_fuel + n) s local_id local_id = check_dead_lock s local_id \<and>
    (check_dead_lock s local_id = Inl Diverges \<longleftrightarrow>
       (\<exists>z i k. (local_id, z) \<in> onward s local_id ^^ i \<and> (z, z) \<in> onward s local_id ^^ Suc k))"
  using check_fuel_enough [OF assms, of "check_fuel + n"] check_diverges_iff [OF assms] by simp

text \<open>The process 9 joins the demo state, waiting for the cycle of 0 and 1.\<close>

definition demo_lasso :: vfs where
  "demo_lasso = demo\<lparr>susContext := Some (demo_contexts[9 := Some (demo_ctx 0)])\<rparr>"

theorem check_dead_lock_ends_or_loops_witness: "check_dead_lock demo_lasso 9 = Inl Diverges"
proof -
  have C: "susContext demo = Some demo_contexts" by (simp add: demo_def)
  have ok: "vfs_ok demo_lasso" unfolding demo_lasso_def
    by (rule vfs_ok_ctx [OF demo_ok C])
      (auto simp: demo_ctx_def ctx_ok_def dest!: set_update_subset_insert [THEN subsetD])
  have C': "susContext demo_lasso \<noteq> None" by (simp add: demo_lasso_def)
  have w: "waits_on demo_lasso 9 = Some 0" "waits_on demo_lasso 0 = Some 1" "waits_on demo_lasso 1 = Some 0"
    by (simp_all add: waits_on_def ctx_ptr_def demo_lasso_def demo_contexts_def demo_ctx_def)
  then have o: "(9, 0) \<in> onward demo_lasso 9" "(0, 1) \<in> onward demo_lasso 9" "(1, 0) \<in> onward demo_lasso 9"
    by (simp_all add: onward_def waits_def)
  then have p: "(9, 0) \<in> onward demo_lasso 9 ^^ 1" "(0, 0) \<in> onward demo_lasso 9 ^^ Suc 1"
    by (auto intro: relcompI)
  have r: "(0::int) \<le> 9" "(9::int) < 100" by simp_all
  from check_dead_lock_ends_or_loops [OF ok C' r, of 0] p show ?thesis by blast
qed

section \<open>indicate_deadlock\<close>

text \<open>
  C13. indicate_deadlock always ends: each round either stops, or clears one more first entry
  of the at most 100 contexts, or leaves the caller's own slot, so 202 rounds are enough.
\<close>

theorem indicate_deadlock_ends:
  assumes "vfs_ok s"
  shows "indicate_deadlock fpe junk local_id s \<noteq> Inl Diverges"
  unfolding indicate_deadlock_def
  by (rule indicate_terminates) (use held_le [OF assms] in \<open>simp add: indicate_fuel_def\<close>)

theorem indicate_deadlock_ends_witness: "indicate_deadlock (\<lambda>i. i) 0 0 demo \<noteq> Inl Diverges"
  by (rule indicate_deadlock_ends [OF demo_ok])

text \<open>
  Two processes that wait for each other: the other process gets (-2, -2) and the answer
  0, and waits no more; no other context changes.
\<close>

theorem deadlock_of_two_is_broken:
  assumes "waits_on s local_id = Some a" and "waits_on s a = Some local_id" and "a \<noteq> local_id"
    and "ctx_ptr s a = Inr (Some c)"
  shows "\<exists>s'. indicate_deadlock fpe junk local_id s = Inr (1, s') \<and> waits_on s' a = None \<and>
    (\<forall>x. x \<noteq> a \<longrightarrow> waits_on s' x = waits_on s x) \<and>
    effs s' = effs s @ [CopyOut (ctx_m_source c) (ctx_p2 c) (Ints [-2, -2]), Reply (fpe (ctx_end_p c)) 0]"
  by (rule indicate_two [OF assms, where fpe = fpe and junk = junk]) blast

theorem deadlock_of_two_is_broken_witness:
  "\<exists>s'. indicate_deadlock (\<lambda>i. i + 100) 0 0 demo = Inr (1, s') \<and> waits_on s' 1 = None \<and>
     effs s' = [CopyOut 6 7 (Ints [-2, -2]), Reply 105 0]"
proof -
  have "effs demo = []" by (simp add: demo_def)
  with deadlock_of_two_is_broken [OF demo_waits(1,2) _ demo_ctx_ptr, of "\<lambda>i. i + 100" 0]
  show ?thesis by (auto simp: demo_ctx_def)
qed

text \<open>
  A deadlock of three processes is not broken: the loop moves its cursor twice after it
  revives a process, comes back to that process, and reads susContext at the index -1.
\<close>

theorem deadlock_of_three_faults:
  assumes "waits_on s local_id = Some a" and "waits_on s a = Some b" and "waits_on s b = Some local_id"
    and "a \<noteq> local_id" and "b \<noteq> local_id" and "a \<noteq> b"
  shows "indicate_deadlock fpe junk local_id s = Inl OutOfBounds"
  using assms by (rule indicate_three)

theorem deadlock_of_three_faults_witness: "indicate_deadlock (\<lambda>i. i) 0 3 demo = Inl OutOfBounds"
  by (rule deadlock_of_three_faults [OF demo_waits(3,4,5)]) simp_all

section \<open>Searches of the tables\<close>

text \<open>
  get_mb_id returns the first slot that the process owns; but it dereferences every slot
  on the way, so a slot that was never created before it is a null dereference, and -1 is the
  answer only when all ten mailboxes have been created.
\<close>

theorem get_mb_id_search:
  assumes "vfs_ok s" and "mbList s \<noteq> None"
  shows "get_mb_id s pid =
    (case find (\<lambda>i. case slot s i of None \<Rightarrow> True | Some mb \<Rightarrow> owner_pid mb = pid) [0..<MAX_MAILBOXES] of
       None \<Rightarrow> Inr (-1)
     | Some i \<Rightarrow> if slot s i = None then Inl NullDeref else Inr (int i))"
  using get_mb_id_spec [OF vfs_ok_tables [OF assms(1)] assms(2)] by (simp only: lookup_spec_def)

theorem get_mb_id_search_witness: "get_mb_id demo 100 = Inr 0"
proof -
  have "mbList demo \<noteq> None" by (simp add: demo_def)
  from get_mb_id_search [OF demo_ok this, of 100] show ?thesis by (simp add: demo_slot upt_conv_Cons)
qed

text \<open>
  do_get_av_mailboxes sends the caller the pair (id, owner) of every mailbox whose
  permissions let the caller in, in the order of the slots, then the pair (-1, -1); with ten
  such mailboxes the terminator is written behind the array.
\<close>

theorem available_mailboxes_listed:
  assumes "vfs_ok s" and "mbList s \<noteq> None"
  shows "do_get_av_mailboxes m_in s =
    (if length (visible s (m7_i2 m_in) (m7_i3 m_in) [0..<MAX_MAILBOXES]) < MAX_MAILBOXES
     then Inr (0, emit [CopyOut (m_source m_in) (m7_p1 m_in)
            (Ints (id_pairs (visible s (m7_i2 m_in) (m7_i3 m_in) [0..<MAX_MAILBOXES]) @ [-1, -1]))] s)
     else Inl OutOfBounds)"
  using assms by (rule av_mailboxes_effect)

theorem available_mailboxes_listed_witness: "do_get_av_mailboxes demo_message demo = Inl OutOfBounds"
proof -
  have L: "mbList demo \<noteq> None" by (simp add: demo_def)
  have a: "authorised (demo_mb i) 0 0" for i by (simp add: authorised_def EVERYONE_def)
  have "visible demo 0 0 is = map demo_mb is" if "set is \<subseteq> {..<10}" for "is"
    using that a by (induction "is") (simp_all add: demo_slot)
  from this [of "[0..<10]"] have "length (visible demo 0 0 [0..<MAX_MAILBOXES]) = 10"
    by (simp add: atLeast0LessThan)
  then show ?thesis
    using available_mailboxes_listed [OF demo_ok L, of demo_message]
    by (simp add: demo_message_def del: upt_rec_numeral)
qed

end
