(* ===== verification/AssocAr.thy ===== *)
theory AssocAr
  imports Prelude
begin

text \<open>
  The alias table of the shell (prj_1/assoc_ar.c): a main table of 256 entries indexed by a
  hash of the key, and an overflow table of 8 entries that is searched in order. Keys and
  values live in buffers of 256 characters. The interface \<open>dictionary\<close> says what the
  rest of the shell relies on.
\<close>

section \<open>Strings in buffers\<close>

text \<open>strcmp on two buffers, equal or not; it reads both up to the first difference or NUL.\<close>

fun streq :: "char list \<Rightarrow> char list \<Rightarrow> bool res" where
  "streq (a # as) (b # bs) =
     (if a \<noteq> b then Inr False else if a = NUL then Inr True else streq as bs)"
| "streq _ _ = Inl OutOfBounds"

text \<open>The value of a char: plain char is signed on the target.\<close>

definition schar :: "char \<Rightarrow> int" where
  "schar c = (if of_char c < (128::int) then of_char c else of_char c - 256)"

text \<open>A string that fits a buffer with its NUL.\<close>

definition fits256 :: "string \<Rightarrow> bool" where
  "fits256 s \<longleftrightarrow> NUL \<notin> set s \<and> length s < 256"

lemma streq_cstr:
  "NUL \<in> set xs \<Longrightarrow> NUL \<in> set ys \<Longrightarrow> streq xs ys = Inr (cstr xs = cstr ys)"
  by (induction xs ys rule: streq.induct) (auto simp: cstr_def)

lemma streq_key: "NUL \<notin> set k \<Longrightarrow> NUL \<in> set buf \<Longrightarrow> streq (k @ [NUL]) buf = Inr (cstr buf = k)"
  using streq_cstr [of "k @ [NUL]" buf] cstr_append_NUL [of k "[]"] by auto

lemma strcpy_key:
  assumes "fits256 k" and "length buf = 256"
  obtains buf' where "strcpy buf (k @ [NUL]) = Inr buf'" "cstr buf' = k" "length buf' = 256" "NUL \<in> set buf'"
  using assms by (auto simp: strcpy_def fits256_def)

section \<open>The table\<close>

record assoc_ar =
  cur_size :: nat
  ov_tbl_size :: nat
  key_tbl :: "char list list"
  val_tbl :: "char list list"
  hit_idx :: "int list"

abbreviation max_cur_size :: nat where "max_cur_size \<equiv> 256"
abbreviation max_ov_tbl_size :: nat where "max_ov_tbl_size \<equiv> 8"

text \<open>\<open>kj i k\<close> and \<open>vj i k\<close> are the bytes malloc leaves in the buffers of entry i.\<close>

definition init :: "(nat \<Rightarrow> nat \<Rightarrow> char) \<Rightarrow> (nat \<Rightarrow> nat \<Rightarrow> char) \<Rightarrow> assoc_ar" where
  "init kj vj =
     \<lparr>cur_size = 0, ov_tbl_size = 0,
      key_tbl = map (\<lambda>i. map (kj i) [0..<256]) [0..<max_cur_size + max_ov_tbl_size],
      val_tbl = map (\<lambda>i. map (vj i) [0..<256]) [0..<max_cur_size + max_ov_tbl_size],
      hit_idx = replicate max_cur_size (-1)\<rparr>"

text \<open>
  get_hash sums the (signed) characters and adds the two low bytes of the sum. The argument is
  the string; the sum of fewer than 256 characters is far inside the int range.
\<close>

definition get_hash :: "string \<Rightarrow> nat" where
  "get_hash p =
     (let sum = foldl (\<lambda>sum c. sum + schar c) 0 p
      in nat ((and sum 0xFF + and (drop_bit 8 sum) 0xFF) mod 256))"

text \<open>\<open>strcpy(t[i], s)\<close> and \<open>strcmp(key, t[i]) == 0\<close> on a table of buffers.\<close>

definition put_str :: "char list list \<Rightarrow> nat \<Rightarrow> string \<Rightarrow> char list list res" where
  "put_str t i s = bnd (rd t (int i)) (\<lambda>buf. bnd (strcpy buf (s @ [NUL])) (\<lambda>buf'. Inr (t[i := buf'])))"

definition key_at :: "assoc_ar \<Rightarrow> nat \<Rightarrow> string \<Rightarrow> bool res" where
  "key_at ar i key = bnd (rd (key_tbl ar) (int i)) (\<lambda>buf. streq (key @ [NUL]) buf)"

text \<open>The search of the overflow table: the index it stops at.\<close>

fun ov_search :: "assoc_ar \<Rightarrow> string \<Rightarrow> nat list \<Rightarrow> nat res" where
  "ov_search ar key [] = Inr (max_cur_size + ov_tbl_size ar)"
| "ov_search ar key (i # is) =
     bnd (key_at ar i key) (\<lambda>b. if b then Inr i else ov_search ar key is)"

definition add :: "assoc_ar \<Rightarrow> string \<Rightarrow> string \<Rightarrow> assoc_ar res" where
  "add ar key val =
     (let hash = get_hash key
      in bnd
        (bnd (rd (hit_idx ar) (int hash)) (\<lambda>h.
         if h = -1 then
           bnd (put_str (key_tbl ar) hash key) (\<lambda>kt.
           bnd (put_str (val_tbl ar) hash val) (\<lambda>vt.
             Inr (ar\<lparr>key_tbl := kt, val_tbl := vt, cur_size := cur_size ar + 1\<rparr>)))
         else
           bnd (key_at ar hash key) (\<lambda>b.
             if b then bnd (put_str (val_tbl ar) hash val) (\<lambda>vt. Inr (ar\<lparr>val_tbl := vt\<rparr>))
             else
               bnd (ov_search ar key [max_cur_size..<max_cur_size + ov_tbl_size ar]) (\<lambda>i.
                 if i = max_cur_size + ov_tbl_size ar then
                   bnd (put_str (key_tbl ar) i key) (\<lambda>kt.
                   bnd (put_str (val_tbl ar) i val) (\<lambda>vt.
                     Inr (ar\<lparr>key_tbl := kt, val_tbl := vt, ov_tbl_size := ov_tbl_size ar + 1\<rparr>)))
                 else bnd (put_str (val_tbl ar) i val) (\<lambda>vt. Inr (ar\<lparr>val_tbl := vt\<rparr>))))))
        (\<lambda>ar'. bnd (rd (hit_idx ar') (int hash)) (\<lambda>h.
           Inr (ar'\<lparr>hit_idx := (hit_idx ar')[hash := h + 1]\<rparr>))))"

text \<open>get returns a copy of the value as a fresh string, or null.\<close>

definition copy_val :: "assoc_ar \<Rightarrow> nat \<Rightarrow> string option res" where
  "copy_val ar i = bnd (rd (val_tbl ar) (int i)) (\<lambda>buf.
     if NUL \<notin> set buf then Inl OutOfBounds
     else if length (cstr buf) < 256 then Inr (Some (cstr buf)) else Inl BufferOverflow)"

definition get :: "assoc_ar \<Rightarrow> string \<Rightarrow> string option res" where
  "get ar key =
     (let hash = get_hash key
      in bnd (rd (hit_idx ar) (int hash)) (\<lambda>h.
         if h = -1 then Inr None
         else
           bnd (key_at ar hash key) (\<lambda>b.
             if b then copy_val ar hash
             else
               bnd (ov_search ar key [max_cur_size..<max_cur_size + ov_tbl_size ar]) (\<lambda>i.
                 if i = max_cur_size + ov_tbl_size ar then Inr None else copy_val ar i))))"

text \<open>write_alias: the lines it writes to the file, one write each.\<close>

definition alias_line :: "assoc_ar \<Rightarrow> nat \<Rightarrow> string res" where
  "alias_line ar i =
     bnd (rd (key_tbl ar) (int i)) (\<lambda>k.
     bnd (rd (val_tbl ar) (int i)) (\<lambda>v.
       if NUL \<in> set k \<and> NUL \<in> set v
       then Inr (''alias '' @ cstr k @ ''='' @ cstr v @ [CHR 0x0A]) else Inl OutOfBounds))"

fun write_alias_loop :: "assoc_ar \<Rightarrow> nat list \<Rightarrow> string list res" where
  "write_alias_loop ar [] = Inr []"
| "write_alias_loop ar (i # is) =
     bnd (rd (hit_idx ar) (int i)) (\<lambda>h.
       if h = -1 then write_alias_loop ar is
       else bnd (alias_line ar i) (\<lambda>l. bnd (write_alias_loop ar is) (\<lambda>ls. Inr (l # ls))))"

definition write_alias :: "assoc_ar \<Rightarrow> string list res" where
  "write_alias ar = write_alias_loop ar [0..<max_cur_size]"

section \<open>Invariant and location of a key\<close>

definition K :: "assoc_ar \<Rightarrow> nat \<Rightarrow> string" where
  "K ar i = cstr (key_tbl ar ! i)"

definition V :: "assoc_ar \<Rightarrow> nat \<Rightarrow> string" where
  "V ar i = cstr (val_tbl ar ! i)"

definition used :: "assoc_ar \<Rightarrow> nat \<Rightarrow> bool" where
  "used ar i \<longleftrightarrow> (if i < 256 then hit_idx ar ! i \<noteq> -1 else i < 256 + ov_tbl_size ar)"

definition buf_ok :: "char list \<Rightarrow> bool" where
  "buf_ok b \<longleftrightarrow> NUL \<in> set b"

definition ar_ok :: "assoc_ar \<Rightarrow> bool" where
  "ar_ok ar \<longleftrightarrow>
     length (key_tbl ar) = 264 \<and> length (val_tbl ar) = 264 \<and> length (hit_idx ar) = 256 \<and>
     ov_tbl_size ar \<le> 8 \<and> list_all (\<lambda>h. -1 \<le> h) (hit_idx ar) \<and>
     list_all (\<lambda>b. length b = 256) (key_tbl ar) \<and> list_all (\<lambda>b. length b = 256) (val_tbl ar) \<and>
     list_all (\<lambda>i. used ar i \<longrightarrow> buf_ok (key_tbl ar ! i) \<and> buf_ok (val_tbl ar ! i) \<and>
                  used ar (get_hash (K ar i)) \<and> (i < 256 \<longrightarrow> get_hash (K ar i) = i)) [0..<264]"

definition locate :: "assoc_ar \<Rightarrow> string \<Rightarrow> nat option" where
  "locate ar k =
     (if \<not> used ar (get_hash k) then None
      else if K ar (get_hash k) = k then Some (get_hash k)
      else find (\<lambda>i. K ar i = k) [256..<256 + ov_tbl_size ar])"

lemma get_hash_range [simp]: "get_hash k < 256"
  by (simp add: get_hash_def Let_def nat_less_iff)

lemma get_hash_lt [simp]: "get_hash k < 264" "256 + n \<noteq> get_hash k" "get_hash k \<noteq> 256 + n"
    "\<not> 256 \<le> get_hash k"
  using get_hash_range [of k] by linarith+

lemma ar_okD:
  assumes "ar_ok ar"
  shows ar_lengths: "length (key_tbl ar) = 264" "length (val_tbl ar) = 264" "length (hit_idx ar) = 256"
    and ar_ov: "ov_tbl_size ar \<le> 8"
    and ar_hits: "i < 256 \<Longrightarrow> -1 \<le> hit_idx ar ! i"
    and ar_bufs: "i < 264 \<Longrightarrow> length (key_tbl ar ! i) = 256" "i < 264 \<Longrightarrow> length (val_tbl ar ! i) = 256"
    and ar_used: "used ar i \<Longrightarrow> i < 264 \<Longrightarrow> NUL \<in> set (key_tbl ar ! i)"
      "used ar i \<Longrightarrow> i < 264 \<Longrightarrow> NUL \<in> set (val_tbl ar ! i)"
    and ar_hash: "used ar i \<Longrightarrow> i < 264 \<Longrightarrow> used ar (get_hash (K ar i))"
      "used ar i \<Longrightarrow> i < 256 \<Longrightarrow> get_hash (K ar i) = i"
  using assms by (auto simp: ar_ok_def list_all_iff buf_ok_def simp del: upt_rec_numeral)

lemma key_at_spec:
  assumes "ar_ok ar" and "used ar i" and "i < 264" and "NUL \<notin> set k"
  shows "key_at ar i k = Inr (K ar i = k)"
  using assms ar_lengths [OF assms(1)] ar_used [OF assms(1-3)]
  by (simp add: key_at_def streq_key K_def)

lemma ov_search_spec:
  assumes ok: "ar_ok ar" and k: "NUL \<notin> set k"
  shows "set is \<subseteq> {256..<256 + ov_tbl_size ar} \<Longrightarrow>
    ov_search ar k is = Inr (case find (\<lambda>i. K ar i = k) is of None \<Rightarrow> 256 + ov_tbl_size ar | Some i \<Rightarrow> i)"
proof (induction "is")
  case (Cons i "is")
  then have "used ar i" "i < 264" using ar_ov [OF ok] by (auto simp: used_def)
  with key_at_spec [OF ok this k] Cons show ?case by simp
qed simp

lemma ov_search_find:
  assumes ok: "ar_ok ar" and k: "NUL \<notin> set k"
  shows "ov_search ar k [256..<256 + ov_tbl_size ar] =
    Inr (case find (\<lambda>i. K ar i = k) [256..<256 + ov_tbl_size ar] of
           None \<Rightarrow> 256 + ov_tbl_size ar | Some i \<Rightarrow> i)"
  by (rule ov_search_spec [OF ok k]) auto

lemma find_range: "find P [a..<b] = Some i \<Longrightarrow> a \<le> i \<and> i < b \<and> P i"
  by (auto simp: find_Some_iff)

lemma locate_used:
  assumes "ar_ok ar" and "locate ar k = Some i"
  shows "used ar i \<and> i < 264 \<and> K ar i = k"
proof (cases "used ar (get_hash k) \<and> K ar (get_hash k) = k")
  case True
  with assms(2) have "i = get_hash k" by (simp add: locate_def)
  with True show ?thesis by simp
next
  case False
  with assms(2) have "find (\<lambda>i. K ar i = k) [256..<256 + ov_tbl_size ar] = Some i"
    by (auto simp: locate_def split: if_splits)
  from find_range [OF this] ar_ov [OF assms(1)] show ?thesis by (simp add: used_def)
qed

lemma copy_val_spec:
  assumes "ar_ok ar" and "used ar i" and "i < 264"
  shows "copy_val ar i = Inr (Some (V ar i))"
  using ar_lengths [OF assms(1)] ar_used [OF assms] ar_bufs [OF assms(1,3)] assms(3)
    cstr_short [of "val_tbl ar ! i"] by (simp add: copy_val_def V_def)

lemma get_locate:
  assumes ok: "ar_ok ar" and k: "NUL \<notin> set k"
  shows "get ar k = Inr (map_option (V ar) (locate ar k))"
proof (cases "used ar (get_hash k)")
  case False
  then show ?thesis using ar_lengths [OF ok] by (simp add: get_def locate_def used_def)
next
  case True
  let ?h = "get_hash k" let ?f = "find (\<lambda>i. K ar i = k) [256..<256 + ov_tbl_size ar]"
  have h: "hit_idx ar ! ?h \<noteq> -1" "?h < 264" using True by (simp_all add: used_def less_le_trans [OF get_hash_range])
  note ka = key_at_spec [OF ok True h(2) k]
  show ?thesis
  proof (cases "K ar ?h = k")
    case eq: True
    then show ?thesis using True h ka ar_lengths [OF ok] copy_val_spec [OF ok True h(2)]
      by (simp add: get_def locate_def)
  next
    case ne: False
    have u: "get ar k = (case ?f of None \<Rightarrow> Inr None | Some i \<Rightarrow> copy_val ar i)"
      using h ka ne ar_lengths [OF ok] ov_search_find [OF ok k]
      by (auto simp: get_def simp del: upt_rec_numeral split: option.split dest: find_range)
    show ?thesis
    proof (cases ?f)
      case None
      with u True ne show ?thesis by (simp add: locate_def)
    next
      case (Some i)
      with find_range [OF Some] ar_ov [OF ok] have "used ar i" "i < 264" by (auto simp: used_def)
      with u True ne Some copy_val_spec [OF ok] show ?thesis by (simp add: locate_def)
    qed
  qed
qed

section \<open>What add does\<close>

lemma put_str_ok:
  assumes "list_all (\<lambda>b. length b = 256) t" and "i < length t" and "fits256 s"
  obtains t' where "put_str t i s = Inr t'" "length t' = length t" "cstr (t' ! i) = s" "NUL \<in> set (t' ! i)"
    "length (t' ! i) = 256" "\<And>j. j \<noteq> i \<Longrightarrow> t' ! j = t ! j" "list_all (\<lambda>b. length b = 256) t'"
proof -
  have "length (t ! i) = 256" using assms(1,2) by (simp add: list_all_length)
  then obtain b where b: "strcpy (t ! i) (s @ [NUL]) = Inr b" "cstr b = s" "length b = 256" "NUL \<in> set b"
    using strcpy_key [OF assms(3)] by metis
  show thesis
    by (rule that [of "t[i := b]"])
      (use b assms in \<open>auto simp: put_str_def list_all_length nth_list_update\<close>)
qed

text \<open>
  Storing \<open>v\<close> under \<open>k\<close> in entry i, and counting the hit: the new table is consistent, and
  the entry is where k is found from then on.
\<close>

definition stored :: "assoc_ar \<Rightarrow> assoc_ar \<Rightarrow> nat \<Rightarrow> string \<Rightarrow> string \<Rightarrow> bool" where
  "stored ar ar' i k v \<longleftrightarrow>
     K ar' i = k \<and> V ar' i = v \<and> (\<forall>j. j \<noteq> i \<longrightarrow> K ar' j = K ar j \<and> V ar' j = V ar j) \<and>
     (\<forall>j. used ar' j \<longleftrightarrow> used ar j \<or> j = i) \<and> ar_ok ar'"

lemma hit_count:
  assumes ok: "ar_ok ar" and h: "h < 256" and j: "j < 256"
  shows "(hit_idx ar)[h := hit_idx ar ! h + 1] ! j \<noteq> -1 \<longleftrightarrow> hit_idx ar ! j \<noteq> -1 \<or> j = h"
  using ar_lengths [OF ok] ar_hits [OF ok h] j h by (auto simp: nth_list_update)

lemma add_at:
  assumes ok: "ar_ok ar" and k: "fits256 k" and v: "fits256 v"
    and i: "i = get_hash k \<or> (used ar (get_hash k) \<and> 256 \<le> i \<and> i < 264 \<and> i < 256 + ov)"
    and ov: "ov = (if i = 256 + ov_tbl_size ar then Suc (ov_tbl_size ar) else ov_tbl_size ar)"
    and kt: "length kt = 264" "list_all (\<lambda>b. length b = 256) kt" "cstr (kt ! i) = k" "NUL \<in> set (kt ! i)"
      "\<And>j. j \<noteq> i \<Longrightarrow> kt ! j = key_tbl ar ! j"
    and vt: "length vt = 264" "list_all (\<lambda>b. length b = 256) vt" "cstr (vt ! i) = v" "NUL \<in> set (vt ! i)"
      "\<And>j. j \<noteq> i \<Longrightarrow> vt ! j = val_tbl ar ! j"
  shows "stored ar (ar\<lparr>cur_size := n, ov_tbl_size := ov, key_tbl := kt, val_tbl := vt,
            hit_idx := (hit_idx ar)[get_hash k := hit_idx ar ! get_hash k + 1]\<rparr>) i k v"
    (is "stored ar ?ar i k v")
proof -
  let ?h = "get_hash k"
  have K: "K ?ar j = (if j = i then k else K ar j)" "V ?ar j = (if j = i then v else V ar j)" for j
    using kt vt by (simp_all add: K_def V_def)
  have u: "used ?ar j \<longleftrightarrow> used ar j \<or> j = i" for j
  proof (cases "j < 256")
    case True
    then have "used ?ar j \<longleftrightarrow> used ar j \<or> j = ?h"
      using hit_count [OF ok get_hash_range True, of k] by (simp add: used_def)
    moreover have "i \<noteq> ?h \<Longrightarrow> used ar ?h \<and> j \<noteq> i" using i True by auto
    ultimately show ?thesis by blast
  next
    case False
    then show ?thesis using i ov get_hash_range [of k] by (auto simp: used_def split: if_splits)
  qed
  have "ov \<le> 8" using i ov ar_ov [OF ok] by (auto split: if_splits)
  moreover have "list_all (\<lambda>h. -1 \<le> h) (hit_idx ?ar)"
    using ar_hits [OF ok] ar_lengths [OF ok] by (auto simp: list_all_length nth_list_update) (smt (verit) get_hash_range)
  moreover have "buf_ok (kt ! j) \<and> buf_ok (vt ! j) \<and> used ?ar (get_hash (K ?ar j)) \<and>
      (j < 256 \<longrightarrow> get_hash (K ?ar j) = j)" if "used ?ar j" "j < 264" for j
  proof (cases "j = i")
    case True
    have a: "used ?ar ?h" using i u by blast
    have b: "i < 256 \<longrightarrow> ?h = i" using i by auto
    have c: "buf_ok (kt ! j) \<and> buf_ok (vt ! j)" using True kt vt by (simp add: buf_ok_def)
    have d: "K ?ar j = k" using K(1) [of j] True by simp
    show ?thesis unfolding d using a b c True by blast
  next
    case False
    with that u have "used ar j" by simp
    with ar_used [OF ok this] ar_hash [OF ok this] False kt vt K u that show ?thesis
      by (simp add: buf_ok_def)
  qed
  ultimately have "ar_ok ?ar"
    using kt vt ar_lengths [OF ok] by (auto simp: ar_ok_def list_all_iff simp del: upt_rec_numeral)
  with K u show ?thesis by (simp add: stored_def)
qed

lemma locate_cases:
  assumes "ar_ok ar"
  obtains "\<not> used ar (get_hash k)" "locate ar k = None"
  | "used ar (get_hash k)" "K ar (get_hash k) = k" "locate ar k = Some (get_hash k)"
  | i where "used ar (get_hash k)" "K ar (get_hash k) \<noteq> k" "locate ar k = Some i" "256 \<le> i"
      "i < 256 + ov_tbl_size ar" "find (\<lambda>i. K ar i = k) [256..<256 + ov_tbl_size ar] = Some i"
  | "used ar (get_hash k)" "K ar (get_hash k) \<noteq> k" "locate ar k = None"
      "find (\<lambda>i. K ar i = k) [256..<256 + ov_tbl_size ar] = None"
proof (cases "find (\<lambda>i. K ar i = k) [256..<256 + ov_tbl_size ar]")
  case None
  then show thesis
    using that(1,2,4) by (cases "used ar (get_hash k)"; cases "K ar (get_hash k) = k") (auto simp: locate_def)
next
  case (Some i)
  from find_range [OF this] Some show thesis
    using that(1,2,3) by (cases "used ar (get_hash k)"; cases "K ar (get_hash k) = k") (auto simp: locate_def)
qed

lemma add_spec:
  assumes ok: "ar_ok ar" and k: "fits256 k" and v: "fits256 v"
  obtains i ar' where "locate ar k = Some i" "add ar k v = Inr ar'" "stored ar ar' i k v"
      "ov_tbl_size ar' = ov_tbl_size ar"
  | ar' where "locate ar k = None" "\<not> used ar (get_hash k)" "add ar k v = Inr ar'"
      "stored ar ar' (get_hash k) k v" "ov_tbl_size ar' = ov_tbl_size ar"
  | ar' where "locate ar k = None" "used ar (get_hash k)" "ov_tbl_size ar < 8" "add ar k v = Inr ar'"
      "stored ar ar' (256 + ov_tbl_size ar) k v" "ov_tbl_size ar' = Suc (ov_tbl_size ar)"
  | "locate ar k = None" "used ar (get_hash k)" "ov_tbl_size ar = 8" "add ar k v = Inl OutOfBounds"
proof -
  let ?h = "get_hash k"
  note len = ar_lengths [OF ok]
  have kn: "NUL \<notin> set k" using k by (simp add: fits256_def)
  have bufs: "list_all (\<lambda>b. length b = 256) (key_tbl ar)" "list_all (\<lambda>b. length b = 256) (val_tbl ar)"
    using ok by (simp_all add: ar_ok_def)
  have kput: "\<exists>t. put_str (key_tbl ar) i k = Inr t \<and> length t = 264 \<and> list_all (\<lambda>b. length b = 256) t \<and>
      cstr (t ! i) = k \<and> NUL \<in> set (t ! i) \<and> (\<forall>j. j \<noteq> i \<longrightarrow> t ! j = key_tbl ar ! j)" if "i < 264" for i
    using put_str_ok [OF bufs(1) _ k, of i] that len by metis
  have vput: "\<exists>t. put_str (val_tbl ar) i v = Inr t \<and> length t = 264 \<and> list_all (\<lambda>b. length b = 256) t \<and>
      cstr (t ! i) = v \<and> NUL \<in> set (t ! i) \<and> (\<forall>j. j \<noteq> i \<longrightarrow> t ! j = val_tbl ar ! j)" if "i < 264" for i
    using put_str_ok [OF bufs(2) _ v, of i] that len by metis
  have old: "cstr (key_tbl ar ! i) = K ar i" for i by (simp add: K_def)
  have same: "stored ar (ar\<lparr>val_tbl := t, hit_idx := (hit_idx ar)[?h := hit_idx ar ! ?h + 1]\<rparr>) i k v"
    if "locate ar k = Some i" "length t = 264" "list_all (\<lambda>b. length b = 256) t"
      "cstr (t ! i) = v" "NUL \<in> set (t ! i)" "\<forall>j. j \<noteq> i \<longrightarrow> t ! j = val_tbl ar ! j" for i t
  proof -
    have u: "used ar i" "i < 264" "K ar i = k" using locate_used [OF ok that(1)] by auto
    have r: "i = ?h \<or> (used ar ?h \<and> 256 \<le> i \<and> i < 264 \<and> i < 256 + ov_tbl_size ar)"
      using that(1) ok by (rule_tac locate_cases [OF ok, of k]) (use u in auto)
    then have ne: "i \<noteq> 256 + ov_tbl_size ar" using get_hash_lt(2) [of "ov_tbl_size ar" k] by auto
    have "stored ar (ar\<lparr>cur_size := cur_size ar, ov_tbl_size := ov_tbl_size ar, key_tbl := key_tbl ar, val_tbl := t,
            hit_idx := (hit_idx ar)[?h := hit_idx ar ! ?h + 1]\<rparr>) i k v"
      by (rule add_at [OF ok k v r]) (use ne len bufs u that ar_used [OF ok u(1,2)] old in auto)
    then show ?thesis by simp
  qed
  show thesis using ok
  proof (rule locate_cases [where k = k])
    assume c: "\<not> used ar ?h" "locate ar k = None"
    obtain kt where kt: "put_str (key_tbl ar) ?h k = Inr kt" "length kt = 264" "list_all (\<lambda>b. length b = 256) kt"
      "cstr (kt ! ?h) = k" "NUL \<in> set (kt ! ?h)" "\<forall>j. j \<noteq> ?h \<longrightarrow> kt ! j = key_tbl ar ! j" using kput [of ?h] by auto
    obtain vt where vt: "put_str (val_tbl ar) ?h v = Inr vt" "length vt = 264" "list_all (\<lambda>b. length b = 256) vt"
      "cstr (vt ! ?h) = v" "NUL \<in> set (vt ! ?h)" "\<forall>j. j \<noteq> ?h \<longrightarrow> vt ! j = val_tbl ar ! j" using vput [of ?h] by auto
    let ?ar = "ar\<lparr>cur_size := cur_size ar + 1, ov_tbl_size := ov_tbl_size ar, key_tbl := kt, val_tbl := vt,
            hit_idx := (hit_idx ar)[?h := hit_idx ar ! ?h + 1]\<rparr>"
    have "stored ar ?ar ?h k v" by (rule add_at [OF ok k v]) (use kt vt in auto)
    moreover have "add ar k v = Inr ?ar" using c(1) kt(1) vt(1) len by (simp add: add_def used_def Let_def)
    ultimately show thesis using that(2) [OF c(2,1)] by simp
  next
    assume c: "used ar ?h" "K ar ?h = k" "locate ar k = Some ?h"
    obtain vt where vt: "put_str (val_tbl ar) ?h v = Inr vt" "length vt = 264" "list_all (\<lambda>b. length b = 256) vt"
      "cstr (vt ! ?h) = v" "NUL \<in> set (vt ! ?h)" "\<forall>j. j \<noteq> ?h \<longrightarrow> vt ! j = val_tbl ar ! j" using vput [of ?h] by auto
    have "add ar k v = Inr (ar\<lparr>val_tbl := vt, hit_idx := (hit_idx ar)[?h := hit_idx ar ! ?h + 1]\<rparr>)"
      using c vt(1) len key_at_spec [OF ok c(1) _ kn] by (simp add: add_def used_def Let_def)
    with same [OF c(3) vt(2-6)] show thesis using that(1) [OF c(3)] by simp
  next
    fix i
    assume c: "used ar ?h" "K ar ?h \<noteq> k" "locate ar k = Some i" "256 \<le> i" "i < 256 + ov_tbl_size ar"
      "find (\<lambda>i. K ar i = k) [256..<256 + ov_tbl_size ar] = Some i"
    have i: "i < 264" using locate_used [OF ok c(3)] by simp
    obtain vt where vt: "put_str (val_tbl ar) i v = Inr vt" "length vt = 264" "list_all (\<lambda>b. length b = 256) vt"
      "cstr (vt ! i) = v" "NUL \<in> set (vt ! i)" "\<forall>j. j \<noteq> i \<longrightarrow> vt ! j = val_tbl ar ! j" using vput [OF i] by auto
    have "add ar k v = Inr (ar\<lparr>val_tbl := vt, hit_idx := (hit_idx ar)[?h := hit_idx ar ! ?h + 1]\<rparr>)"
      using c vt(1) len key_at_spec [OF ok c(1) _ kn] ov_search_find [OF ok kn]
      by (simp add: add_def used_def Let_def)
    with same [OF c(3) vt(2-6)] show thesis using that(1) [OF c(3)] by simp
  next
    assume c: "used ar ?h" "K ar ?h \<noteq> k" "locate ar k = None"
      "find (\<lambda>i. K ar i = k) [256..<256 + ov_tbl_size ar] = None"
    let ?i = "256 + ov_tbl_size ar"
    have u: "add ar k v =
      bnd (bnd (put_str (key_tbl ar) ?i k) (\<lambda>kt. bnd (put_str (val_tbl ar) ?i v) (\<lambda>vt.
         Inr (ar\<lparr>key_tbl := kt, val_tbl := vt, ov_tbl_size := ov_tbl_size ar + 1\<rparr>))))
        (\<lambda>ar'. bnd (rd (hit_idx ar') (int ?h)) (\<lambda>h. Inr (ar'\<lparr>hit_idx := (hit_idx ar')[?h := h + 1]\<rparr>)))"
      using c len key_at_spec [OF ok c(1) _ kn] ov_search_find [OF ok kn]
      by (simp add: add_def used_def Let_def)
    show thesis
    proof (cases "ov_tbl_size ar = 8")
      case True
      then have "put_str (key_tbl ar) ?i k = Inl OutOfBounds" using len by (simp add: put_str_def rd_def)
      then show thesis using that(4) [OF c(3,1) True] u by simp
    next
      case False
      with ar_ov [OF ok] have lt: "ov_tbl_size ar < 8" "?i < 264" by simp_all
      obtain kt where kt: "put_str (key_tbl ar) ?i k = Inr kt" "length kt = 264" "list_all (\<lambda>b. length b = 256) kt"
        "cstr (kt ! ?i) = k" "NUL \<in> set (kt ! ?i)" "\<forall>j. j \<noteq> ?i \<longrightarrow> kt ! j = key_tbl ar ! j" using kput [OF lt(2)] by auto
      obtain vt where vt: "put_str (val_tbl ar) ?i v = Inr vt" "length vt = 264" "list_all (\<lambda>b. length b = 256) vt"
        "cstr (vt ! ?i) = v" "NUL \<in> set (vt ! ?i)" "\<forall>j. j \<noteq> ?i \<longrightarrow> vt ! j = val_tbl ar ! j" using vput [OF lt(2)] by auto
      let ?ar = "ar\<lparr>cur_size := cur_size ar, ov_tbl_size := Suc (ov_tbl_size ar), key_tbl := kt, val_tbl := vt,
            hit_idx := (hit_idx ar)[?h := hit_idx ar ! ?h + 1]\<rparr>"
      have "stored ar ?ar ?i k v" by (rule add_at [OF ok k v]) (use kt vt lt c in auto)
      moreover have "add ar k v = Inr ?ar" unfolding u using kt(1) vt(1) len by simp
      ultimately show thesis using that(3) [OF c(3,1) lt(1)] by simp
    qed
  qed
qed

lemma find_cong_range:
  "(\<And>i. i \<in> set is \<Longrightarrow> P i = Q i) \<Longrightarrow> find P is = find Q is"
  by (rule find_cong) auto

lemma find_snoc:
  "find P (xs @ [x]) = (case find P xs of None \<Rightarrow> if P x then Some x else None | Some y \<Rightarrow> Some y)"
  by (induction xs) auto

lemma ov_upt: "[256..<256 + Suc n] = [256..<256 + n] @ [256 + n]"
  using upt_Suc_append [of 256 "256 + n"] by (simp only: add_Suc_right le_add1)

text \<open>Where the keys are after a store, when the entry is the one add chose.\<close>

lemma locate_stored:
  assumes ok: "ar_ok ar" and st: "stored ar ar' i k v"
    and place: "locate ar k = Some i \<and> ov_tbl_size ar' = ov_tbl_size ar \<or>
      locate ar k = None \<and> \<not> used ar (get_hash k) \<and> i = get_hash k \<and> ov_tbl_size ar' = ov_tbl_size ar \<or>
      locate ar k = None \<and> used ar (get_hash k) \<and> i = 256 + ov_tbl_size ar \<and>
        ov_tbl_size ar' = Suc (ov_tbl_size ar)"
  shows "locate ar' k' = (if k' = k then Some i else locate ar k')"
proof -
  let ?h' = "get_hash k'"
  note s = st [unfolded stored_def]
  have u: "used ar' ?h' \<longleftrightarrow> used ar ?h' \<or> ?h' = i" using s by blast
  have Ks: "K ar' j = (if j = i then k else K ar j)" for j using s by simp
  have fresh: "find (\<lambda>j. K ar' j = k') [256..<256 + ov_tbl_size ar] = find (\<lambda>j. K ar j = k') [256..<256 + ov_tbl_size ar]"
    if "k' \<noteq> k"
  proof (rule find_cong_range)
    fix j assume j: "j \<in> set [256..<256 + ov_tbl_size ar]"
    show "(K ar' j = k') = (K ar j = k')"
    proof (cases "j = i")
      case True
      with j place have "locate ar k = Some i" by (auto simp del: upt_rec_numeral)
      then have "K ar i = k" using locate_used [OF ok] by blast
      with True that Ks show ?thesis by simp
    qed (simp add: Ks)
  qed
  have nohash: "K ar j \<noteq> k'" if "\<not> used ar ?h'" "j \<in> {256..<256 + ov_tbl_size ar}" for j
  proof
    assume e: "K ar j = k'"
    have "used ar j" "j < 264" using that(2) ar_ov [OF ok] by (auto simp: used_def)
    from ar_hash(1) [OF ok this] e that(1) show False by simp
  qed
  show ?thesis
  proof (cases "k' = k")
    case False
    show ?thesis
    proof (cases "used ar ?h'")
      case True
      have hK: "?h' = i \<Longrightarrow> K ar i = k"
        using place True locate_used [OF ok, of k i] by auto
      then have hk: "(K ar' ?h' = k') = (K ar ?h' = k')" using Ks by auto
      have "find (\<lambda>j. K ar' j = k') [256..<256 + ov_tbl_size ar'] =
          find (\<lambda>j. K ar' j = k') [256..<256 + ov_tbl_size ar]"
      proof (cases "ov_tbl_size ar' = Suc (ov_tbl_size ar)")
        case True
        with place have "K ar' (256 + ov_tbl_size ar) \<noteq> k'" using s False by auto
        then show ?thesis unfolding True ov_upt find_snoc by (simp split: option.split)
      qed (use place in auto)
      with True u hk fresh [OF False] show ?thesis using False by (simp add: locate_def)
    next
      case nu: False
      show ?thesis
      proof (cases "?h' = i")
        case True
        have "\<not> used ar i" using nu True by simp
        then have pl: "i = get_hash k" "ov_tbl_size ar' = ov_tbl_size ar" "\<not> used ar i"
          using place locate_used [OF ok, of k i] True by auto
        have "find (\<lambda>j. K ar j = k') [256..<256 + ov_tbl_size ar] = None"
          using nohash [OF nu] by (auto simp: find_None_iff)
        then show ?thesis using pl u True False nu Ks fresh [OF False] by (simp add: locate_def)
      next
        case ne: False
        with nu u show ?thesis using False by (simp add: locate_def)
      qed
    qed
  next
    case same: True
    have "used ar (get_hash k) \<or> i = get_hash k"
      using place ar_hash(1) [OF ok, of i] locate_used [OF ok, of k i] by auto
    then have uk: "used ar' (get_hash k)" using s by blast
    consider "i = get_hash k" | "i \<noteq> get_hash k" "locate ar k = Some i" "ov_tbl_size ar' = ov_tbl_size ar"
      | "locate ar k = None" "used ar (get_hash k)" "i = 256 + ov_tbl_size ar"
        "ov_tbl_size ar' = Suc (ov_tbl_size ar)" using place by metis
    then show ?thesis
    proof cases
      case 1
      with uk same Ks show ?thesis by (simp add: locate_def)
    next
      case 2
      then have l: "K ar (get_hash k) \<noteq> k" "find (\<lambda>j. K ar j = k) [256..<256 + ov_tbl_size ar] = Some i"
        by (auto simp: locate_def split: if_splits)
      have "find (\<lambda>j. K ar' j = k) [256..<256 + ov_tbl_size ar] = find (\<lambda>j. K ar j = k) [256..<256 + ov_tbl_size ar]"
        by (rule find_cong_range) (use find_range [OF l(2)] Ks in auto)
      with uk same Ks l 2 show ?thesis by (simp add: locate_def)
    next
      case 3
      then have l: "K ar (get_hash k) \<noteq> k" "find (\<lambda>j. K ar j = k) [256..<256 + ov_tbl_size ar] = None"
        by (auto simp: locate_def split: if_splits)
      have "find (\<lambda>j. K ar' j = k) [256..<256 + ov_tbl_size ar] = None"
        using l(2) Ks 3 by (auto simp: find_None_iff)
      then have "find (\<lambda>j. K ar' j = k) [256..<256 + ov_tbl_size ar'] = Some i"
        using Ks unfolding 3(3,4) ov_upt find_snoc by simp
      with uk same Ks l 3 show ?thesis by (simp add: locate_def)
    qed
  qed
qed

section \<open>The interface: a dictionary with limited room\<close>

text \<open>
  \<open>ok D s\<close>: the state s is consistent and holds values for exactly the keys D; \<open>room D\<close>: the
  keys D fit together. An update that fits succeeds and is seen by every later lookup.
\<close>

fun updates :: "('k \<Rightarrow> 'v \<Rightarrow> 's \<Rightarrow> 's res) \<Rightarrow> ('k \<times> 'v) list \<Rightarrow> 's \<Rightarrow> 's res" where
  "updates upd [] s = Inr s"
| "updates upd ((k, v) # kvs) s = bnd (upd k v s) (updates upd kvs)"

locale dictionary =
  fixes empty :: 's
    and upd :: "'k \<Rightarrow> 'v \<Rightarrow> 's \<Rightarrow> 's res"
    and look :: "'s \<Rightarrow> 'k \<Rightarrow> 'v option res"
    and ok :: "'k set \<Rightarrow> 's \<Rightarrow> bool"
    and room :: "'k set \<Rightarrow> bool"
    and good_key :: "'k \<Rightarrow> bool"
    and good_val :: "'v \<Rightarrow> bool"
  assumes ok_empty: "ok {} empty"
    and look_empty: "good_key k \<Longrightarrow> look empty k = Inr None"
    and room_mono: "finite D \<Longrightarrow> room D \<Longrightarrow> D' \<subseteq> D \<Longrightarrow> room D'"
    and upd_law: "ok D s \<Longrightarrow> finite D \<Longrightarrow> good_key k \<Longrightarrow> good_val v \<Longrightarrow> room (insert k D) \<Longrightarrow>
      \<exists>s'. upd k v s = Inr s' \<and> ok (insert k D) s' \<and>
        (\<forall>k'. good_key k' \<longrightarrow> look s' k' = (if k' = k then Inr (Some v) else look s k'))"
begin

lemma updates_law:
  assumes "ok D s" and "finite D" and "room (D \<union> fst ` set kvs)"
    and "\<forall>(k, v)\<in>set kvs. good_key k \<and> good_val v"
  shows "\<exists>s'. updates upd kvs s = Inr s' \<and> ok (D \<union> fst ` set kvs) s' \<and>
    (\<forall>k. good_key k \<longrightarrow> look s' k = (case map_of (rev kvs) k of None \<Rightarrow> look s k | Some v \<Rightarrow> Inr (Some v)))"
  using assms
proof (induction kvs arbitrary: s D)
  case Nil
  then show ?case by simp
next
  case (Cons kv kvs)
  obtain k v where kv: "kv = (k, v)" by (cases kv)
  have "room (insert k D)"
    by (rule room_mono [OF _ Cons.prems(3)]) (use Cons.prems(2) kv in auto)
  with Cons.prems kv obtain s1 where s1: "upd k v s = Inr s1" "ok (insert k D) s1"
    "\<forall>k'. good_key k' \<longrightarrow> look s1 k' = (if k' = k then Inr (Some v) else look s k')"
    using upd_law [of D s k v] by auto
  have "room (insert k D \<union> fst ` set kvs)" using Cons.prems(3) kv by simp
  with Cons.IH [OF s1(2)] Cons.prems kv obtain s' where s': "updates upd kvs s1 = Inr s'"
    "ok (insert k D \<union> fst ` set kvs) s'"
    "\<forall>k. good_key k \<longrightarrow> look s' k = (case map_of (rev kvs) k of None \<Rightarrow> look s1 k | Some v \<Rightarrow> Inr (Some v))"
    by auto
  show ?case
    by (intro exI [of _ s']) (use s1 s' kv in \<open>auto simp: map_add_def split: option.split\<close>)
qed

text \<open>After any updates of the empty dictionary, each key has the value it was given last.\<close>

lemma last_update_wins:
  assumes "room (fst ` set kvs)" and "\<forall>(k, v)\<in>set kvs. good_key k \<and> good_val v"
  shows "\<exists>s. updates upd kvs empty = Inr s \<and> ok (fst ` set kvs) s \<and>
    (\<forall>k. good_key k \<longrightarrow> look s k = Inr (map_of (rev kvs) k))"
proof -
  from updates_law [OF ok_empty, of kvs] assms obtain s where s: "updates upd kvs empty = Inr s"
    "ok (fst ` set kvs) s"
    "\<forall>k. good_key k \<longrightarrow> look s k = (case map_of (rev kvs) k of None \<Rightarrow> look empty k | Some v \<Rightarrow> Inr (Some v))"
    by auto
  then have "look s k = Inr (map_of (rev kvs) k)" if "good_key k" for k
    using that look_empty by (cases "map_of (rev kvs) k") auto
  with s show ?thesis by blast
qed

end

section \<open>The alias table is a dictionary\<close>

definition holds_keys :: "string set \<Rightarrow> assoc_ar \<Rightarrow> bool" where
  "holds_keys D ar \<longleftrightarrow> ar_ok ar \<and> (\<forall>k\<in>D. fits256 k) \<and>
     (\<forall>k. NUL \<notin> set k \<longrightarrow> (locate ar k \<noteq> None \<longleftrightarrow> k \<in> D)) \<and>
     (\<forall>h<256. used ar h \<longleftrightarrow> h \<in> get_hash ` D) \<and>
     ov_tbl_size ar + card (get_hash ` D) = card D"

text \<open>Keys fit when at most eight of them find their place in the main table taken.\<close>

definition alias_room :: "string set \<Rightarrow> bool" where
  "alias_room D \<longleftrightarrow> card D \<le> card (get_hash ` D) + 8"

lemma alias_room_mono:
  assumes "finite D" and "alias_room D" and "D' \<subseteq> D"
  shows "alias_room D'"
proof -
  have fin: "finite D'" "finite (D - D')" using assms finite_subset by auto
  have "get_hash ` D = get_hash ` D' \<union> get_hash ` (D - D')" using assms(3) by auto
  then have "card (get_hash ` D) \<le> card (get_hash ` D') + card (get_hash ` (D - D'))"
    by (simp add: card_Un_le)
  also have "\<dots> \<le> card (get_hash ` D') + card (D - D')" using card_image_le [OF fin(2)] by simp
  finally have "card (get_hash ` D) \<le> card (get_hash ` D') + card (D - D')" .
  moreover have "card D = card D' + card (D - D')"
    using card_Diff_subset [OF fin(1) assms(3)] card_mono [OF assms(1,3)] by simp
  ultimately show ?thesis using assms(2) by (simp add: alias_room_def)
qed

lemma init_ok: "holds_keys {} (init kj vj)"
proof -
  have u: "\<not> used (init kj vj) i" if "i < 264" for i using that by (auto simp: used_def init_def)
  have "ar_ok (init kj vj)"
    using u by (simp add: ar_ok_def list_all_iff del: upt_rec_numeral) (auto simp: init_def)
  moreover have "locate (init kj vj) k = None" for k using u by (simp add: locate_def)
  ultimately show ?thesis using u by (simp add: holds_keys_def) (simp add: init_def)
qed

lemma stored_look:
  assumes ok: "ar_ok ar" and st: "stored ar ar' i k v"
    and loc: "\<And>k'. locate ar' k' = (if k' = k then Some i else locate ar k')"
    and fresh: "\<And>k'. locate ar k' = Some i \<Longrightarrow> k' = k" and k': "NUL \<notin> set k'"
  shows "get ar' k' = (if k' = k then Inr (Some v) else get ar k')"
proof -
  have ok': "ar_ok ar'" using st by (simp add: stored_def)
  have V: "V ar' i = v" "\<And>j. j \<noteq> i \<Longrightarrow> V ar' j = V ar j" using st by (auto simp: stored_def)
  have "map_option (V ar') (locate ar k') = map_option (V ar) (locate ar k')" if "k' \<noteq> k"
    using V fresh [of k'] that by (cases "locate ar k'") auto
  then show ?thesis
    unfolding get_locate [OF ok' k'] get_locate [OF ok k'] loc using V by simp
qed

lemma add_law:
  assumes hk: "holds_keys D ar" and fin: "finite D" and k: "fits256 k" and v: "fits256 v"
    and rm: "alias_room (insert k D)"
  shows "\<exists>ar'. add ar k v = Inr ar' \<and> holds_keys (insert k D) ar' \<and>
    (\<forall>k'. fits256 k' \<longrightarrow> get ar' k' = (if k' = k then Inr (Some v) else get ar k'))"
proof -
  have ok: "ar_ok ar" and D: "\<forall>k\<in>D. fits256 k"
    and loc: "\<And>k. NUL \<notin> set k \<Longrightarrow> locate ar k \<noteq> None \<longleftrightarrow> k \<in> D"
    and hs: "\<And>h. h < 256 \<Longrightarrow> used ar h \<longleftrightarrow> h \<in> get_hash ` D"
    and cnt: "ov_tbl_size ar + card (get_hash ` D) = card D"
    using hk by (auto simp: holds_keys_def)
  have kn: "NUL \<notin> set k" using k by (simp add: fits256_def)
  have fr: "locate ar k' = Some i \<Longrightarrow> k' = K ar i" for k' i using locate_used [OF ok] by simp
  have fin_img: "finite (get_hash ` D)" using fin by simp
  have finish: ?thesis
    if a: "add ar k v = Inr ar'" and st: "stored ar ar' i k v"
      and l: "\<And>k'. locate ar' k' = (if k' = k then Some i else locate ar k')"
      and f: "\<And>k'. locate ar k' = Some i \<Longrightarrow> k' = k"
      and u: "\<And>h. h < 256 \<Longrightarrow> h = i \<Longrightarrow> h \<in> get_hash ` insert k D"
      and h: "get_hash k \<in> get_hash ` D \<or> i = get_hash k"
      and c: "ov_tbl_size ar' + card (get_hash ` insert k D) = card (insert k D)" for ar' i
  proof -
    have "holds_keys (insert k D) ar'"
      unfolding holds_keys_def
    proof (intro conjI)
      show "\<forall>k'. NUL \<notin> set k' \<longrightarrow> (locate ar' k' \<noteq> None) = (k' \<in> insert k D)" using l loc by simp
      show "\<forall>ha<256. used ar' ha = (ha \<in> get_hash ` insert k D)"
        using st hs u h by (auto simp: stored_def)
    qed (use st D k c in \<open>auto simp: stored_def\<close>)
    with a stored_look [OF ok st l f] show ?thesis by (auto simp: fits256_def)
  qed
  show ?thesis
  proof (rule add_spec [OF ok k v])
    fix i ar'
    assume c: "locate ar k = Some i" "add ar k v = Inr ar'" "stored ar ar' i k v" "ov_tbl_size ar' = ov_tbl_size ar"
    have kD: "k \<in> D" using loc [OF kn] c(1) by simp
    have ins: "insert k D = D" using kD by blast
    have ui: "used ar i" "i < 264" "K ar i = k" using locate_used [OF ok c(1)] by auto
    show ?thesis
      by (rule finish [OF c(2,3) locate_stored [OF ok c(3)]])
        (use c kD ins ui hs cnt fr in auto)
  next
    fix ar'
    assume c: "locate ar k = None" "\<not> used ar (get_hash k)" "add ar k v = Inr ar'"
      "stored ar ar' (get_hash k) k v" "ov_tbl_size ar' = ov_tbl_size ar"
    have kD: "k \<notin> D" using loc [OF kn] c(1) by simp
    have hD: "get_hash k \<notin> get_hash ` D" using hs c(2) by simp
    have nf: "locate ar k' \<noteq> Some (get_hash k)" for k' using locate_used [OF ok] c(2) by blast
    show ?thesis
      by (rule finish [OF c(3,4) locate_stored [OF ok c(4)]])
        (use c nf cnt kD hD fin fin_img in auto)
  next
    fix ar'
    assume c: "locate ar k = None" "used ar (get_hash k)" "ov_tbl_size ar < 8" "add ar k v = Inr ar'"
      "stored ar ar' (256 + ov_tbl_size ar) k v" "ov_tbl_size ar' = Suc (ov_tbl_size ar)"
    have kD: "k \<notin> D" using loc [OF kn] c(1) by simp
    have hD: "get_hash k \<in> get_hash ` D" using hs c(2) by simp
    have im: "get_hash ` insert k D = get_hash ` D" using hD by auto
    have "\<not> used ar (256 + ov_tbl_size ar)" by (simp add: used_def)
    then have nf: "locate ar k' \<noteq> Some (256 + ov_tbl_size ar)" for k' using locate_used [OF ok] by blast
    show ?thesis
      by (rule finish [OF c(4,5) locate_stored [OF ok c(5)]])
        (use c nf cnt kD hD im fin in auto)
  next
    assume c: "locate ar k = None" "used ar (get_hash k)" "ov_tbl_size ar = 8"
    have kD: "k \<notin> D" using loc [OF kn] c(1) by simp
    have "get_hash ` insert k D = get_hash ` D" using hs c(2) by auto
    with rm cnt c(3) kD fin show ?thesis by (simp add: alias_room_def)
  qed
qed

interpretation tbl: dictionary "init kj vj" "\<lambda>k v ar. add ar k v" get holds_keys alias_room fits256 fits256
  for kj vj
proof unfold_locales
  show "holds_keys {} (init kj vj)" by (rule init_ok)
  show "get (init kj vj) k = Inr None" if "fits256 k" for k
  proof -
    have ok: "ar_ok (init kj vj)" and l: "NUL \<notin> set k \<Longrightarrow> locate (init kj vj) k = None"
      using init_ok [of kj vj] by (auto simp: holds_keys_def)
    have "NUL \<notin> set k" using that by (simp add: fits256_def)
    with get_locate [OF ok this] l show ?thesis by simp
  qed
qed (rule alias_room_mono add_law; assumption)+

section \<open>The alias file\<close>

lemma write_alias_loop_spec:
  assumes ok: "ar_ok ar"
  shows "set is \<subseteq> {..<256} \<Longrightarrow> write_alias_loop ar is =
    Inr (map (\<lambda>i. ''alias '' @ K ar i @ ''='' @ V ar i @ [CHR 0x0A]) (filter (used ar) is))"
proof (induction "is")
  case (Cons i "is")
  then have i: "i < 256" "i < 264" by auto
  show ?case
  proof (cases "used ar i")
    case True
    with ar_used [OF ok True i(2)] ar_lengths [OF ok] Cons i show ?thesis
      by (simp add: alias_line_def K_def V_def used_def)
  next
    case False
    with ar_lengths [OF ok] Cons i show ?thesis by (simp add: used_def)
  qed
qed simp

lemma used_count:
  assumes "holds_keys D ar"
  shows "length (filter (used ar) [0..<256]) = card (get_hash ` D)"
proof -
  have "set (filter (used ar) [0..<256]) = get_hash ` D"
    using assms by (auto simp: holds_keys_def simp del: upt_rec_numeral)
  then show ?thesis using distinct_card [of "filter (used ar) [0..<256]"] by simp
qed

section \<open>Properties\<close>

text \<open>
  C14. The alias table is a map: after any sequence of adds in which at most eight keys find
  the main entry of their hash taken by another key, no add fails and get returns, for every
  key, the value it was given last, or null when it was never given one.
\<close>

theorem alias_table_is_map:
  assumes "\<forall>(k, v)\<in>set kvs. fits256 k \<and> fits256 v"
    and "card (fst ` set kvs) \<le> card (get_hash ` fst ` set kvs) + 8"
  shows "\<exists>ar. updates (\<lambda>k v ar. add ar k v) kvs (init kj vj) = Inr ar \<and>
    (\<forall>k. fits256 k \<longrightarrow> get ar k = Inr (map_of (rev kvs) k))"
  using tbl.last_update_wins [of kvs kj vj] assms by (auto simp: alias_room_def)

lemma demo_hash: "get_hash ''ad'' = 197" "get_hash ''bc'' = 197" "get_hash ''cb'' = 197"
  by code_simp+

theorem alias_table_is_map_witness:
  "\<exists>ar. updates (\<lambda>k v ar. add ar k v) [(''ad'', ''1''), (''bc'', ''2''), (''ad'', ''3'')]
       (init (\<lambda>_ _. NUL) (\<lambda>_ _. NUL)) = Inr ar \<and>
     get ar ''ad'' = Inr (Some ''3'') \<and> get ar ''bc'' = Inr (Some ''2'') \<and> get ar ''cb'' = Inr None"
proof -
  have f: "fits256 ''ad''" "fits256 ''bc''" "fits256 ''cb''" "fits256 ''1''" "fits256 ''2''" "fits256 ''3''"
    by (simp_all add: fits256_def)
  then have a: "\<forall>(k, v)\<in>set [(''ad'', ''1''), (''bc'', ''2''), (''ad'', ''3'')]. fits256 k \<and> fits256 v" by simp
  have "card (fst ` set [(''ad'', ''1''), (''bc'', ''2''), (''ad'', ''3'')]) \<le>
      card (get_hash ` fst ` set [(''ad'', ''1''), (''bc'', ''2''), (''ad'', ''3'')]) + 8"
    by (simp add: demo_hash card_insert_if)
  from alias_table_is_map [OF a this, of "\<lambda>_ _. NUL" "\<lambda>_ _. NUL"] f show ?thesis by auto
qed

text \<open>
  Ten different keys with one hash do not fit: nine adds succeed, and the tenth writes its
  key past the 264 entries of the table. (add prints that the table is full when the overflow
  table has become full, and does not stop the next one.)
\<close>

theorem tenth_collision_overruns:
  assumes "\<forall>(k, v)\<in>set kvs. fits256 k \<and> fits256 v" and "distinct (map fst kvs)" and "length kvs = 9"
    and "fits256 k" and "fits256 v" and "k \<notin> fst ` set kvs" and "\<forall>k'\<in>fst ` set kvs. get_hash k' = get_hash k"
  shows "\<exists>ar. updates (\<lambda>k v ar. add ar k v) kvs (init kj vj) = Inr ar \<and> add ar k v = Inl OutOfBounds"
proof -
  have c: "card (fst ` set kvs) = 9" using distinct_card [OF assms(2)] assms(3) by simp
  have "kvs \<noteq> []" using assms(3) by auto
  then have im: "get_hash ` fst ` set kvs = {get_hash k}" using assms(7) by (cases kvs) auto
  then obtain ar where ar: "updates (\<lambda>k v ar. add ar k v) kvs (init kj vj) = Inr ar"
    "holds_keys (fst ` set kvs) ar"
    using tbl.last_update_wins [of kvs kj vj] assms(1) c by (auto simp: alias_room_def)
  then have h: "ar_ok ar" "locate ar k = None" "used ar (get_hash k)" "ov_tbl_size ar = 8"
    using assms(4,6) im c by (auto simp: holds_keys_def fits256_def)
  have "add ar k v = Inl OutOfBounds"
    by (rule add_spec [OF h(1) assms(4,5)]) (use h in simp_all)
  with ar(1) show ?thesis by blast
qed

definition collisions :: "(string \<times> string) list" where
  "collisions = [(''am'', ''x''), (''bl'', ''x''), (''ck'', ''x''), (''dj'', ''x''), (''ei'', ''x''),
     (''fh'', ''x''), (''gg'', ''x''), (''hf'', ''x''), (''ie'', ''x'')]"

theorem tenth_collision_overruns_witness:
  "\<exists>ar. updates (\<lambda>k v ar. add ar k v) collisions (init (\<lambda>_ _. NUL) (\<lambda>_ _. NUL)) = Inr ar \<and>
     add ar ''jd'' ''x'' = Inl OutOfBounds"
proof -
  have "list_all (\<lambda>(k, v). get_hash k = get_hash ''jd'') collisions" by code_simp
  then have h: "\<forall>k'\<in>fst ` set collisions. get_hash k' = get_hash ''jd''" by (auto simp: list_all_iff)
  show ?thesis
    by (rule tenth_collision_overruns [OF _ _ _ _ _ _ h]) (auto simp: collisions_def fits256_def)
qed

text \<open>
  write_alias writes one line \<open>alias key=value\<close> per used entry of the main table, in the
  order of the hashes, and nothing for the overflow table: as many lines as there are
  different hashes, so aliases whose hash was taken are lost when the shell exits.
\<close>

theorem write_alias_lines:
  assumes "\<forall>(k, v)\<in>set kvs. fits256 k \<and> fits256 v"
    and "card (fst ` set kvs) \<le> card (get_hash ` fst ` set kvs) + 8"
  shows "\<exists>ar ls. updates (\<lambda>k v ar. add ar k v) kvs (init kj vj) = Inr ar \<and> write_alias ar = Inr ls \<and>
    length ls = card (get_hash ` fst ` set kvs) \<and>
    ls = map (\<lambda>i. ''alias '' @ K ar i @ ''='' @ V ar i @ [CHR 0x0A]) (filter (used ar) [0..<256])"
proof -
  obtain ar where ar: "updates (\<lambda>k v ar. add ar k v) kvs (init kj vj) = Inr ar"
    "holds_keys (fst ` set kvs) ar"
    using tbl.last_update_wins [of kvs kj vj] assms by (auto simp: alias_room_def)
  then have "ar_ok ar" by (simp add: holds_keys_def)
  from write_alias_loop_spec [OF this, of "[0..<256]"] used_count [OF ar(2)] ar(1) show ?thesis
    by (simp add: write_alias_def atLeast0LessThan del: upt_rec_numeral)
qed

theorem write_alias_lines_witness:
  "\<exists>ar ls. updates (\<lambda>k v ar. add ar k v) [(''ad'', ''1''), (''bc'', ''2'')]
       (init (\<lambda>_ _. NUL) (\<lambda>_ _. NUL)) = Inr ar \<and> write_alias ar = Inr ls \<and> length ls = 1"
proof -
  have a: "\<forall>(k, v)\<in>set [(''ad'', ''1''), (''bc'', ''2'')]. fits256 k \<and> fits256 v"
    by (simp add: fits256_def)
  have "card (fst ` set [(''ad'', ''1''), (''bc'', ''2'')]) \<le>
      card (get_hash ` fst ` set [(''ad'', ''1''), (''bc'', ''2'')]) + 8"
    by (simp add: demo_hash)
  from write_alias_lines [OF a this, of "\<lambda>_ _. NUL" "\<lambda>_ _. NUL"] show ?thesis
    by (auto simp: demo_hash)
qed

end
