(* ===== verification/ShParser.thy ===== *)
theory ShParser
  imports AssocAr "HOL-Library.Sublist"
begin

text \<open>
  The command parser of the shell (prj_1/parser.c): cleanCmd trims a command, parseCmd cuts
  it into the entries of cmd_list. Buffers have the sizes the code gives them (256 for the
  command, 100 and then PARAM_SIZE for an entry, 18 entries), and a write past one is a fault.
\<close>

section \<open>Library functions\<close>

text \<open>strstr: the offset of the first occurrence.\<close>

fun strstr :: "string \<Rightarrow> string \<Rightarrow> nat option" where
  "strstr [] pat = (if pat = [] then Some 0 else None)"
| "strstr (c # s) pat =
     (if take (length pat) (c # s) = pat then Some 0 else map_option Suc (strstr s pat))"

text \<open>strtok: the next token and the rest behind its delimiter.\<close>

definition strtok :: "string \<Rightarrow> string \<Rightarrow> (string \<times> string) option" where
  "strtok s delims =
     (let t = dropWhile (\<lambda>c. c \<in> set delims) s
      in if t = [] then None
         else Some (takeWhile (\<lambda>c. c \<notin> set delims) t, drop 1 (dropWhile (\<lambda>c. c \<notin> set delims) t)))"

lemma strstr_sublist: "strstr s pat \<noteq> None \<longleftrightarrow> sublist pat s"
proof (induction s)
  case Nil
  then show ?case by simp
next
  case (Cons c s)
  have "take (length pat) (c # s) = pat \<longleftrightarrow> prefix pat (c # s)"
    by (metis append_eq_conv_conj prefix_def)
  with Cons show ?case by (auto simp: sublist_Cons_right)
qed

lemma strstr_None_prefix: "strstr (a @ b) pat = None \<Longrightarrow> strstr a pat = None"
  using strstr_sublist [of a pat] strstr_sublist [of "a @ b" pat]
  by (auto simp: sublist_def) (metis append.assoc)

lemma strtok_shorter: "strtok s d = Some (t, r) \<Longrightarrow> length r < length s"
proof -
  assume a: "strtok s d = Some (t, r)"
  let ?t = "dropWhile (\<lambda>c. c \<in> set d) s"
  from a have r: "?t \<noteq> []" "r = drop 1 (dropWhile (\<lambda>c. c \<notin> set d) ?t)"
    by (auto simp: strtok_def Let_def split: if_splits)
  have "hd ?t \<notin> set d" using hd_dropWhile [OF r(1)] by simp
  then have e: "dropWhile (\<lambda>c. c \<notin> set d) ?t = dropWhile (\<lambda>c. c \<notin> set d) (tl ?t)"
    using r(1) by (cases ?t) auto
  have "length r \<le> length (tl ?t)"
    using length_dropWhile_le [of "\<lambda>c. c \<notin> set d" "tl ?t"] unfolding r(2) e by simp
  also have "length (tl ?t) < length ?t" using r(1) by simp
  also have "length ?t \<le> length s" by (rule length_dropWhile_le)
  finally show ?thesis .
qed

section \<open>cleanCmd\<close>

text \<open>
  The test \<open>pCmd[i] <= 0x20\<close> is on a signed char. The second loop runs its unsigned index
  down from n - 1; with nothing but blanks it leaves the buffer at its front. The third looks
  for the first character that is not blank, and the result starts there.
\<close>

definition blank :: "char \<Rightarrow> bool" where
  "blank c \<longleftrightarrow> schar c \<le> 0x20"

definition untab :: "char \<Rightarrow> char" where
  "untab c = (if c = CHR 0x09 then CHR 0x20 else c)"

fun trim_right :: "nat \<Rightarrow> char list \<Rightarrow> char list res" where
  "trim_right 0 buf = Inl OutOfBounds"
| "trim_right (Suc i) buf =
     (if blank (buf ! i) then trim_right i (buf[i := NUL]) else Inr buf)"

fun trim_left :: "nat list \<Rightarrow> char list \<Rightarrow> nat \<Rightarrow> nat" where
  "trim_left [] buf p = 0"
| "trim_left (i # is) buf p = (if blank (buf ! i) then trim_left is buf (i + 1) else p)"

definition cleanCmd :: "string \<Rightarrow> string res" where
  "cleanCmd s =
     bnd (trim_right (length s) (map untab s)) (\<lambda>buf.
       Inr (cstr (drop (trim_left [0..<length s] buf 0) buf)))"

section \<open>The alias and set commands\<close>

definition MAX_PARAMS :: nat where "MAX_PARAMS = 18"

definition push :: "string list \<Rightarrow> string \<Rightarrow> string list res" where
  "push ps p = (if length ps < MAX_PARAMS then Inr (ps @ [p]) else Inl OutOfBounds)"

definition unquote :: "string \<Rightarrow> string" where
  "unquote pch =
     (case strstr pch [CHR 0x22] of
        None \<Rightarrow> pch
      | Some _ \<Rightarrow> (case strstr (tl pch) [CHR 0x22] of None \<Rightarrow> tl pch | Some _ \<Rightarrow> butlast (tl pch)))"

function alias_loop :: "string list \<Rightarrow> string \<Rightarrow> string \<Rightarrow> string list res" where
  "alias_loop ps pch rest =
     bnd (push ps pch) (\<lambda>ps'.
       case strtok rest ''='' of
         None \<Rightarrow> if length ps' < MAX_PARAMS then Inr ps' else Inl OutOfBounds
       | Some (t, rest') \<Rightarrow> alias_loop ps' (unquote t) rest')"
  by pat_completeness auto
termination
  by (relation "measure (\<lambda>(ps, pch, rest). length rest)") (auto dest: strtok_shorter)

declare alias_loop.simps [simp del]

text \<open>None: the command is not handled as an alias or set command.\<close>

definition parse_alias :: "string \<Rightarrow> string list res option" where
  "parse_alias cmd =
     (if strstr cmd ''alias '' \<noteq> None \<or> strstr cmd ''set '' \<noteq> None then
        (let p = (case strstr cmd ''alias '' of None \<Rightarrow> strstr cmd ''set '' | Some p \<Rightarrow> Some p)
         in if p = Some 0 then
              Some (case strtok cmd '' ='' of
                      None \<Rightarrow> Inr [] | Some (t, rest) \<Rightarrow> alias_loop [] t rest)
            else None)
      else None)"

section \<open>All other commands\<close>

text \<open>
  \<open>buf\<close> is what stands between param and mem, \<open>cap\<close> the size of the block param points to,
  \<open>ploc\<close> the offset of pLoc in param, \<open>temp\<close> the keyword that was found there.
\<close>

record pstate =
  cmd_params :: "string list"
  buf :: string
  cap :: nat
  char_count :: nat
  space_encountered :: bool
  q_st :: bool
  ploc :: "nat option"
  temp :: string

definition pstart :: pstate where
  "pstart = \<lparr>cmd_params = [], buf = [], cap = 100, char_count = 0, space_encountered = False,
             q_st = False, ploc = None, temp = []\<rparr>"

definition put_char :: "char \<Rightarrow> pstate \<Rightarrow> pstate res" where
  "put_char c st =
     (if length (buf st) < cap st then Inr (st\<lparr>buf := buf st @ [c]\<rparr>) else Inl BufferOverflow)"

text \<open>\<open>*mem = 0\<close> writes one more character.\<close>

definition terminate :: "pstate \<Rightarrow> pstate res" where
  "terminate st = (if length (buf st) < cap st then Inr st else Inl BufferOverflow)"

definition find_keyword :: "string \<Rightarrow> (nat \<times> string) option" where
  "find_keyword s =
     (case strstr s ''if '' of Some p \<Rightarrow> Some (p, ''if'')
      | None \<Rightarrow> (case strstr s '' then '' of Some p \<Rightarrow> Some (p, ''then'')
      | None \<Rightarrow> (case strstr s '' else '' of Some p \<Rightarrow> Some (p, ''else'')
      | None \<Rightarrow> (case strstr s '' fi'' of Some p \<Rightarrow> Some (p, ''fi'')
      | None \<Rightarrow> None))))"

definition substr :: "string \<Rightarrow> nat \<Rightarrow> nat \<Rightarrow> string" where
  "substr pstr start numchars = take numchars (drop start pstr)"

lemma substr_front [simp]: "substr s 0 n = take n s"
  by (simp add: substr_def)

text \<open>The start of an iteration: a keyword found in the last one is pushed, after the text before it.\<close>

definition take_keyword :: "pstate \<Rightarrow> pstate res" where
  "take_keyword st =
     (case ploc st of
        None \<Rightarrow> Inr st
      | Some p \<Rightarrow>
          bnd (if 0 < p then push (cmd_params st) (substr (cstr (buf st)) 0 p) else Inr (cmd_params st)) (\<lambda>ps.
          bnd (push ps (temp st)) (\<lambda>ps'.
            Inr (st\<lparr>cmd_params := ps', buf := [], cap := 30, ploc := None\<rparr>))))"

definition parse_char :: "char \<Rightarrow> pstate \<Rightarrow> pstate res" where
  "parse_char c st =
     (if c = CHR 0x22 then
        bnd (put_char c (st\<lparr>q_st := \<not> q_st st, char_count := char_count st + 1\<rparr>)) (\<lambda>st1.
          if q_st st1 then Inr st1
          else bnd (terminate st1) (\<lambda>st2. Inr (st2\<lparr>space_encountered := False\<rparr>)))
      else if q_st st then
        bnd (put_char c (st\<lparr>char_count := char_count st + 1\<rparr>)) terminate
      else if c \<in> {CHR ''&'', CHR ''>'', CHR ''|'', NUL} \<and> char_count st \<noteq> 0 then
        bnd (terminate st) (\<lambda>st1.
        bnd (push (cmd_params st1) (cstr (buf st1))) (\<lambda>ps.
          if c = NUL then Inr (st1\<lparr>cmd_params := ps\<rparr>)
          else bnd (push ps [c]) (\<lambda>ps'.
                 Inr (st1\<lparr>cmd_params := ps', buf := [], cap := 30, char_count := 0\<rparr>))))
      else if c = CHR 0x20 \<and> space_encountered st then Inr st
      else
        bnd (put_char c (st\<lparr>space_encountered := (c = CHR 0x20), char_count := char_count st + 1\<rparr>)) (\<lambda>st1.
        bnd (terminate st1) (\<lambda>st2.
          case find_keyword (cstr (buf st2)) of
            None \<Rightarrow> Inr (st2\<lparr>ploc := None\<rparr>)
          | Some (p, kw) \<Rightarrow> Inr (st2\<lparr>ploc := Some p, temp := kw\<rparr>))))"

fun parse_loop :: "string \<Rightarrow> pstate \<Rightarrow> pstate res" where
  "parse_loop [] st = Inr st"
| "parse_loop (c # cs) st = bnd (take_keyword st) (\<lambda>st1. bnd (parse_char c st1) (parse_loop cs))"

text \<open>The entries before they are trimmed, and the pass that trims each up to the null pointer.\<close>

definition parse_tokens :: "string \<Rightarrow> string list res" where
  "parse_tokens cmd = bnd (parse_loop (cmd @ [NUL]) pstart) (\<lambda>st. Inr (cmd_params st))"

fun clean_all :: "string list \<Rightarrow> string list res" where
  "clean_all [] = Inr []"
| "clean_all (p # ps) = bnd (cleanCmd p) (\<lambda>p'. bnd (clean_all ps) (\<lambda>ps'. Inr (p' # ps')))"

definition parseCmd :: "string \<Rightarrow> string list res" where
  "parseCmd in_cmd =
     (if 256 \<le> length in_cmd then Inl BufferOverflow
      else bnd (cleanCmd in_cmd) (\<lambda>cmd.
        case parse_alias cmd of
          Some r \<Rightarrow> r
        | None \<Rightarrow> bnd (parse_tokens cmd) (\<lambda>ps.
            bnd (clean_all ps) (\<lambda>ps'.
              if length ps < MAX_PARAMS then Inr ps' else Inl OutOfBounds))))"

section \<open>What cleanCmd computes\<close>

definition strip :: "string \<Rightarrow> string" where
  "strip s = dropWhile blank (rev (dropWhile blank (rev s)))"

lemma blank_simps [simp]: "blank NUL" "blank CHR 0x20" "blank CHR 0x09"
  by code_simp+

lemma trim_right_blank: "list_all blank ys \<Longrightarrow> trim_right (length ys) (ys @ zs) = Inl OutOfBounds"
proof (induction ys arbitrary: zs rule: rev_induct)
  case (snoc y ys)
  then show ?case using snoc.IH [of "NUL # zs"] by simp
qed simp

lemma trim_right_spec:
  "xs \<noteq> [] \<Longrightarrow> \<not> blank (last xs) \<Longrightarrow> list_all blank ys \<Longrightarrow>
     trim_right (length xs + length ys) (xs @ ys @ zs) = Inr (xs @ replicate (length ys) NUL @ zs)"
proof (induction ys arbitrary: zs rule: rev_induct)
  case Nil
  then obtain xs' x where "xs = xs' @ [x]" by (cases xs rule: rev_cases) auto
  with Nil show ?case by simp
next
  case (snoc y ys)
  have "(xs @ ys @ y # zs) ! (length xs + length ys) = y" by (simp add: nth_append)
  moreover have "(xs @ ys @ y # zs)[length xs + length ys := NUL] = xs @ ys @ NUL # zs"
    by (simp add: list_update_append)
  ultimately show ?case
    using snoc.IH [of "NUL # zs"] snoc.prems by (simp add: replicate_app_Cons_same)
qed

lemma trim_left_spec:
  "i0 < n \<Longrightarrow> a \<le> i0 \<Longrightarrow> \<not> blank (bf ! i0) \<Longrightarrow> (\<forall>j\<in>{a..<i0}. blank (bf ! j)) \<Longrightarrow>
     trim_left [a..<n] bf a = i0"
proof (induction "i0 - a" arbitrary: a)
  case 0
  then show ?case by (simp add: upt_conv_Cons)
next
  case (Suc m)
  have "a < n" using Suc.hyps(2) Suc.prems(1) by simp
  then have u: "[a..<n] = a # [Suc a..<n]" by (rule upt_conv_Cons)
  have "trim_left [Suc a..<n] bf (Suc a) = i0"
    using Suc.hyps(2) Suc.prems by (intro Suc.hyps(1)) auto
  moreover have "blank (bf ! a)" using Suc.hyps(2) Suc.prems(4) by simp
  ultimately show ?case unfolding u by simp
qed

text \<open>Blanks around a middle part that begins and ends with other characters.\<close>

lemma cleanCmd_middle:
  assumes s: "NUL \<notin> set s" and t: "map untab s = l @ m @ r" and l: "list_all blank l" and r: "list_all blank r"
    and m: "m \<noteq> []" "\<not> blank (hd m)" "\<not> blank (last m)"
  shows "cleanCmd s = Inr m"
proof -
  have len: "length s = length (l @ m) + length r" using arg_cong [OF t, of length] by simp
  have "NUL \<notin> set (map untab s)" using s by (auto simp: untab_def)
  then have N: "NUL \<notin> set m" using t by simp
  have tr: "trim_right (length s) (map untab s) = Inr (l @ m @ replicate (length r) NUL)"
    using trim_right_spec [of "l @ m" r "[]"] m r unfolding t len by simp
  have "trim_left [0..<length s] (l @ m @ replicate (length r) NUL) 0 = length l"
  proof (rule trim_left_spec)
    show "length l < length s" using len m(1) by simp
    show "\<not> blank ((l @ m @ replicate (length r) NUL) ! length l)"
      using m(1,2) by (simp add: nth_append hd_conv_nth)
    show "\<forall>j\<in>{0..<length l}. blank ((l @ m @ replicate (length r) NUL) ! j)"
      using l by (simp add: nth_append list_all_length)
  qed simp
  moreover have "cstr (m @ replicate (length r) NUL) = m"
    using N by (cases "length r") (auto simp: cstr_def takeWhile_append)
  ultimately show ?thesis by (simp add: cleanCmd_def tr)
qed

lemma cleanCmd_spec:
  assumes s: "NUL \<notin> set s"
  shows "cleanCmd s =
    (if list_all blank (map untab s) then Inl OutOfBounds else Inr (strip (map untab s)))"
proof (cases "list_all blank (map untab s)")
  case True
  then show ?thesis using trim_right_blank [of "map untab s" "[]"] by (simp add: cleanCmd_def)
next
  case False
  let ?t = "map untab s" let ?a = "rev (dropWhile blank (rev ?t))"
  have t1: "?t = ?a @ rev (takeWhile blank (rev ?t))"
    by (metis rev_append rev_rev_ident takeWhile_dropWhile_id)
  have "?a = takeWhile blank ?a @ strip ?t" by (simp only: strip_def takeWhile_dropWhile_id)
  with t1 have t: "?t = takeWhile blank ?a @ strip ?t @ rev (takeWhile blank (rev ?t))"
    by (metis append.assoc)
  have lb: "list_all blank (takeWhile blank xs)" for xs by (auto simp: list_all_iff dest: set_takeWhileD)
  have rb: "list_all blank (rev (takeWhile blank (rev ?t)))" by (auto simp: list_all_iff dest: set_takeWhileD)
  have ne: "strip ?t \<noteq> []"
  proof
    assume "strip ?t = []"
    with t have "?t = takeWhile blank ?a @ rev (takeWhile blank (rev ?t))" by simp
    with lb [of ?a] rb False show False by (metis list_all_append)
  qed
  have "dropWhile blank (rev ?t) \<noteq> []"
  proof
    assume "dropWhile blank (rev ?t) = []"
    then have "strip ?t = []" by (simp only: strip_def rev.simps dropWhile.simps)
    with ne show False by simp
  qed
  then have "\<not> blank (last ?a)" using hd_dropWhile last_rev by metis
  moreover have "last (strip ?t) = last ?a"
    using ne unfolding strip_def by (metis dropWhile_eq_Nil_conv last_appendR takeWhile_dropWhile_id)
  moreover have "\<not> blank (hd (strip ?t))" using hd_dropWhile ne unfolding strip_def by blast
  ultimately show ?thesis using cleanCmd_middle [OF s t lb rb ne] False by simp
qed

section \<open>Runs of plain characters\<close>

definition plain :: "string \<Rightarrow> bool" where
  "plain cs \<longleftrightarrow> list_all (\<lambda>c. c \<notin> {CHR 0x22, CHR ''&'', CHR ''>'', CHR ''|'', NUL}) cs"

text \<open>A run of spaces counts as one; \<open>se\<close>: the character before was a space.\<close>

fun squeeze :: "bool \<Rightarrow> string \<Rightarrow> string" where
  "squeeze se [] = []"
| "squeeze se (c # cs) =
     (if c = CHR 0x20 \<and> se then squeeze se cs else c # squeeze (c = CHR 0x20) cs)"

fun ends_space :: "bool \<Rightarrow> string \<Rightarrow> bool" where
  "ends_space se [] = se"
| "ends_space se (c # cs) = ends_space (c = CHR 0x20) cs"

text \<open>The state behind a run: the text and the counters, entries untouched.\<close>

definition advance :: "string \<Rightarrow> bool \<Rightarrow> pstate \<Rightarrow> pstate" where
  "advance x se st = st\<lparr>buf := buf st @ x, char_count := char_count st + length x, space_encountered := se\<rparr>"

lemma advance_simps [simp]:
  "cmd_params (advance x se st) = cmd_params st" "buf (advance x se st) = buf st @ x" "cap (advance x se st) = cap st"
  "char_count (advance x se st) = char_count st + length x" "space_encountered (advance x se st) = se"
  "q_st (advance x se st) = q_st st" "ploc (advance x se st) = ploc st" "temp (advance x se st) = temp st"
  by (simp_all add: advance_def)

lemma advance_advance [simp]: "advance y se2 (advance x se st) = advance (x @ y) se2 st"
  by (simp add: advance_def add.assoc)

lemma advance_Nil: "space_encountered st = se \<Longrightarrow> advance [] se st = st"
  by (simp add: advance_def)

lemma find_keyword_None:
  "find_keyword s = None \<longleftrightarrow> (\<forall>pat\<in>{''if '', '' then '', '' else '', '' fi''}. strstr s pat = None)"
  by (auto simp: find_keyword_def split: option.splits)

lemma find_keyword_prefix: "find_keyword (a @ b) = None \<Longrightarrow> find_keyword a = None"
  unfolding find_keyword_None by (auto dest: strstr_None_prefix)

lemma cstr_id: "NUL \<notin> set s \<Longrightarrow> cstr s = s"
  unfolding cstr_def takeWhile_eq_all_conv by auto

lemma parse_char_plain:
  assumes c: "c \<notin> {CHR 0x22, CHR ''&'', CHR ''>'', CHR ''|'', NUL}" and st: "\<not> q_st st" "ploc st = None"
    and sp: "\<not> (c = CHR 0x20 \<and> space_encountered st)"
    and b: "NUL \<notin> set (buf st)" "Suc (length (buf st)) < cap st"
  shows "parse_char c st = (case find_keyword (buf st @ [c]) of
      None \<Rightarrow> Inr (advance [c] (c = CHR 0x20) st)
    | Some (p, kw) \<Rightarrow> Inr ((advance [c] (c = CHR 0x20) st)\<lparr>ploc := Some p, temp := kw\<rparr>))"
proof -
  have n: "cstr (buf st @ [c]) = buf st @ [c]" by (rule cstr_id) (use b c in auto)
  show ?thesis
    using c st sp b by (auto simp: parse_char_def put_char_def terminate_def n advance_def split: option.split)
qed

lemma plain_run:
  "\<not> q_st st \<Longrightarrow> ploc st = None \<Longrightarrow> space_encountered st = se \<Longrightarrow> NUL \<notin> set (buf st) \<Longrightarrow> plain cs \<Longrightarrow>
   find_keyword (buf st @ squeeze se cs) = None \<Longrightarrow> length (buf st @ squeeze se cs) < cap st \<Longrightarrow>
   parse_loop (cs @ rest) st = parse_loop rest (advance (squeeze se cs) (ends_space se cs) st)"
proof (induction cs arbitrary: st se)
  case Nil
  then show ?case by (simp add: advance_Nil)
next
  case (Cons c cs)
  have pl: "plain cs" and c: "c \<notin> {CHR 0x22, CHR ''&'', CHR ''>'', CHR ''|'', NUL}"
    using Cons.prems(5) by (simp_all add: plain_def)
  have tk: "take_keyword st = Inr st" using Cons.prems(2) by (simp add: take_keyword_def)
  show ?case
  proof (cases "c = CHR 0x20 \<and> se")
    case True
    then have "parse_char c st = Inr st" using Cons.prems(1,3) by (simp add: parse_char_def)
    then show ?thesis using Cons.IH [of st se] Cons.prems True tk pl by simp
  next
    case False
    let ?st = "advance [c] (c = CHR 0x20) st"
    have sq: "squeeze se (c # cs) = c # squeeze (c = CHR 0x20) cs" using False by auto
    have kw: "find_keyword (buf st @ [c]) = None"
      using Cons.prems(6) find_keyword_prefix [of "buf st @ [c]" "squeeze (c = CHR 0x20) cs"] sq by simp
    have len: "Suc (length (buf st)) < cap st" using Cons.prems(7) unfolding sq by simp
    have nsp: "\<not> (c = CHR 0x20 \<and> space_encountered st)" using False Cons.prems(3) by simp
    have "parse_char c st = Inr ?st"
      using parse_char_plain [OF c Cons.prems(1,2) nsp Cons.prems(4) len] kw by simp
    moreover have "parse_loop (cs @ rest) ?st =
        parse_loop rest (advance (squeeze (c = CHR 0x20) cs) (ends_space (c = CHR 0x20) cs) ?st)"
      by (rule Cons.IH) (use Cons.prems(1-4,6,7) c pl sq in auto)
    ultimately show ?thesis using tk unfolding sq by simp
  qed
qed

text \<open>An operator ends an entry and is one itself; the end of the command ends an entry.\<close>

lemma operator_step:
  assumes "c \<in> {CHR ''&'', CHR ''>'', CHR ''|''}" and "\<not> q_st st" and "ploc st = None" and "char_count st \<noteq> 0"
    and "NUL \<notin> set (buf st)" and "length (buf st) < cap st" and "length (cmd_params st) + 2 \<le> 18"
  shows "parse_loop (c # rest) st =
    parse_loop rest (st\<lparr>cmd_params := cmd_params st @ [buf st, [c]], buf := [], cap := 30, char_count := 0\<rparr>)"
proof -
  have c: "c \<noteq> CHR 0x22" "c \<noteq> NUL" using assms(1) by auto
  have "parse_char c st = Inr (st\<lparr>cmd_params := cmd_params st @ [buf st, [c]], buf := [], cap := 30, char_count := 0\<rparr>)"
    using assms c by (auto simp: parse_char_def terminate_def push_def MAX_PARAMS_def cstr_id)
  then show ?thesis using assms(3) by (simp add: take_keyword_def)
qed

lemma end_step:
  assumes "\<not> q_st st" and "ploc st = None" and "char_count st \<noteq> 0"
    and "NUL \<notin> set (buf st)" and "length (buf st) < cap st" and "length (cmd_params st) < 18"
  shows "parse_loop [NUL] st = Inr (st\<lparr>cmd_params := cmd_params st @ [buf st]\<rparr>)"
  using assms by (simp add: take_keyword_def parse_char_def terminate_def push_def MAX_PARAMS_def cstr_id)

text \<open>A keyword that is complete: the text before it and the keyword become entries.\<close>

lemma keyword_step:
  assumes c: "c \<notin> {CHR 0x22, CHR ''&'', CHR ''>'', CHR ''|'', NUL}" and st: "\<not> q_st st" "ploc st = None"
    and sp: "\<not> (c = CHR 0x20 \<and> space_encountered st)"
    and b: "NUL \<notin> set (buf st)" "Suc (length (buf st)) < cap st"
    and kw: "find_keyword (buf st @ [c]) = Some (p, k)" and p: "p \<le> length (buf st)"
    and room: "length (cmd_params st) + 2 \<le> 18"
  shows "parse_loop (c # d # rest) st = parse_loop (d # rest)
    (st\<lparr>cmd_params := cmd_params st @ (if 0 < p then [take p (buf st), k] else [k]), buf := [], cap := 30,
        char_count := Suc (char_count st), space_encountered := (c = CHR 0x20), temp := k\<rparr>)"
proof -
  let ?st = "(advance [c] (c = CHR 0x20) st)\<lparr>ploc := Some p, temp := k\<rparr>"
  have n: "cstr (buf st @ [c]) = buf st @ [c]" by (rule cstr_id) (use b c in auto)
  have s1: "take_keyword st = Inr st" using st(2) by (simp add: take_keyword_def)
  have s2: "parse_char c st = Inr ?st" using parse_char_plain [OF c st sp b] kw by simp
  have "take_keyword ?st = Inr (st\<lparr>cmd_params := cmd_params st @ (if 0 < p then [take p (buf st), k] else [k]),
      buf := [], cap := 30, char_count := Suc (char_count st), space_encountered := (c = CHR 0x20), temp := k\<rparr>)"
    (is "_ = Inr ?st2")
  proof -
    have "?st2 = ?st\<lparr>cmd_params := cmd_params st @ (if 0 < p then [take p (buf st), k] else [k]),
      buf := [], cap := 30, ploc := None\<rparr>"
      using st(2) by (intro pstate.equality) (simp_all add: advance_def)
    then show ?thesis using room p by (auto simp: take_keyword_def push_def MAX_PARAMS_def n)
  qed
  moreover have "take_keyword ?st2 = Inr ?st2" using st(2) by (simp add: take_keyword_def)
  ultimately show ?thesis using s1 s2 by simp
qed

section \<open>Command lines of several commands\<close>

text \<open>One command: no quotes, operators, keywords or repeated spaces, blanks on neither end.\<close>

definition segment :: "string \<Rightarrow> bool" where
  "segment s \<longleftrightarrow> s \<noteq> [] \<and> plain s \<and> CHR 0x09 \<notin> set s \<and> \<not> blank (hd s) \<and> \<not> blank (last s) \<and>
     squeeze False s = s \<and> find_keyword (s @ '' '') = None \<and> length s \<le> 28"

fun op_tail :: "(char \<times> string) list \<Rightarrow> string" where
  "op_tail [] = []"
| "op_tail ((c, s) # r) = '' '' @ [c] @ '' '' @ s @ op_tail r"

fun op_tokens :: "string \<Rightarrow> (char \<times> string) list \<Rightarrow> string list" where
  "op_tokens s [] = [s]"
| "op_tokens s ((c, s') # r) = (s @ '' '') # [c] # op_tokens s' r"

definition op_ok :: "(char \<times> string) list \<Rightarrow> bool" where
  "op_ok r \<longleftrightarrow> list_all (\<lambda>(c, s). c \<in> {CHR ''&'', CHR ''>'', CHR ''|''} \<and> segment s) r"

lemma segment_first: "segment s \<Longrightarrow> squeeze True s = s"
  by (cases s) (auto simp: segment_def split: if_splits)

lemma ends_space_last: "s \<noteq> [] \<Longrightarrow> ends_space se s \<longleftrightarrow> last s = CHR 0x20"
  by (induction s arbitrary: se) auto

lemma segment_end: "segment s \<Longrightarrow> ends_space se s = False"
  using ends_space_last [of s se] by (auto simp: segment_def)

lemma segment_noNUL: "segment s \<Longrightarrow> NUL \<notin> set s"
  by (auto simp: segment_def plain_def list_all_iff)

lemma segment_keyword: "segment s \<Longrightarrow> find_keyword s = None"
  unfolding segment_def using find_keyword_prefix by blast

lemma op_tokens_length: "length (op_tokens s r) = 2 * length r + 1"
  by (induction s r rule: op_tokens.induct) auto

lemma parse_op_tail:
  assumes "op_ok r" and "segment s" and "\<not> q_st st" and "ploc st = None" and "buf st = s"
    and "\<not> space_encountered st" and "char_count st \<noteq> 0" and "30 \<le> cap st"
    and "length (cmd_params st) + 2 * length r + 1 \<le> 18"
  shows "\<exists>st'. parse_loop (op_tail r @ [NUL]) st = Inr st' \<and> cmd_params st' = cmd_params st @ op_tokens s r"
  using assms
proof (induction r arbitrary: s st)
  case Nil
  then have "length (buf st) < cap st" by (auto simp: segment_def)
  from end_step [of st, OF Nil.prems(3,4,7) _ this] Nil.prems show ?case
    by (simp add: segment_noNUL del: parse_loop.simps)
next
  case (Cons x r)
  obtain c s' where x: "x = (c, s')" by (cases x)
  have c: "c \<in> {CHR ''&'', CHR ''>'', CHR ''|''}" and s': "segment s'" and r: "op_ok r"
    using Cons.prems(1) x by (auto simp: op_ok_def)
  have len: "length s \<le> 28" "length s' \<le> 28" using Cons.prems(2) s' by (simp_all add: segment_def)
  let ?st1 = "advance '' '' True st"
  let ?st2 = "?st1\<lparr>cmd_params := cmd_params ?st1 @ [buf ?st1, [c]], buf := [], cap := 30, char_count := 0\<rparr>"
  let ?st3 = "advance s' False ?st2"
  have a: "parse_loop ('' '' @ c # '' '' @ s' @ op_tail r @ [NUL]) st = parse_loop (c # '' '' @ s' @ op_tail r @ [NUL]) ?st1"
    using plain_run [of st False "'' ''" "c # '' '' @ s' @ op_tail r @ [NUL]"] Cons.prems len
    by (simp add: plain_def segment_noNUL segment_def del: parse_loop.simps)
  have b: "parse_loop (c # '' '' @ s' @ op_tail r @ [NUL]) ?st1 = parse_loop ('' '' @ s' @ op_tail r @ [NUL]) ?st2"
    by (rule operator_step) (use c Cons.prems len segment_noNUL in auto)
  have d: "parse_loop (('' '' @ s') @ op_tail r @ [NUL]) ?st2 = parse_loop (op_tail r @ [NUL]) ?st3"
    using plain_run [of ?st2 True "'' '' @ s'" "op_tail r @ [NUL]"] Cons.prems(3,4) len segment_first [OF s']
      segment_end [OF s'] segment_keyword [OF s'] s'
    by (simp add: plain_def segment_def del: parse_loop.simps)
  have "\<exists>st'. parse_loop (op_tail r @ [NUL]) ?st3 = Inr st' \<and> cmd_params st' = cmd_params ?st3 @ op_tokens s' r"
    by (rule Cons.IH [OF r s']) (use Cons.prems s' in \<open>auto simp: segment_def\<close>)
  with a b d show ?case using Cons.prems(5) by (simp add: x del: parse_loop.simps)
qed

lemma clean_segment:
  assumes "segment s"
  shows "cleanCmd s = Inr s" "cleanCmd (s @ '' '') = Inr s"
proof -
  have t: "map untab s = s" using assms by (auto simp: segment_def untab_def intro: map_idI)
  have n: "NUL \<notin> set s" using segment_noNUL [OF assms] .
  show "cleanCmd s = Inr s" "cleanCmd (s @ '' '') = Inr s"
    using cleanCmd_middle [of s "[]" s "[]"] cleanCmd_middle [of "s @ '' ''" "[]" s "'' ''"] n t assms
    by (auto simp: segment_def untab_def)
qed

lemma clean_op: "c \<in> {CHR ''&'', CHR ''>'', CHR ''|''} \<Longrightarrow> cleanCmd [c] = Inr [c]"
  by (elim insertE emptyE) (simp; code_simp)+

lemma clean_op_tokens:
  "op_ok r \<Longrightarrow> segment s \<Longrightarrow> clean_all (op_tokens s r) = Inr (s # concat (map (\<lambda>(c, s'). [[c], s']) r))"
  by (induction s r rule: op_tokens.induct) (auto simp: op_ok_def clean_segment clean_op)

lemma op_tail_ends: "op_ok r \<Longrightarrow> segment s \<Longrightarrow> \<not> blank (last (s @ op_tail r))"
  by (induction r arbitrary: s) (auto simp: op_ok_def segment_def)

lemma op_line_chars:
  "op_ok r \<Longrightarrow> segment s \<Longrightarrow> NUL \<notin> set (s @ op_tail r) \<and> CHR 0x09 \<notin> set (s @ op_tail r)"
proof (induction r arbitrary: s)
  case Nil
  then show ?case using segment_noNUL by (simp add: segment_def)
next
  case (Cons x r)
  obtain c s' where x: "x = (c, s')" by (cases x)
  with Cons show ?case using segment_noNUL [of s] by (auto simp: op_ok_def segment_def)
qed

lemma clean_line:
  assumes "NUL \<notin> set s" and "CHR 0x09 \<notin> set s" and "s \<noteq> []" and "\<not> blank (hd s)" and "\<not> blank (last s)"
  shows "cleanCmd s = Inr s"
proof -
  have "map untab s = s" using assms(2) by (auto simp: untab_def intro: map_idI)
  with cleanCmd_middle [of s "[]" s "[]"] assms show ?thesis by simp
qed

section \<open>If commands\<close>

lemma suffix_take_full: "take n (s @ [c]) = pat \<Longrightarrow> length s < length pat \<Longrightarrow> pat = s @ [c]"
  by (metis Suc_leI length_append_singleton length_take min.bounded_iff not_less_eq_eq take_all)

lemma strstr_snoc:
  assumes "pat \<noteq> []"
  shows "strstr (s @ [c]) pat =
    (case strstr s pat of Some i \<Rightarrow> Some i
     | None \<Rightarrow> if suffix pat (s @ [c]) then Some (Suc (length s) - length pat) else None)"
proof (induction s)
  case Nil
  then show ?case using assms by (cases pat) (auto simp: suffix_def Cons_eq_append_conv)
next
  case (Cons a s)
  let ?n = "length pat"
  show ?case
  proof (cases "?n \<le> Suc (length s)")
    case True
    then have t: "take ?n (a # s @ [c]) = take ?n (a # s)" by (cases ?n) auto
    have sf: "suffix pat (a # s @ [c]) \<longleftrightarrow> suffix pat (s @ [c])"
      using True by (auto simp: suffix_Cons)
    show ?thesis
      using Cons t sf True by (auto split: option.splits simp: Suc_diff_le)
  next
    case False
    have a: "take ?n (a # s) \<noteq> pat" using False by (auto dest: arg_cong [where f = length])
    have b: "strstr s pat = None"
    proof (rule ccontr)
      assume "strstr s pat \<noteq> None"
      then have "length pat \<le> length s" using strstr_sublist sublist_length_le by blast
      with False show False by simp
    qed
    have ns: "\<not> suffix pat (s @ [c])" using False by (auto dest: suffix_length_le)
    have c: "take ?n (a # s @ [c]) = pat \<longleftrightarrow> suffix pat (a # s @ [c])"
      using suffix_take_full [of ?n "a # s" c pat] False ns by (auto simp: suffix_Cons)
    have "suffix pat (a # s @ [c]) \<Longrightarrow> Suc (Suc (length s)) \<le> ?n \<and> ?n \<le> Suc (Suc (length s))"
      using False by (auto dest: suffix_length_le)
    then show ?thesis using a b c ns Cons by (auto split: option.splits)
  qed
qed

text \<open>A keyword appears exactly when its last character is read.\<close>

lemma find_keyword_snoc:
  assumes "find_keyword s = None"
  shows "find_keyword (s @ [c]) =
    (if suffix ''if '' (s @ [c]) then Some (Suc (length s) - length ''if '', ''if'')
     else if suffix '' then '' (s @ [c]) then Some (Suc (length s) - length '' then '', ''then'')
     else if suffix '' else '' (s @ [c]) then Some (Suc (length s) - length '' else '', ''else'')
     else if suffix '' fi'' (s @ [c]) then Some (Suc (length s) - length '' fi'', ''fi'') else None)"
proof -
  have S: "strstr (s @ [c]) pat = (if suffix pat (s @ [c]) then Some (Suc (length s) - length pat) else None)"
    if "pat \<in> {''if '', '' then '', '' else '', '' fi''}" for pat
    using assms that strstr_snoc [of pat s c] unfolding find_keyword_None by fastforce
  have E: "strstr (s @ [c]) ''if '' = (if suffix ''if '' (s @ [c]) then Some (Suc (length s) - length ''if '') else None)"
    "strstr (s @ [c]) '' then '' = (if suffix '' then '' (s @ [c]) then Some (Suc (length s) - length '' then '') else None)"
    "strstr (s @ [c]) '' else '' = (if suffix '' else '' (s @ [c]) then Some (Suc (length s) - length '' else '') else None)"
    "strstr (s @ [c]) '' fi'' = (if suffix '' fi'' (s @ [c]) then Some (Suc (length s) - length '' fi'') else None)"
    by (rule S, simp)+
  show ?thesis unfolding find_keyword_def E
    by (cases "suffix ''if '' (s @ [c])"; cases "suffix '' then '' (s @ [c])";
        cases "suffix '' else '' (s @ [c])"; cases "suffix '' fi'' (s @ [c])";
        simp only: if_True if_False option.case)
qed

text \<open>A command that stands before the keyword \<open>w\<close> (read up to its last character).\<close>

definition clause :: "string \<Rightarrow> string \<Rightarrow> bool" where
  "clause s w \<longleftrightarrow> segment s \<and> length s \<le> 22 \<and> find_keyword (s @ w) = None"

lemma squeeze_append: "squeeze se (a @ b) = squeeze se a @ squeeze (ends_space se a) b"
  by (induction a arbitrary: se) auto

lemma ends_space_append: "ends_space se (a @ b) = ends_space (ends_space se a) b"
  by (induction a arbitrary: se) auto

lemma clause_run:
  assumes cl: "clause s w" and w: "w \<in> {'' then'', '' else'', '' f''}"
    and st: "\<not> q_st st" "ploc st = None" "space_encountered st" "buf st = []" "cap st = 30"
    and room: "length (cmd_params st) + 2 \<le> 18"
    and last: "w = '' f'' \<and> c = CHR ''i'' \<and> k = ''fi'' \<or> w = '' then'' \<and> c = CHR 0x20 \<and> k = ''then'' \<or>
      w = '' else'' \<and> c = CHR 0x20 \<and> k = ''else''"
  shows "\<exists>st'. parse_loop (s @ w @ c # d # rest) st = parse_loop (d # rest) st' \<and>
    cmd_params st' = cmd_params st @ [s, k] \<and> \<not> q_st st' \<and> ploc st' = None \<and> buf st' = [] \<and>
    cap st' = 30 \<and> char_count st' \<noteq> 0 \<and> space_encountered st' = (c = CHR 0x20)"
proof -
  have seg: "segment s" "length s \<le> 22" "find_keyword (s @ w) = None" using cl by (simp_all add: clause_def)
  have sq: "squeeze True (s @ w) = s @ w" and es: "ends_space True (s @ w) = False"
    using segment_first [OF seg(1)] segment_end [OF seg(1)] w
    by (auto simp: squeeze_append ends_space_append)
  have lw: "length w \<le> 5" and pw: "plain w" and nw: "NUL \<notin> set w" using w by (auto simp: plain_def)
  have ps: "plain (s @ w)" using seg(1) pw by (simp add: segment_def plain_def)
  let ?st1 = "advance (s @ w) False st"
  have a: "parse_loop ((s @ w) @ c # d # rest) st = parse_loop (c # d # rest) ?st1"
    using plain_run [OF st(1,2) _ _ ps, of True "c # d # rest"] st seg lw sq es by simp
  have sne: "s \<noteq> []" "0 < length s" using seg(1) by (auto simp: segment_def)
  have kw: "find_keyword (buf ?st1 @ [c]) = Some (length s, k)"
    using find_keyword_snoc [OF seg(3), of c] last st(4) by (auto simp: suffix_def)
  have c: "c \<notin> {CHR 0x22, CHR ''&'', CHR ''>'', CHR ''|'', NUL}" using last by auto
  let ?st2 = "?st1\<lparr>cmd_params := cmd_params ?st1 @ (if 0 < length s then [take (length s) (buf ?st1), k] else [k]),
        buf := [], cap := 30, char_count := Suc (char_count ?st1), space_encountered := (c = CHR 0x20), temp := k\<rparr>"
  have b: "parse_loop (c # d # rest) ?st1 = parse_loop (d # rest) ?st2"
    by (rule keyword_step [OF c _ _ _ _ _ kw])
      (use st seg lw nw segment_noNUL [OF seg(1)] room in auto)
  show ?thesis
    by (rule exI [of _ ?st2]) (use a b st sne in simp)
qed

lemma parse_if_tokens:
  assumes A: "clause a '' then''" and B: "clause b '' else''" and C: "clause c '' f''"
  shows "parse_tokens (''if '' @ a @ '' then '' @ b @ '' else '' @ c @ '' fi'') =
    Inr [''if'', a, ''then'', b, ''else'', c, ''fi'', []]"
proof -
  obtain ha ta hb tb hc tc where h: "a = ha # ta" "b = hb # tb" "c = hc # tc"
    using A B C by (cases a; cases b; cases c) (auto simp: clause_def segment_def)
  let ?r0 = "a @ '' then'' @ CHR 0x20 # b @ '' else'' @ CHR 0x20 # c @ '' f'' @ [CHR ''i'', NUL]"
  have e: "find_keyword [] = None" "find_keyword ''if'' = None" by code_simp+
  let ?s0 = "advance ''if'' False pstart"
  let ?s1 = "?s0\<lparr>cmd_params := [''if''], buf := [], cap := 30, char_count := Suc (Suc (Suc 0)), space_encountered := True, temp := ''if''\<rparr>"
  have p0: "parse_loop (''if'' @ CHR 0x20 # ?r0) pstart = parse_loop (CHR 0x20 # ?r0) ?s0"
    using plain_run [of pstart False "''if''" "CHR 0x20 # ?r0"] e by (simp add: plain_def pstart_def)
  have kw: "find_keyword (buf ?s0 @ [CHR 0x20]) = Some (0, ''if'')"
    using find_keyword_snoc [OF e(2), of "CHR 0x20"] by (simp add: pstart_def suffix_def)
  have p1: "parse_loop (CHR 0x20 # ?r0) ?s0 = parse_loop ?r0 ?s1"
    using keyword_step [OF _ _ _ _ _ _ kw, of ha] h(1) by (simp add: pstart_def advance_def del: parse_loop.simps)
  let ?r1 = "b @ '' else'' @ CHR 0x20 # c @ '' f'' @ [CHR ''i'', NUL]"
  let ?r2 = "c @ '' f'' @ [CHR ''i'', NUL]"
  have "\<exists>s2. parse_loop ?r0 ?s1 = parse_loop ?r1 s2 \<and> cmd_params s2 = [''if'', a, ''then''] \<and> \<not> q_st s2 \<and>
      ploc s2 = None \<and> buf s2 = [] \<and> cap s2 = 30 \<and> char_count s2 \<noteq> 0 \<and> space_encountered s2"
    using clause_run [OF A, of ?s1 "CHR 0x20" "''then''" hb "tl ?r1"] h(2)
    by (simp add: pstart_def advance_def del: parse_loop.simps)
  then obtain s2 where s2: "parse_loop ?r0 ?s1 = parse_loop ?r1 s2" "cmd_params s2 = [''if'', a, ''then'']"
    "\<not> q_st s2" "ploc s2 = None" "buf s2 = []" "cap s2 = 30" "space_encountered s2" by blast
  have "\<exists>s3. parse_loop ?r1 s2 = parse_loop ?r2 s3 \<and> cmd_params s3 = [''if'', a, ''then'', b, ''else''] \<and> \<not> q_st s3 \<and>
      ploc s3 = None \<and> buf s3 = [] \<and> cap s3 = 30 \<and> char_count s3 \<noteq> 0 \<and> space_encountered s3"
    using clause_run [OF B _ s2(3,4,7,5,6), of "CHR 0x20" "''else''" hc "tl ?r2"] h(3) s2(2)
    by (simp del: parse_loop.simps)
  then obtain s3 where s3: "parse_loop ?r1 s2 = parse_loop ?r2 s3" "cmd_params s3 = [''if'', a, ''then'', b, ''else'']"
    "\<not> q_st s3" "ploc s3 = None" "buf s3 = []" "cap s3 = 30" "space_encountered s3" by blast
  have "\<exists>s4. parse_loop ?r2 s3 = parse_loop [NUL] s4 \<and> cmd_params s4 = [''if'', a, ''then'', b, ''else'', c, ''fi''] \<and>
      \<not> q_st s4 \<and> ploc s4 = None \<and> buf s4 = [] \<and> cap s4 = 30 \<and> char_count s4 \<noteq> 0 \<and> \<not> space_encountered s4"
    using clause_run [OF C _ s3(3,4,7,5,6), of "CHR ''i''" "''fi''" NUL "[]"] s3(2)
    by (simp del: parse_loop.simps)
  then obtain s4 where s4: "parse_loop ?r2 s3 = parse_loop [NUL] s4"
    "cmd_params s4 = [''if'', a, ''then'', b, ''else'', c, ''fi'']" "\<not> q_st s4" "ploc s4 = None" "buf s4 = []"
    "cap s4 = 30" "char_count s4 \<noteq> 0" by blast
  have p5: "parse_loop [NUL] s4 = Inr (s4\<lparr>cmd_params := cmd_params s4 @ [buf s4]\<rparr>)"
    by (rule end_step) (use s4 in auto)
  have "parse_loop ((''if '' @ a @ '' then '' @ b @ '' else '' @ c @ '' fi'') @ [NUL]) pstart =
      parse_loop (''if'' @ CHR 0x20 # ?r0) pstart" by simp
  also have "\<dots> = Inr (s4\<lparr>cmd_params := cmd_params s4 @ [buf s4]\<rparr>)"
    unfolding p0 p1 s2(1) s3(1) s4(1) p5 ..
  finally show ?thesis using s4(2,5) by (simp add: parse_tokens_def del: parse_loop.simps)
qed

section \<open>Alias lines\<close>

text \<open>A key or value that survives the alias syntax: no delimiter, no quote, no tab.\<close>

definition alias_word :: "string \<Rightarrow> bool" where
  "alias_word s \<longleftrightarrow> s \<noteq> [] \<and> list_all (\<lambda>c. c \<notin> {CHR ''='', CHR 0x22, CHR 0x09, NUL}) s"

lemma unquote_word: "alias_word s \<Longrightarrow> unquote s = s"
proof -
  assume "alias_word s"
  then have "CHR 0x22 \<notin> set s" by (auto simp: alias_word_def list_all_iff)
  then have "\<not> sublist [CHR 0x22] s" by (auto simp: sublist_def)
  then show ?thesis using strstr_sublist [of s "[CHR 0x22]"] by (simp add: unquote_def)
qed

lemma strtok_word: "alias_word s \<Longrightarrow> strtok (s @ CHR ''='' # r) ''='' = Some (s, r)"
  "alias_word s \<Longrightarrow> strtok s ''='' = Some (s, [])"
proof -
  assume w: "alias_word s"
  then obtain c s' where s: "s = c # s'" "c \<noteq> CHR ''=''" by (cases s) (auto simp: alias_word_def)
  have n: "\<forall>c\<in>set s. c \<noteq> CHR ''=''" using w by (auto simp: alias_word_def list_all_iff)
  then have a: "takeWhile (\<lambda>c. c \<noteq> CHR ''='') (s @ CHR ''='' # r) = s"
    "dropWhile (\<lambda>c. c \<noteq> CHR ''='') (s @ CHR ''='' # r) = CHR ''='' # r"
    "takeWhile (\<lambda>c. c \<noteq> CHR ''='') s = s" "dropWhile (\<lambda>c. c \<noteq> CHR ''='') s = []"
    by (simp_all add: takeWhile_append2 dropWhile_append2)
  have b: "dropWhile (\<lambda>c. c = CHR ''='') (s @ CHR ''='' # r) = s @ CHR ''='' # r"
    "dropWhile (\<lambda>c. c = CHR ''='') s = s" using s by simp_all
  have d: "set ''='' = {CHR ''=''}" by simp
  have e: "s \<noteq> []" "s @ CHR ''='' # r \<noteq> []" "drop 1 (CHR ''='' # r) = r" "drop 1 ([] :: string) = []"
    using s(1) by simp_all
  show "strtok (s @ CHR ''='' # r) ''='' = Some (s, r)" "strtok s ''='' = Some (s, [])"
    unfolding strtok_def Let_def d by (simp_all only: singleton_iff a b e if_False)
qed

lemma parse_alias_line:
  assumes k: "alias_word k" and v: "alias_word v"
  shows "parse_alias (''alias '' @ k @ ''='' @ v) = Some (Inr [''alias'', k, v])"
proof -
  let ?cmd = "''alias '' @ k @ ''='' @ v"
  have s: "strstr ?cmd ''alias '' = Some 0" by simp
  have t: "strtok ?cmd '' ='' = Some (''alias'', k @ ''='' @ v)" by (simp add: strtok_def)
  have "alias_loop [] ''alias'' (k @ ''='' @ v) = Inr [''alias'', k, v]"
    using strtok_word(1) [OF k, of v] strtok_word(2) [OF v] k v
    by (simp add: alias_loop.simps [of _ _ "_ @ _"] alias_loop.simps [of _ k] alias_loop.simps [of _ v]
        push_def MAX_PARAMS_def unquote_word) (simp add: strtok_def)
  with s t show ?thesis unfolding parse_alias_def by (simp only: option.simps simp_thms if_True Let_def prod.case)
qed

lemma alias_line_tokens:
  assumes "alias_word k" and "alias_word v" and "\<not> blank (last v)" and "length k + length v < 249"
  shows "parseCmd (''alias '' @ k @ ''='' @ v) = Inr [''alias'', k, v]"
proof -
  have "blank CHR ''a'' = False" by code_simp
  then have "cleanCmd (''alias '' @ k @ ''='' @ v) = Inr (''alias '' @ k @ ''='' @ v)"
    using assms(1-3) by (intro clean_line) (auto simp: alias_word_def list_all_iff)
  then show ?thesis
    using parse_alias_line [OF assms(1,2)] assms(4) by (simp add: parseCmd_def)
qed

section \<open>Properties\<close>

text \<open>
  C15. cleanCmd turns tabs into spaces and cuts the blanks (signed characters up to 0x20) off
  both ends; on a string of blanks alone, the empty string included, its unsigned loop index
  leaves the buffer.
\<close>

theorem cleanCmd_trims:
  assumes "NUL \<notin> set s"
  shows "cleanCmd s =
    (if list_all blank (map untab s) then Inl OutOfBounds else Inr (strip (map untab s)))"
  using assms by (rule cleanCmd_spec)

theorem cleanCmd_trims_witness:
  "cleanCmd (CHR 0x09 # '' ls -l '') = Inr ''ls -l'' \<and> cleanCmd [] = Inl OutOfBounds"
proof -
  have a: "NUL \<notin> set (CHR 0x09 # '' ls -l '')" by simp
  have b: "\<not> list_all blank (map untab (CHR 0x09 # '' ls -l ''))"
    "strip (map untab (CHR 0x09 # '' ls -l '')) = ''ls -l''" by code_simp+
  show ?thesis using cleanCmd_trims [OF a] cleanCmd_trims [of "[]"] b by simp
qed

text \<open>
  C16. A line of commands joined by pipes, redirections and ampersands, with single spaces
  around each operator, is cut into exactly the commands and the operators, in order.
\<close>

theorem operators_split_line:
  assumes "segment s" and "op_ok r" and "length r \<le> 8" and "length (s @ op_tail r) < 256"
    and "parse_alias (s @ op_tail r) = None"
  shows "parseCmd (s @ op_tail r) = Inr (s # concat (map (\<lambda>(c, s'). [[c], s']) r))"
proof -
  have len: "length s \<le> 28" using assms(1) by (simp add: segment_def)
  let ?st = "advance s False pstart"
  have a: "parse_loop (s @ op_tail r @ [NUL]) pstart = parse_loop (op_tail r @ [NUL]) ?st"
    using plain_run [of pstart False s "op_tail r @ [NUL]"] assms(1) len segment_keyword [OF assms(1)]
      segment_end [OF assms(1)] by (simp add: pstart_def segment_def del: parse_loop.simps)
  have "s \<noteq> []" using assms(1) by (simp add: segment_def)
  then have "\<exists>st'. parse_loop (op_tail r @ [NUL]) ?st = Inr st' \<and> cmd_params st' = cmd_params ?st @ op_tokens s r"
    using assms(3) by (intro parse_op_tail [OF assms(2,1)]) (auto simp: pstart_def)
  then have tk: "parse_tokens (s @ op_tail r) = Inr (op_tokens s r)"
    using a by (auto simp: parse_tokens_def pstart_def simp del: parse_loop.simps)
  have "cleanCmd (s @ op_tail r) = Inr (s @ op_tail r)"
    by (rule clean_line)
      (use assms(1) op_line_chars [OF assms(2,1)] op_tail_ends [OF assms(2,1)] in \<open>auto simp: segment_def\<close>)
  then show ?thesis
    using assms(3,4,5) tk clean_op_tokens [OF assms(2,1)]
    by (simp add: parseCmd_def op_tokens_length MAX_PARAMS_def)
qed

theorem operators_split_line_witness:
  "parseCmd ''ls -l | wc > out'' = Inr [''ls -l'', ''|'', ''wc'', ''>'', ''out'']"
proof -
  have s: "segment ''ls -l''" and r: "op_ok [(CHR ''|'', ''wc''), (CHR ''>'', ''out'')]" by code_simp+
  have "parse_alias (''ls -l'' @ op_tail [(CHR ''|'', ''wc''), (CHR ''>'', ''out'')]) = None" by code_simp
  from operators_split_line [OF s r _ _ this] show ?thesis by simp
qed

text \<open>
  A line \<open>alias key=value\<close> is cut into alias, the key and the value, unchanged.
\<close>

theorem alias_line_parses:
  assumes "alias_word k" and "alias_word v" and "\<not> blank (last v)" and "length k + length v < 249"
  shows "parseCmd (''alias '' @ k @ ''='' @ v) = Inr [''alias'', k, v]"
  using assms by (rule alias_line_tokens)

theorem alias_line_parses_witness: "parseCmd ''alias ll=ls -l'' = Inr [''alias'', ''ll'', ''ls -l'']"
proof -
  have "alias_word ''ll''" "alias_word ''ls -l''" "\<not> blank (last ''ls -l'')" by code_simp+
  from alias_line_parses [OF this] show ?thesis by simp
qed

text \<open>
  An if command is cut into its keywords and clauses, but with an empty entry behind the
  final fi, because the number of characters is not reset after a keyword; trimming that entry
  reads in front of its buffer.
\<close>

theorem if_command_overreads:
  assumes "clause a '' then''" and "clause b '' else''" and "clause c '' f''"
    and "parse_alias (''if '' @ a @ '' then '' @ b @ '' else '' @ c @ '' fi'') = None"
  shows "parse_tokens (''if '' @ a @ '' then '' @ b @ '' else '' @ c @ '' fi'') =
      Inr [''if'', a, ''then'', b, ''else'', c, ''fi'', []] \<and>
    parseCmd (''if '' @ a @ '' then '' @ b @ '' else '' @ c @ '' fi'') = Inl OutOfBounds"
proof -
  let ?cmd = "''if '' @ a @ '' then '' @ b @ '' else '' @ c @ '' fi''"
  have seg: "segment a" "segment b" "segment c" "length a \<le> 22" "length b \<le> 22" "length c \<le> 22"
    using assms(1-3) by (simp_all add: clause_def)
  note tk = parse_if_tokens [OF assms(1-3)]
  have nb: "\<not> blank CHR ''i''" by code_simp
  have cl: "cleanCmd ?cmd = Inr ?cmd"
    by (rule clean_line) (use seg nb segment_noNUL in \<open>auto simp: segment_def\<close>)
  have kw: "cleanCmd ''if'' = Inr ''if''" "cleanCmd ''then'' = Inr ''then''" "cleanCmd ''else'' = Inr ''else''"
    "cleanCmd ''fi'' = Inr ''fi''" "cleanCmd [] = Inl OutOfBounds" by code_simp+
  have "clean_all [''if'', a, ''then'', b, ''else'', c, ''fi'', []] = Inl OutOfBounds"
    using clean_segment(1) [OF seg(1)] clean_segment(1) [OF seg(2)] clean_segment(1) [OF seg(3)]
    by (simp add: kw)
  then have "parseCmd ?cmd = Inl OutOfBounds"
    using seg cl assms(4) tk by (simp add: parseCmd_def)
  with tk show ?thesis by simp
qed

theorem if_command_overreads_witness: "parseCmd ''if pwd then ls else who fi'' = Inl OutOfBounds"
proof -
  have c: "clause ''pwd'' '' then''" "clause ''ls'' '' else''" "clause ''who'' '' f''" by code_simp+
  have "parse_alias (''if '' @ ''pwd'' @ '' then '' @ ''ls'' @ '' else '' @ ''who'' @ '' fi'') = None" by code_simp
  from if_command_overreads [OF c this] show ?thesis by simp
qed

end
