(* ===== verification/ShValid.thy ===== *)
theory ShValid
  imports ShParser
begin

text \<open>
  The command validator of the shell (prj_1/valid.c): validateIfElseCondition checks the
  keywords of an if command with a stack, validateCommand expands aliases, looks every command
  up and replaces it by its path in the command list.
\<close>

section \<open>Results\<close>

definition INVALID_COMMAND :: int where "INVALID_COMMAND = -1"
definition NULL_COMMAND :: int where "NULL_COMMAND = 0"
definition VALID_COMMAND :: int where "VALID_COMMAND = 1"

lemmas command_codes = INVALID_COMMAND_def NULL_COMMAND_def VALID_COMMAND_def

section \<open>validateIfElseCondition\<close>

datatype symbol = IF | THEN | ELSE | FI

text \<open>The keywords no then, else or fi may follow directly, and an if must follow.\<close>

definition opens :: "string \<Rightarrow> bool" where
  "opens w \<longleftrightarrow> w = ''if'' \<or> w = ''then'' \<or> w = ''else''"

text \<open>\<open>stk[++top] = s\<close> on the stack of 1000 symbols, top first.\<close>

definition push_symbol :: "symbol \<Rightarrow> symbol list \<Rightarrow> symbol list res" where
  "push_symbol s stk = (if length stk < 1000 then Inr (s # stk) else Inl OutOfBounds)"

text \<open>The loop at a fi: at most three pops, in the order else, then, if; prev carries over.\<close>

fun pop_loop :: "nat \<Rightarrow> symbol list \<Rightarrow> symbol \<Rightarrow> bool \<times> symbol list \<times> symbol" where
  "pop_loop 0 stk prev = (True, stk, prev)"
| "pop_loop (Suc j) [] prev = (True, [], prev)"
| "pop_loop (Suc j) (t # stk) prev =
     (if t = ELSE \<and> prev = FI then pop_loop j stk ELSE
      else if t = THEN \<and> prev = ELSE then pop_loop j stk THEN
      else if t = IF \<and> prev = THEN then pop_loop j stk FI
      else (False, t # stk, prev))"

text \<open>\<open>before\<close> is \<open>listOfCommands[i-1]\<close>, None for i = 0, where reading it is out of bounds.\<close>

fun vif_loop :: "string option \<Rightarrow> string list \<Rightarrow> symbol list \<Rightarrow> symbol \<Rightarrow> int res" where
  "vif_loop before [] stk prev = Inr (if stk \<noteq> [] then INVALID_COMMAND else VALID_COMMAND)"
| "vif_loop before (w # ws) stk prev =
     (if w = ''if'' then
        (if before = None \<or> opens (the before)
         then bnd (push_symbol IF stk) (\<lambda>stk'. vif_loop (Some w) ws stk' prev)
         else Inr INVALID_COMMAND)
      else if w = ''then'' \<or> w = ''else'' \<or> w = ''fi'' then
        bnd (if before = None then Inl OutOfBounds else Inr (the before)) (\<lambda>b.
          if opens b then Inr INVALID_COMMAND
          else if w = ''then'' then bnd (push_symbol THEN stk) (\<lambda>stk'. vif_loop (Some w) ws stk' prev)
          else if w = ''else'' then bnd (push_symbol ELSE stk) (\<lambda>stk'. vif_loop (Some w) ws stk' prev)
          else (let (valid, stk', prev') = pop_loop 3 stk prev
                in if \<not> valid then Inr INVALID_COMMAND else vif_loop (Some w) ws stk' prev'))
      else vif_loop (Some w) ws stk prev)"

definition validateIfElseCondition :: "string list \<Rightarrow> int res" where
  "validateIfElseCondition ws = vif_loop None ws [] FI"

section \<open>validateCommand\<close>

text \<open>The word a command starts with: strtok with a space, or the whole string.\<close>

definition first_word :: "string \<Rightarrow> string" where
  "first_word s = (case strtok s '' '' of None \<Rightarrow> s | Some (w, _) \<Rightarrow> w)"

text \<open>The arguments of a command, from its first space on.\<close>

definition arguments :: "string \<Rightarrow> string" where
  "arguments s = dropWhile (\<lambda>c. c \<noteq> CHR 0x20) s"

definition char0 :: "string \<Rightarrow> char" where
  "char0 s = (case s of [] \<Rightarrow> NUL | c # _ \<Rightarrow> c)"

definition builtins :: "string list" where
  "builtins = [''set'', ''if'', ''then'', ''else'', ''fi'', ''exit'', ''var'', ''print'', ''alias'',
               ''expr'', ''cd'', ''hist'']"

definition cmd_exists :: "(string \<Rightarrow> bool) \<Rightarrow> string \<Rightarrow> bool" where
  "cmd_exists access cmd \<longleftrightarrow>
     cmd \<in> set builtins \<or> char0 cmd = CHR ''.'' \<or> char0 cmd = CHR ''$'' \<or> take 7 cmd = ''unalias'' \<or>
     access (''/bin/'' @ cmd) \<or> access (''/usr/bin/'' @ cmd)"

text \<open>
  An alias replaces the first word. The block for the result has the length of usrBinPath
  (\<open>usr_len\<close>, whatever that array holds before it is first written), of the command, and two.
\<close>

definition expand_alias :: "assoc_ar \<Rightarrow> nat \<Rightarrow> string \<Rightarrow> string res" where
  "expand_alias al usr_len s =
     bnd (get al (first_word s)) (\<lambda>a. case a of
       None \<Rightarrow> Inr s
     | Some v \<Rightarrow> if length v + length (arguments s) < usr_len + length s + 2
                 then Inr (v @ arguments s) else Inl BufferOverflow)"

text \<open>
  What one command contributes: an early answer (\<open>Inl code\<close>), or the new contents of its entry
  and whether it was found.
\<close>

definition check_command ::
    "(string \<Rightarrow> bool) \<Rightarrow> string option list \<Rightarrow> nat \<Rightarrow> string \<Rightarrow> (int + string \<times> bool) res" where
  "check_command access lc i s =
     (let cmd = first_word s
      in if 4096 \<le> 9 + length cmd then Inl BufferOverflow
         else if cmd_exists access cmd then
           bnd (if cmd = ''alias'' \<or> cmd = ''set'' then
                  bnd (rd lc (int i + 1)) (\<lambda>p. if p = None then Inr False
                    else bnd (rd lc (int i + 2)) (\<lambda>q. Inr (q \<noteq> None)))
                else Inr (cmd = ''cd'' \<or> take 3 cmd = ''cd '')) (\<lambda>ret.
             if ret then Inr (Inl VALID_COMMAND)
             else if access (''/bin/'' @ cmd) then Inr (Inr (''/bin/'' @ cmd @ arguments s, True))
             else if access (''/usr/bin/'' @ cmd) then Inr (Inr (''/usr/bin/'' @ cmd @ arguments s, True))
             else Inr (Inr (s, True)))
         else Inr (Inr (s, False)))"

text \<open>
  The operators: an early answer, or whether the entry counts as found and whether the next
  one is skipped.
\<close>

definition check_operator :: "string option list \<Rightarrow> nat \<Rightarrow> nat \<Rightarrow> string \<Rightarrow> (int + bool \<times> bool) res" where
  "check_operator lc n i s =
     (if char0 s = CHR ''>'' \<or> char0 s = CHR ''|'' \<or> s = ''='' then
        (if i = n - 1 \<or> i = 0 then Inr (Inl INVALID_COMMAND)
         else bnd (bnd (rd lc (int i + 1)) deref) (\<lambda>nx.
              if char0 nx \<in> {CHR ''&'', CHR ''>'', CHR ''|'', CHR ''=''} then Inr (Inl INVALID_COMMAND)
              else bnd (if char0 s = CHR ''='' then
                          bnd (bnd (rd lc (int i - 1)) deref) (\<lambda>pv. Inr (pv = ''alias'' \<or> pv = ''set''))
                        else Inr False) (\<lambda>bad.
                   if bad then Inr (Inl INVALID_COMMAND)
                   else Inr (Inr (True, char0 s = CHR ''>'' \<or> char0 s = CHR ''='')))))
      else if char0 s = CHR ''&'' then
        (if i \<noteq> n - 1 then Inr (Inl INVALID_COMMAND) else Inr (Inr (True, False)))
      else Inr (Inr (False, False)))"

function validate_loop ::
    "(string \<Rightarrow> bool) \<Rightarrow> assoc_ar \<Rightarrow> nat \<Rightarrow> string option list \<Rightarrow> nat \<Rightarrow> nat \<Rightarrow> bool
      \<Rightarrow> (int \<times> string option list) res" where
  "validate_loop access al usr_len lc n i found =
     (if n \<le> i then Inr (if found then VALID_COMMAND else INVALID_COMMAND, lc)
      else bnd (bnd (rd lc (int i)) deref) (\<lambda>s0.
           bnd (expand_alias al usr_len s0) (\<lambda>s.
           let lc1 = lc[i := Some s]
           in if first_word s = ''if'' \<and> i = 0 then
                bnd (validateIfElseCondition (map the (take n lc1))) (\<lambda>v.
                  if v = INVALID_COMMAND then Inr (INVALID_COMMAND, lc1)
                  else validate_loop access al usr_len lc1 n (i + 1) found)
              else
                bnd (check_command access lc1 i s) (\<lambda>c. case c of
                  Inl code \<Rightarrow> Inr (code, lc1)
                | Inr (s', fnd) \<Rightarrow>
                    (let lc2 = lc1[i := Some s']; ul = 9 + length (first_word s)
                     in if fnd then validate_loop access al ul lc2 n (i + 1) True
                        else bnd (check_operator lc2 n i s') (\<lambda>o'. case o' of
                               Inl code \<Rightarrow> Inr (code, lc2)
                             | Inr (fnd', skip) \<Rightarrow>
                                 validate_loop access al ul lc2 n (if skip then i + 2 else i + 1) fnd'))))))"
  by pat_completeness auto
termination
  by (relation "measure (\<lambda>(access, al, usr_len, lc, n, i, found). n - i)") auto

declare validate_loop.simps [simp del]

text \<open>\<open>junk_len\<close>: the length of the string usrBinPath holds before it is written.\<close>

definition validateCommand ::
    "(string \<Rightarrow> bool) \<Rightarrow> assoc_ar \<Rightarrow> nat \<Rightarrow> string option list \<Rightarrow> nat \<Rightarrow> (int \<times> string option list) res" where
  "validateCommand access al junk_len lc n =
     (if n = 0 then Inr (NULL_COMMAND, lc) else validate_loop access al junk_len lc n 0 False)"

section \<open>If trees\<close>

text \<open>What an if command should be: nested conditionals over sequences of other entries.\<close>

datatype cond = Cmds "string list" | Cond cond cond cond

definition keyword :: "string \<Rightarrow> bool" where
  "keyword w \<longleftrightarrow> opens w \<or> w = ''fi''"

fun wf_cond :: "cond \<Rightarrow> bool" where
  "wf_cond (Cmds ws) \<longleftrightarrow> ws \<noteq> [] \<and> list_all (\<lambda>w. \<not> keyword w) ws"
| "wf_cond (Cond c t e) \<longleftrightarrow> wf_cond c \<and> wf_cond t \<and> wf_cond e"

fun flatten :: "cond \<Rightarrow> string list" where
  "flatten (Cmds ws) = ws"
| "flatten (Cond c t e) = [''if''] @ flatten c @ [''then''] @ flatten t @ [''else''] @ flatten e @ [''fi'']"

fun depth :: "cond \<Rightarrow> nat" where
  "depth (Cmds ws) = 0"
| "depth (Cond c t e) = Suc (max (depth c) (max (depth t) (depth e)))"

lemma flatten_ne: "wf_cond c \<Longrightarrow> flatten c \<noteq> []"
  by (cases c) auto

lemma last_flatten: "wf_cond c \<Longrightarrow> \<not> opens (last (flatten c))"
  by (cases c) (auto simp: opens_def keyword_def list_all_iff)

lemma vif_cmds:
  "list_all (\<lambda>w. \<not> keyword w) ws \<Longrightarrow> ws \<noteq> [] \<Longrightarrow>
     vif_loop b (ws @ rest) stk prev = vif_loop (Some (last ws)) rest stk prev"
proof (induction ws arbitrary: b)
  case (Cons w ws)
  then have k: "w \<noteq> ''if''" "w \<noteq> ''then''" "w \<noteq> ''else''" "w \<noteq> ''fi''"
    by (auto simp: keyword_def opens_def)
  then show ?case using Cons by (cases "ws = []") auto
qed simp

text \<open>A well-formed tree leaves the stack as it found it.\<close>

lemma vif_flatten:
  "wf_cond c \<Longrightarrow> (b = None \<or> opens (the b)) \<Longrightarrow> length stk + 3 * depth c \<le> 1000 \<Longrightarrow>
     vif_loop b (flatten c @ rest) stk FI = vif_loop (Some (last (flatten c))) rest stk FI"
proof (induction c arbitrary: b stk rest)
  case (Cmds ws)
  then show ?case by (simp add: vif_cmds)
next
  case (Cond c t e)
  have o: "opens ''if''" "opens ''then''" "opens ''else''" by (simp_all add: opens_def)
  have wf: "wf_cond c" "wf_cond t" "wf_cond e" using Cond.prems(1) by auto
  let ?rt = "flatten t @ ''else'' # flatten e @ ''fi'' # rest"
  let ?re = "flatten e @ ''fi'' # rest"
  have len: "length (IF # stk) + 3 * depth c \<le> 1000" "length (THEN # IF # stk) + 3 * depth t \<le> 1000"
    "length (ELSE # THEN # IF # stk) + 3 * depth e \<le> 1000" "length stk \<le> 997"
    using Cond.prems(3) by auto
  have c: "vif_loop (Some ''if'') (flatten c @ ''then'' # ?rt) (IF # stk) FI =
      vif_loop (Some (last (flatten c))) (''then'' # ?rt) (IF # stk) FI"
    by (rule Cond.IH(1) [OF wf(1) _ len(1)]) (simp add: o)
  have t: "vif_loop (Some ''then'') ?rt (THEN # IF # stk) FI =
      vif_loop (Some (last (flatten t))) (''else'' # ?re) (THEN # IF # stk) FI"
    by (rule Cond.IH(2) [OF wf(2) _ len(2)]) (simp add: o)
  have e: "vif_loop (Some ''else'') ?re (ELSE # THEN # IF # stk) FI =
      vif_loop (Some (last (flatten e))) (''fi'' # rest) (ELSE # THEN # IF # stk) FI"
    by (rule Cond.IH(3) [OF wf(3) _ len(3)]) (simp add: o)
  have s1: "vif_loop b (''if'' # flatten c @ ''then'' # ?rt) stk FI =
      vif_loop (Some ''if'') (flatten c @ ''then'' # ?rt) (IF # stk) FI"
    using Cond.prems(2) len(4) by (simp add: push_symbol_def)
  have s2: "vif_loop (Some (last (flatten c))) (''then'' # ?rt) (IF # stk) FI =
      vif_loop (Some ''then'') ?rt (THEN # IF # stk) FI"
    using last_flatten [OF wf(1)] len(4) by (simp add: push_symbol_def)
  have s3: "vif_loop (Some (last (flatten t))) (''else'' # ?re) (THEN # IF # stk) FI =
      vif_loop (Some ''else'') ?re (ELSE # THEN # IF # stk) FI"
    using last_flatten [OF wf(2)] len(4) by (simp add: push_symbol_def)
  have s4: "vif_loop (Some (last (flatten e))) (''fi'' # rest) (ELSE # THEN # IF # stk) FI =
      vif_loop (Some ''fi'') rest stk FI"
    using last_flatten [OF wf(3)] by (simp add: numeral_3_eq_3)
  have "vif_loop b (flatten (Cond c t e) @ rest) stk FI = vif_loop b (''if'' # flatten c @ ''then'' # ?rt) stk FI"
    by simp
  also have "\<dots> = vif_loop (Some ''fi'') rest stk FI" unfolding s1 c s2 t s3 e s4 ..
  finally show ?case by simp
qed

text \<open>What an accepted list of entries guarantees about neighbours.\<close>

lemma vif_first:
  assumes "vif_loop b (w # ws) stk prev = Inr VALID_COMMAND"
  shows "(w \<in> {''then'', ''else'', ''fi''} \<longrightarrow> (\<exists>p. b = Some p \<and> \<not> opens p)) \<and>
     (w = ''if'' \<longrightarrow> b = None \<or> opens (the b)) \<and>
     (\<exists>stk' prev'. vif_loop (Some w) ws stk' prev' = Inr VALID_COMMAND)"
proof -
  have ne: "INVALID_COMMAND \<noteq> VALID_COMMAND" by (simp add: command_codes)
  consider "w = ''if''" | "w = ''then''" | "w = ''else''" | "w = ''fi''"
    | "w \<notin> {''if'', ''then'', ''else'', ''fi''}" by blast
  then show ?thesis
  proof cases
    case 4
    obtain v stk' prev' where p: "pop_loop 3 stk prev = (v, stk', prev')" by (metis prod_cases3)
    show ?thesis using assms 4 p ne by (cases b) (auto split: if_splits)
  next
    case 5
    then show ?thesis using assms by auto
  qed (use assms ne in \<open>cases b; auto simp: bnd_eq_Inr split: if_splits\<close>)+
qed

lemma vif_sound:
  "vif_loop b ws stk prev = Inr VALID_COMMAND \<Longrightarrow> i < length ws \<Longrightarrow>
     (ws ! i \<in> {''then'', ''else'', ''fi''} \<longrightarrow>
        (if i = 0 then \<exists>p. b = Some p \<and> \<not> opens p else \<not> opens (ws ! (i - 1)))) \<and>
     (ws ! i = ''if'' \<longrightarrow> (if i = 0 then b = None \<or> opens (the b) else opens (ws ! (i - 1))))"
proof (induction ws arbitrary: b stk prev i)
  case (Cons w ws)
  note f = vif_first [OF Cons.prems(1)]
  then obtain stk' prev' where r: "vif_loop (Some w) ws stk' prev' = Inr VALID_COMMAND" by blast
  show ?case
  proof (cases i)
    case 0
    with f show ?thesis by auto
  next
    case (Suc k)
    then have "k < length ws" using Cons.prems(2) by simp
    from Cons.IH [OF r this] Suc show ?thesis by (cases k) auto
  qed
qed simp

lemma vif_append:
  "vif_loop b ws stk prev = Inr VALID_COMMAND \<Longrightarrow> ws \<noteq> [] \<Longrightarrow>
     \<exists>prev'. vif_loop b (ws @ rest) stk prev = vif_loop (Some (last ws)) rest [] prev'"
proof (induction b ws stk prev rule: vif_loop.induct)
  case (1 before stk prev)
  then show ?case by simp
next
  case (2 before w ws stk prev)
  have ne: "INVALID_COMMAND \<noteq> VALID_COMMAND" by (simp add: command_codes)
  have fin: "\<exists>prev'. vif_loop (Some w) (ws @ rest) stk' p = vif_loop (Some (last (w # ws))) rest [] prev'"
    if v: "vif_loop (Some w) ws stk' p = Inr VALID_COMMAND"
      and ih: "ws \<noteq> [] \<Longrightarrow> \<exists>prev'. vif_loop (Some w) (ws @ rest) stk' p = vif_loop (Some (last ws)) rest [] prev'"
    for stk' p
  proof (cases "ws = []")
    case True
    with v ne have "stk' = []" by (auto split: if_splits)
    with True show ?thesis by auto
  qed (use ih in simp)
  consider "w = ''if''" | "w = ''then''" | "w = ''else''" | "w = ''fi''"
    | "w \<notin> {''if'', ''then'', ''else'', ''fi''}" by blast
  then show ?case
  proof cases
    case w: 1
    with "2.prems"(1) ne obtain stk' where s: "push_symbol IF stk = Inr stk'" "before = None \<or> opens (the before)"
      "vif_loop (Some w) ws stk' prev = Inr VALID_COMMAND" by (auto simp: bnd_eq_Inr split: if_splits)
    from fin [OF s(3) "2.IH"(1) [OF w s(2,1,3)]] w s show ?thesis by simp
  next
    case w: 2
    with "2.prems"(1) ne obtain q stk' where s: "before = Some q" "\<not> opens q" "push_symbol THEN stk = Inr stk'"
      "vif_loop (Some w) ws stk' prev = Inr VALID_COMMAND" by (auto simp: bnd_eq_Inr split: if_splits)
    from fin [OF s(4) "2.IH"(2) [of q stk']] w s show ?thesis by simp
  next
    case w: 3
    with "2.prems"(1) ne obtain q stk' where s: "before = Some q" "\<not> opens q" "push_symbol ELSE stk = Inr stk'"
      "vif_loop (Some w) ws stk' prev = Inr VALID_COMMAND" by (auto simp: bnd_eq_Inr split: if_splits)
    from fin [OF s(4) "2.IH"(3) [of q stk']] w s show ?thesis by simp
  next
    case w: 4
    obtain v stk' p' where p: "pop_loop 3 stk prev = (v, stk', p')" by (metis prod_cases3)
    with "2.prems"(1) w ne obtain q where s: "before = Some q" "\<not> opens q" "v"
      "vif_loop (Some w) ws stk' p' = Inr VALID_COMMAND" by (auto simp: bnd_eq_Inr split: if_splits)
    from fin [OF s(4) "2.IH"(4) [of q "(v, stk', p')" v "(stk', p')" stk' p']] w s p show ?thesis by simp
  next
    case w: 5
    with "2.prems"(1) have s: "vif_loop (Some w) ws stk prev = Inr VALID_COMMAND" by simp
    from fin [OF s "2.IH"(5)] w s show ?thesis by simp
  qed
qed

section \<open>Looking commands up\<close>

text \<open>The entry of a command after the lookup.\<close>

definition resolve :: "(string \<Rightarrow> bool) \<Rightarrow> string \<Rightarrow> string" where
  "resolve access s =
     (if access (''/bin/'' @ first_word s) then ''/bin/'' @ first_word s @ arguments s
      else if access (''/usr/bin/'' @ first_word s) then ''/usr/bin/'' @ first_word s @ arguments s
      else s)"

text \<open>A command that the validator treats like any other: no alias, no special word.\<close>

definition ordinary :: "assoc_ar \<Rightarrow> string \<Rightarrow> bool" where
  "ordinary al s \<longleftrightarrow> get al (first_word s) = Inr None \<and>
     first_word s \<notin> {''if'', ''alias'', ''set'', ''cd''} \<and> take 3 (first_word s) \<noteq> ''cd '' \<and>
     length (first_word s) < 4087"

lemma validate_ordinary:
  assumes o: "ordinary al s" and i: "i < n" "i < length lc" "lc ! i = Some s"
  shows "validate_loop access al ul lc n i found =
    (if cmd_exists access (first_word s)
     then validate_loop access al (9 + length (first_word s)) (lc[i := Some (resolve access s)]) n (i + 1) True
     else bnd (check_operator lc n i s) (\<lambda>o'. case o' of
            Inl code \<Rightarrow> Inr (code, lc)
          | Inr (fnd', skip) \<Rightarrow>
              validate_loop access al (9 + length (first_word s)) lc n (if skip then i + 2 else i + 1) fnd'))"
proof -
  have e: "expand_alias al ul s = Inr s" using o by (simp add: expand_alias_def ordinary_def)
  have u: "lc[i := Some s] = lc" using i(3) by (metis list_update_id)
  have c: "check_command access lc i s =
      Inr (Inr (if cmd_exists access (first_word s) then resolve access s else s, cmd_exists access (first_word s)))"
    using o by (simp add: check_command_def ordinary_def resolve_def Let_def)
  have "first_word s \<noteq> ''if''" using o by (simp add: ordinary_def)
  then show ?thesis
    using i e c by (subst validate_loop.simps) (simp add: u Let_def)
qed

lemma validate_end: "validate_loop access al ul lc n n found = Inr (if found then VALID_COMMAND else INVALID_COMMAND, lc)"
  by (subst validate_loop.simps) simp

section \<open>Properties\<close>

text \<open>
  C17. Every well-formed if command, however its conditions and branches nest, is accepted (as
  long as its symbols fit the stack of 1000).
\<close>

theorem if_trees_accepted:
  assumes "wf_cond (Cond c t e)" and "3 * depth (Cond c t e) \<le> 1000"
  shows "validateIfElseCondition (flatten (Cond c t e)) = Inr VALID_COMMAND"
  using vif_flatten [OF assms(1), of None "[]" "[]"] assms(2)
  unfolding validateIfElseCondition_def by (simp del: flatten.simps)

theorem if_trees_accepted_witness:
  "validateIfElseCondition [''if'', ''a'', ''then'', ''if'', ''b'', ''then'', ''c'', ''else'', ''d'', ''fi'',
     ''else'', ''e'', ''|'', ''f'', ''fi''] = Inr VALID_COMMAND"
  using if_trees_accepted [of "Cmds [''a'']" "Cond (Cmds [''b'']) (Cmds [''c'']) (Cmds [''d''])"
      "Cmds [''e'', ''|'', ''f'']"]
  by (simp add: keyword_def opens_def)

text \<open>
  In an accepted list, no then, else or fi stands directly behind an if, then or else, and
  every if is the first entry or stands directly behind an if, then or else.
\<close>

theorem accepted_keywords_separated:
  assumes "validateIfElseCondition ws = Inr VALID_COMMAND" and "i < length ws"
  shows "(ws ! i \<in> {''then'', ''else'', ''fi''} \<longrightarrow> 0 < i \<and> \<not> opens (ws ! (i - 1))) \<and>
    (ws ! i = ''if'' \<longrightarrow> i = 0 \<or> opens (ws ! (i - 1)))"
  using vif_sound [of None ws "[]" FI i] assms unfolding validateIfElseCondition_def
  by (cases "i = 0") auto

theorem accepted_keywords_separated_witness:
  "\<not> opens ([''if'', ''a'', ''then'', ''b'', ''else'', ''c'', ''fi''] ! 3)"
proof -
  have v: "validateIfElseCondition [''if'', ''a'', ''then'', ''b'', ''else'', ''c'', ''fi''] = Inr VALID_COMMAND"
    by code_simp
  from accepted_keywords_separated [OF v, of 4] show ?thesis by simp
qed

text \<open>
  The validator does not match every fi with an if: an accepted list stays accepted when
  one more fi is put behind it, since the pops stop at an empty stack without an error.
\<close>

theorem surplus_fi_accepted:
  assumes "validateIfElseCondition ws = Inr VALID_COMMAND" and "ws \<noteq> []" and "\<not> opens (last ws)"
  shows "validateIfElseCondition (ws @ [''fi'']) = Inr VALID_COMMAND"
proof -
  obtain p where "vif_loop None (ws @ [''fi'']) [] FI = vif_loop (Some (last ws)) [''fi''] [] p"
    using vif_append [of None ws "[]" FI "[''fi'']"] assms(1,2) unfolding validateIfElseCondition_def by blast
  with assms(3) show ?thesis by (simp add: validateIfElseCondition_def numeral_3_eq_3)
qed

theorem surplus_fi_accepted_witness:
  "validateIfElseCondition [''if'', ''a'', ''then'', ''b'', ''else'', ''c'', ''fi'', ''fi''] = Inr VALID_COMMAND"
proof -
  have v: "validateIfElseCondition [''if'', ''a'', ''then'', ''b'', ''else'', ''c'', ''fi''] = Inr VALID_COMMAND"
    by code_simp
  from surplus_fi_accepted [OF v] show ?thesis by (simp add: opens_def)
qed

text \<open>
  C18. A single command is valid exactly when it is a builtin, starts with a dot or a dollar,
  or is found in /bin or /usr/bin; its entry is replaced by the path it was found under (/bin
  first) with its arguments kept, and nothing else in the list changes.
\<close>

theorem single_command_resolved:
  assumes "ordinary al s" and "char0 s \<notin> {CHR ''>'', CHR ''|'', CHR ''&''}" and "s \<noteq> ''=''"
  shows "validateCommand access al junk (Some s # rest) 1 =
    (if cmd_exists access (first_word s) then Inr (VALID_COMMAND, Some (resolve access s) # rest)
     else Inr (INVALID_COMMAND, Some s # rest))"
  using validate_ordinary [OF assms(1), of 0 1 "Some s # rest" access junk False] assms(2,3)
    validate_end [of access al _ _ 1]
  by (simp add: validateCommand_def check_operator_def)

definition no_aliases :: assoc_ar where
  "no_aliases = init (\<lambda>_ _. NUL) (\<lambda>_ _. NUL)"

lemma no_aliases_get: "fits256 k \<Longrightarrow> get no_aliases k = Inr None"
  unfolding no_aliases_def by (rule tbl.look_empty)

lemma demo_ordinary: "ordinary no_aliases ''ls -l''" "ordinary no_aliases ''nosuch''" "ordinary no_aliases ''|''"
proof -
  have w: "first_word ''ls -l'' = ''ls''" "first_word ''nosuch'' = ''nosuch''" "first_word ''|'' = ''|''" by code_simp+
  show "ordinary no_aliases ''ls -l''" "ordinary no_aliases ''nosuch''" "ordinary no_aliases ''|''"
    by (simp_all add: ordinary_def w no_aliases_get fits256_def)
qed

theorem single_command_resolved_witness:
  "validateCommand (\<lambda>p. p = ''/usr/bin/ls'') no_aliases 0 [Some ''ls -l'', None] 1 =
     Inr (VALID_COMMAND, [Some ''/usr/bin/ls -l'', None])"
proof -
  have e: "cmd_exists (\<lambda>p. p = ''/usr/bin/ls'') (first_word ''ls -l'')"
    "resolve (\<lambda>p. p = ''/usr/bin/ls'') ''ls -l'' = ''/usr/bin/ls -l''"
    "char0 ''ls -l'' \<notin> {CHR ''>'', CHR ''|'', CHR ''&''}" "''ls -l'' \<noteq> ''=''" by code_simp+
  from single_command_resolved [OF demo_ordinary(1) e(3,4)] e(1,2) show ?thesis by simp
qed

text \<open>
  The verdict on a pipeline is the verdict on its last command: the flag found is
  overwritten at every entry, so a command that does not exist is accepted in front of a pipe.
\<close>

theorem last_command_decides:
  assumes "ordinary al a" and "char0 a \<notin> {CHR ''>'', CHR ''|'', CHR ''&''}" and "a \<noteq> ''=''"
    and "\<not> cmd_exists access (first_word a)"
    and "ordinary al ''|''" and "\<not> cmd_exists access ''|''"
    and "ordinary al b" and "char0 b \<notin> {CHR ''>'', CHR ''|'', CHR ''&'', CHR ''=''}"
  shows "validateCommand access al junk [Some a, Some ''|'', Some b, None] 3 =
    (if cmd_exists access (first_word b)
     then Inr (VALID_COMMAND, [Some a, Some ''|'', Some (resolve access b), None])
     else Inr (INVALID_COMMAND, [Some a, Some ''|'', Some b, None]))"
proof -
  let ?lc = "[Some a, Some ''|'', Some b, None]"
  have w: "first_word ''|'' = ''|''" "char0 ''|'' = CHR ''|''" by code_simp+
  have b: "b \<noteq> ''=''" using assms(8) by (auto simp: char0_def)
  have 0: "validate_loop access al u ?lc 3 0 f = validate_loop access al (9 + length (first_word a)) ?lc 3 1 False" for u f
    using validate_ordinary [OF assms(1), of 0 3 ?lc access u f] assms(2-4)
    by (simp add: check_operator_def)
  have 1: "validate_loop access al u ?lc 3 1 f = validate_loop access al 10 ?lc 3 2 True" for u f
    using validate_ordinary [OF assms(5), of 1 3 ?lc access u f] assms(6,8)
    by (simp add: check_operator_def w numeral_2_eq_2)
  have 2: "validate_loop access al u ?lc 3 2 f =
      (if cmd_exists access (first_word b) then Inr (VALID_COMMAND, [Some a, Some ''|'', Some (resolve access b), None])
       else Inr (INVALID_COMMAND, ?lc))" for u f
    using validate_ordinary [OF assms(7), of 2 3 ?lc access u f] assms(8) b validate_end [of access al _ _ 3]
    by (simp add: check_operator_def)
  show ?thesis unfolding validateCommand_def 0 1 2 by simp
qed

theorem last_command_decides_witness:
  "validateCommand (\<lambda>p. p = ''/bin/ls'') no_aliases 0 [Some ''nosuch'', Some ''|'', Some ''ls -l'', None] 3 =
     Inr (VALID_COMMAND, [Some ''nosuch'', Some ''|'', Some ''/bin/ls -l'', None])"
proof -
  have e: "char0 ''nosuch'' \<notin> {CHR ''>'', CHR ''|'', CHR ''&''}" "''nosuch'' \<noteq> ''=''"
    "\<not> cmd_exists (\<lambda>p. p = ''/bin/ls'') (first_word ''nosuch'')"
    "\<not> cmd_exists (\<lambda>p. p = ''/bin/ls'') ''|''"
    "char0 ''ls -l'' \<notin> {CHR ''>'', CHR ''|'', CHR ''&'', CHR ''=''}"
    "cmd_exists (\<lambda>p. p = ''/bin/ls'') (first_word ''ls -l'')"
    "resolve (\<lambda>p. p = ''/bin/ls'') ''ls -l'' = ''/bin/ls -l''" by code_simp+
  from last_command_decides [OF demo_ordinary(2) e(1-3) demo_ordinary(3) e(4) demo_ordinary(1) e(5)] e(6,7)
  show ?thesis by simp
qed

end
