(* ===== verification/ShExec.thy ===== *)
theory ShExec
  imports ShValid
begin

text \<open>
  Running commands (prj_1/exe.c): split cuts a command into arguments, execute_single and
  execute turn a command list into system calls. A process is an interaction tree: each node
  is a system call with the rest of the process as a function of the answer, so that fork has
  the child behind the answer 0 and the parent behind the others.
\<close>

section \<open>Cutting a command into arguments\<close>

fun count_spaces_loop :: "bool \<Rightarrow> string \<Rightarrow> nat" where
  "count_spaces_loop skip [] = 0"
| "count_spaces_loop skip (c # cs) =
     (if c = CHR 0x22 then count_spaces_loop (\<not> skip) cs
      else if \<not> skip \<and> c = CHR 0x20 then Suc (count_spaces_loop skip cs)
      else count_spaces_loop skip cs)"

definition count_spaces :: "string \<Rightarrow> nat" where
  "count_spaces str = count_spaces_loop False str"

text \<open>
  \<open>tstr\<close> is the block of 256 characters in use, up to idx; \<open>room\<close> the number of pointers
  str_list has room for. A finished argument ends in a NUL inside its block.
\<close>

definition put_tstr :: "string \<Rightarrow> char \<Rightarrow> string res" where
  "put_tstr tstr c = (if length tstr < 256 then Inr (tstr @ [c]) else Inl BufferOverflow)"

definition finish :: "nat \<Rightarrow> string \<Rightarrow> string list \<Rightarrow> string list res" where
  "finish room tstr strs =
     (if 256 \<le> length tstr then Inl BufferOverflow
      else if length strs < room then Inr (strs @ [tstr]) else Inl OutOfBounds)"

fun split_loop :: "nat \<Rightarrow> bool \<Rightarrow> string \<Rightarrow> string list \<Rightarrow> string \<Rightarrow> string list res" where
  "split_loop room skip tstr strs [] =
     (if length strs < room then Inr strs else Inl OutOfBounds)"
| "split_loop room skip tstr strs (c # cs) =
     (if c = CHR 0x22 then
        (if cs = [] then bnd (finish room tstr strs) (\<lambda>strs'. split_loop room (\<not> skip) tstr strs' cs)
         else split_loop room (\<not> skip) tstr strs cs)
      else if \<not> skip \<and> c = CHR 0x20 then
        bnd (finish room tstr strs) (\<lambda>strs'. split_loop room skip [] strs' cs)
      else if cs = [] then
        bnd (put_tstr tstr c) (\<lambda>t. bnd (finish room t strs) (\<lambda>strs'. split_loop room skip t strs' cs))
      else bnd (put_tstr tstr c) (\<lambda>t. split_loop room skip t strs cs))"

text \<open>split(str, &str_list) on a list with \<open>room\<close> pointers.\<close>

definition split :: "nat \<Rightarrow> string \<Rightarrow> string list res" where
  "split room str = split_loop room False [] [] str"

section \<open>Processes\<close>

text \<open>
  The globals of a process of the shell, and the local of main that says whether bye has been
  registered with atexit.
\<close>

record config =
  home :: string
  PROMPT :: string
  my_pid :: int
  alias_file :: string
  alias_fd :: int
  exit_reg_once :: bool

datatype open_flag = O_RDONLY | O_RDWR | O_CREAT | O_TRUNC

datatype syscall =
    Chdir string | Execv string "string list" | Exit int | Open string "open_flag list" | Close int
  | Dup int | Fork | Waitpid int | Read int | Write int string | Perror string | Getpid | Lseek int int

text \<open>
  \<open>Return r cfg\<close>: the function returns r, the globals of this process being cfg; pipe answers
  with its two descriptors or fails (None).
\<close>

datatype io =
    Return int config
  | Sys syscall "int \<Rightarrow> io"
  | Pipe "(int \<times> int) option \<Rightarrow> io"
  | Crash fault

abbreviation do_sys :: "syscall \<Rightarrow> io \<Rightarrow> io" where
  "do_sys c k \<equiv> Sys c (\<lambda>_. k)"

definition crash_or :: "'a res \<Rightarrow> ('a \<Rightarrow> io) \<Rightarrow> io" where
  "crash_or r k = (case r of Inl e \<Rightarrow> Crash e | Inr x \<Rightarrow> k x)"

definition set_alias :: "assoc_ar \<Rightarrow> string \<Rightarrow> string \<Rightarrow> assoc_ar res" where
  [simp]: "set_alias ar key val = add ar key val"

definition set_config :: "string \<Rightarrow> string \<Rightarrow> config \<Rightarrow> config" where
  "set_config key val cfg =
     (if key = ''home'' then cfg\<lparr>home := val\<rparr>
      else if key = ''prompt'' then cfg\<lparr>PROMPT := val\<rparr> else cfg)"

text \<open>
  execute_single. An answer of -1 is reported and becomes 0. \<open>k\<close> is what the caller does with
  the value returned. cd without an argument copies home into a block of 256. The set branch
  passes on the fourth pointer of the list, which split has left unwritten unless there are
  three arguments; set_config dereferences it for the keys it knows.
\<close>

definition ret_single :: "config \<Rightarrow> (int \<Rightarrow> config \<Rightarrow> io) \<Rightarrow> int \<Rightarrow> io" where
  "ret_single cfg k r = (if r = -1 then do_sys (Perror ''execution error:'') (k 0 cfg) else k r cfg)"

definition argument :: "string list \<Rightarrow> nat \<Rightarrow> string res" where
  "argument args i =
     (if i < length args then Inr (args ! i)
      else if i = length args then Inl NullDeref else Inl Uninitialised)"

definition execute_single :: "config \<Rightarrow> string \<Rightarrow> (int \<Rightarrow> config \<Rightarrow> io) \<Rightarrow> io" where
  "execute_single cfg cmd k =
     crash_or (split (count_spaces cmd + 3) cmd) (\<lambda>args.
     crash_or (argument args 0) (\<lambda>name.
       if name = ''cd'' then
         (if length args = 1 then
            (if length (home cfg) < 256 then Sys (Chdir (home cfg)) (ret_single cfg k)
             else Crash BufferOverflow)
          else Sys (Chdir (args ! 1)) (ret_single cfg k))
       else if name = ''set'' then
         crash_or (argument args 1) (\<lambda>key.
           if length args = 3 \<and> key \<notin> {''home'', ''prompt''} then ret_single cfg k 0
           else crash_or (argument args 3) (\<lambda>val. ret_single (set_config key val cfg) k 0))
       else if name = ''exit'' then Sys (Exit 0) (\<lambda>_. Crash Panic)
       else Sys (Execv name args) (ret_single cfg k)))"

section \<open>execute\<close>

text \<open>The number of entries from an index on; without a null pointer the scan leaves the list.\<close>

fun entries :: "string option list \<Rightarrow> nat res" where
  "entries [] = Inl OutOfBounds"
| "entries (None # lc) = Inr 0"
| "entries (Some w # lc) = bnd (entries lc) (\<lambda>n. Inr (Suc n))"

text \<open>The scan for the keywords of an if command: the positions of its else, then and fi.\<close>

fun if_scan :: "int \<Rightarrow> nat \<Rightarrow> int \<Rightarrow> int \<Rightarrow> string option list \<Rightarrow> (int \<times> int \<times> int) res" where
  "if_scan i if_cnt else_locn then_locn [] = Inl OutOfBounds"
| "if_scan i if_cnt else_locn then_locn (None # lc) = Inr (else_locn, then_locn, -1)"
| "if_scan i if_cnt else_locn then_locn (Some w # lc) =
     (if w = ''else'' \<and> if_cnt = 0 then if_scan (i + 1) if_cnt i then_locn lc
      else if w = ''fi'' then
        (if if_cnt = 0 then Inr (else_locn, then_locn, i)
         else if_scan (i + 1) (if_cnt - 1) else_locn then_locn lc)
      else if w = ''then'' \<and> if_cnt = 0 then if_scan (i + 1) if_cnt else_locn i lc
      else if w = ''if'' then if_scan (i + 1) (if_cnt + 1) else_locn then_locn lc
      else if_scan (i + 1) if_cnt else_locn then_locn lc)"

text \<open>
  execute(cmd_list, start). \<open>junk\<close> is the value ret_val holds before it is assigned: the
  parent of a pipe, and a cd with operators behind it, return it. A child that returns from
  execute_single goes on to the end of execute like the parent.
\<close>

fun execute :: "nat \<Rightarrow> int \<Rightarrow> string option list \<Rightarrow> int \<Rightarrow> config \<Rightarrow> (int \<Rightarrow> config \<Rightarrow> io) \<Rightarrow> io" where
  "execute 0 junk lc start cfg k = Crash Diverges"
| "execute (Suc f) junk lc start cfg k =
     (if start < 0 then Crash OutOfBounds
      else crash_or (entries (drop (nat start) lc)) (\<lambda>len.
        let entry = (\<lambda>i. bnd (rd lc (start + i)) deref)
        in if 2 < len then
             crash_or (entry 0) (\<lambda>cmd. crash_or (entry 1) (\<lambda>op. crash_or (entry 2) (\<lambda>arg.
               if op = ''>'' then
                 Sys (Open arg [O_CREAT, O_TRUNC, O_RDWR]) (\<lambda>out_fd.
                   if out_fd = -1 then do_sys (Perror ''error_redirect:'') (k (-1) cfg)
                   else do_sys (Close 1) (do_sys (Dup out_fd) (do_sys (Close out_fd)
                          (execute_single cfg cmd k))))
               else if op = ''|'' then
                 Pipe (\<lambda>p. case p of
                   None \<Rightarrow> do_sys (Perror ''pipe_error:'') (k 0 cfg)
                 | Some (pr, pw) \<Rightarrow>
                     Sys Fork (\<lambda>pid.
                       if pid = -1 then do_sys (Perror ''forking_error:'') (k 0 cfg)
                       else if pid = 0 then
                         do_sys (Close pr) (do_sys (Close 1) (do_sys (Dup pw) (do_sys (Close pw)
                           (execute_single cfg cmd k))))
                       else
                         do_sys (Close pw) (do_sys (Close 0) (do_sys (Dup pr) (do_sys (Close pr)
                           (execute f junk lc (start + 2) cfg (\<lambda>_ cfg'. k junk cfg')))))))
               else if cmd = ''if'' then
                 Pipe (\<lambda>p. case p of
                   None \<Rightarrow> do_sys (Perror ''pipeing_error:'') (k 0 cfg)
                 | Some (pr, pw) \<Rightarrow>
                     crash_or (if_scan (start + 1) 0 (-1) (-1) (drop (nat start + 1) lc))
                       (\<lambda>(else_locn, then_locn, fi_locn).
                         Sys Fork (\<lambda>pid.
                           if pid = -1 then do_sys (Perror ''forking_error:'') (k 0 cfg)
                           else if pid \<noteq> 0 then
                             do_sys (Close pw) (do_sys (Waitpid pid) (Sys (Read pr) (\<lambda>pipe_get_num.
                               do_sys (Close pr)
                                 (if pipe_get_num > 0 then execute f junk lc (else_locn + 1) cfg k
                                  else execute f junk lc (then_locn + 1) cfg k))))
                           else
                             do_sys (Close pr)
                               (execute f junk lc (start + 1) cfg (\<lambda>r cfg'.
                                  do_sys (Write pw ''Fai'') (do_sys (Close pw)
                                    (if r = -1 then do_sys (Perror ''run error:'') (k (-1) cfg')
                                     else k 1 cfg')))))))
               else if cmd = ''cd'' then k junk cfg
               else execute_single cfg cmd k)))
           else crash_or (entry 0) (\<lambda>cmd. execute_single cfg cmd k)))"

section \<open>What split returns\<close>

text \<open>The loop needs one pointer per space outside quotes, one for the end, and one for NULL.\<close>

lemma split_loop_bound:
  "length strs + count_spaces_loop skip cs + 1 < room \<Longrightarrow> length tstr + length cs < 256 \<Longrightarrow>
     \<exists>out. split_loop room skip tstr strs cs = Inr out \<and> length out \<le> length strs + count_spaces_loop skip cs + 1"
proof (induction room skip tstr strs cs rule: split_loop.induct)
  case (2 room skip tstr strs c cs)
  have f: "finish room t strs = Inr (strs @ [t])" if "length t < 256" for t
    using that "2.prems"(1) by (simp add: finish_def)
  consider "c = CHR 0x22" | "c \<noteq> CHR 0x22" "\<not> skip \<and> c = CHR 0x20" | "c \<noteq> CHR 0x22" "\<not> (\<not> skip \<and> c = CHR 0x20)"
    by blast
  then show ?case
  proof cases
    case 1
    with "2.IH"(1,2) "2.prems" f [of tstr] show ?thesis by (cases "cs = []") auto
  next
    case s: 2
    have "length (strs @ [tstr]) + count_spaces_loop skip cs + 1 < room" "length [] + length cs < 256"
      using "2.prems" s by auto
    with "2.IH"(3) [OF s f [of tstr], simplified] "2.prems"(2) s f [of tstr] show ?thesis by auto
  next
    case o: 3
    have p: "put_tstr tstr c = Inr (tstr @ [c])" using "2.prems"(2) by (simp add: put_tstr_def)
    show ?thesis
    proof (cases "cs = []")
      case True
      with o p f [of "tstr @ [c]"] "2.prems" show ?thesis by auto
    next
      case False
      with "2.IH"(5) [OF o False p] "2.prems" o p show ?thesis by auto
    qed
  qed
qed simp

text \<open>An argument as it is typed: bare, or between quotes.\<close>

fun shown :: "bool \<times> string \<Rightarrow> string" where
  "shown (q, w) = (if q then CHR 0x22 # w @ [CHR 0x22] else w)"

fun arg_ok :: "bool \<times> string \<Rightarrow> bool" where
  "arg_ok (q, w) \<longleftrightarrow> CHR 0x22 \<notin> set w \<and> (q \<or> w \<noteq> [] \<and> CHR 0x20 \<notin> set w) \<and> length w < 256"

fun spaced :: "(bool \<times> string) list \<Rightarrow> string" where
  "spaced [] = []"
| "spaced (a # as) = shown a @ (if as = [] then [] else CHR 0x20 # spaced as)"

lemma split_run:
  "CHR 0x22 \<notin> set w \<Longrightarrow> skip \<or> CHR 0x20 \<notin> set w \<Longrightarrow> rest \<noteq> [] \<Longrightarrow> length t + length w < 257 \<Longrightarrow>
     split_loop room skip t strs (w @ rest) = split_loop room skip (t @ w) strs rest"
proof (induction w arbitrary: t)
  case (Cons c w)
  then have "split_loop room skip (t @ [c]) strs (w @ rest) = split_loop room skip ((t @ [c]) @ w) strs rest"
    by auto
  with Cons.prems show ?case by (auto simp: put_tstr_def)
qed simp

lemma split_arg:
  assumes "arg_ok a" and "length strs < room"
  shows "split_loop room False [] strs (shown a @ CHR 0x20 # rest) = split_loop room False [] (strs @ [snd a]) rest"
proof -
  obtain q w where a: "a = (q, w)" by fastforce
  with assms show ?thesis
    using split_run [of w True "CHR 0x22 # CHR 0x20 # rest" "[]" room strs]
      split_run [of w False "CHR 0x20 # rest" "[]" room strs]
    by (auto simp: finish_def)
qed

lemma split_last:
  assumes "arg_ok a" and "Suc (length strs) < room"
  shows "split_loop room False [] strs (shown a) = Inr (strs @ [snd a])"
proof -
  obtain q w where a: "a = (q, w)" by fastforce
  show ?thesis
  proof (cases q)
    case True
    with a assms show ?thesis
      using split_run [of w True "[CHR 0x22]" "[]" room strs] by (simp add: finish_def)
  next
    case False
    with a assms obtain v c where w: "w = v @ [c]" by (cases w rule: rev_cases) auto
    with a False assms show ?thesis
      using split_run [of v False "[c]" "[]" room strs] by (auto simp: finish_def put_tstr_def)
  qed
qed

lemma split_spaced:
  "as \<noteq> [] \<Longrightarrow> list_all arg_ok as \<Longrightarrow> length strs + length as < room \<Longrightarrow>
     split_loop room False [] strs (spaced as) = Inr (strs @ map snd as)"
proof (induction "as" arbitrary: strs)
  case (Cons a as)
  show ?case
  proof (cases "as = []")
    case True
    with Cons.prems split_last [of a strs room] show ?thesis by simp
  next
    case False
    with Cons.prems Cons.IH [of "strs @ [snd a]"] split_arg [of a strs room "spaced as"] show ?thesis by simp
  qed
qed simp

lemma spaces_run:
  "CHR 0x22 \<notin> set w \<Longrightarrow> skip \<or> CHR 0x20 \<notin> set w \<Longrightarrow> count_spaces_loop skip (w @ rest) = count_spaces_loop skip rest"
  by (induction w) auto

lemma spaces_spaced: "as \<noteq> [] \<Longrightarrow> list_all arg_ok as \<Longrightarrow> count_spaces_loop False (spaced as) = length as - 1"
proof (induction "as")
  case (Cons a as)
  obtain q w where a: "a = (q, w)" by fastforce
  have "count_spaces_loop False (shown a @ rest) = count_spaces_loop False rest" for rest
    using a Cons.prems(2) spaces_run [of w True "CHR 0x22 # rest"] spaces_run [of w False rest] by auto
  from this [of "CHR 0x20 # spaced as"] this [of "[]"] Cons show ?case by auto
qed simp

section \<open>The keywords of an if command\<close>

lemma if_scan_run:
  "list_all (\<lambda>w. \<not> keyword w) ws \<Longrightarrow>
     if_scan i n e t (map Some ws @ lc) = if_scan (i + int (length ws)) n e t lc"
  by (induction ws arbitrary: i) (auto simp: keyword_def opens_def algebra_simps)

text \<open>A nested tree is passed over.\<close>

lemma if_scan_flatten:
  "wf_cond c \<Longrightarrow>
     if_scan i n e t (map Some (flatten c) @ lc) = if_scan (i + int (length (flatten c))) n e t lc"
proof (induction c arbitrary: i n e t lc)
  case (Cmds ws)
  then show ?case by (simp add: if_scan_run)
next
  case (Cond c x y)
  then show ?case by (simp add: algebra_simps)
qed

lemma if_scan_cond:
  assumes "wf_cond (Cond c t e)"
  shows "if_scan (i + 1) 0 (-1) (-1) (map Some (flatten c @ [''then''] @ flatten t @ [''else''] @ flatten e @ [''fi'']) @ lc)
    = Inr (i + int (length (flatten c) + length (flatten t)) + 2, i + int (length (flatten c)) + 1,
           i + int (length (flatten c) + length (flatten t) + length (flatten e)) + 3)"
  using assms by (simp add: if_scan_flatten algebra_simps)

lemma entries_map: "entries (map Some ws @ [None]) = Inr (length ws)"
  by (induction ws) auto

text \<open>
  What an if command should do, on trees whose leaves are single commands: run the condition in
  a child, wait for it, and go on with the then branch exactly if the child left nothing in the
  pipe.
\<close>

definition leaf_ok :: "string \<Rightarrow> bool" where
  "leaf_ok w \<longleftrightarrow> \<not> keyword w \<and> w \<noteq> ''>'' \<and> w \<noteq> ''|'' \<and> w \<noteq> ''cd''"

fun simple_cond :: "cond \<Rightarrow> bool" where
  "simple_cond (Cmds ws) \<longleftrightarrow> (case ws of [w] \<Rightarrow> leaf_ok w | _ \<Rightarrow> False)"
| "simple_cond (Cond c t e) \<longleftrightarrow> simple_cond c \<and> simple_cond t \<and> simple_cond e"

fun run_cond :: "config \<Rightarrow> cond \<Rightarrow> (int \<Rightarrow> config \<Rightarrow> io) \<Rightarrow> io" where
  "run_cond cfg (Cmds ws) k = execute_single cfg (hd ws) k"
| "run_cond cfg (Cond c t e) k =
     Pipe (\<lambda>p. case p of
       None \<Rightarrow> do_sys (Perror ''pipeing_error:'') (k 0 cfg)
     | Some (pr, pw) \<Rightarrow>
         Sys Fork (\<lambda>pid.
           if pid = -1 then do_sys (Perror ''forking_error:'') (k 0 cfg)
           else if pid \<noteq> 0 then
             do_sys (Close pw) (do_sys (Waitpid pid) (Sys (Read pr) (\<lambda>n.
               do_sys (Close pr) (if n > 0 then run_cond cfg e k else run_cond cfg t k))))
           else
             do_sys (Close pr) (run_cond cfg c (\<lambda>r cfg'.
               do_sys (Write pw ''Fai'') (do_sys (Close pw)
                 (if r = -1 then do_sys (Perror ''run error:'') (k (-1) cfg') else k 1 cfg'))))))"

lemma simple_wf: "simple_cond c \<Longrightarrow> wf_cond c"
  by (induction c) (auto simp: leaf_ok_def split: list.splits)

lemma simple_hd: "simple_cond c \<Longrightarrow> \<exists>w ws. flatten c = w # ws \<and> w \<noteq> ''>'' \<and> w \<noteq> ''|''"
  by (cases c) (auto simp: leaf_ok_def split: list.splits)

text \<open>The list execute works on: some commands, the one it starts with, and the rest.\<close>

abbreviation listing :: "string list \<Rightarrow> string list \<Rightarrow> string list \<Rightarrow> string option list" where
  "listing pre ws post \<equiv> map Some (pre @ ws @ post) @ [None]"

lemma rd_listing:
  "j < length (ws @ post) \<Longrightarrow> rd (listing pre ws post) (int (length pre) + int j) = Inr (Some ((ws @ post) ! j))"
  by (auto simp: rd_def nth_append nat_add_distrib)

lemma drop_listing: "drop (length pre) (listing pre ws post) = map Some (ws @ post) @ [None]"
  by simp

lemma execute_leaf:
  assumes "leaf_ok w" and "post = [] \<or> hd post \<noteq> ''>'' \<and> hd post \<noteq> ''|''"
  shows "execute (Suc f) junk (listing pre [w] post) (int (length pre)) cfg k = execute_single cfg w k"
proof -
  let ?lc = "listing pre [w] post"
  have n: "entries (drop (nat (int (length pre))) ?lc) = Inr (Suc (length post))"
    using entries_map [of "w # post"] by (simp add: drop_listing)
  have r: "rd ?lc (int (length pre) + int j) = Inr (Some ((w # post) ! j))" if "j < Suc (length post)" for j
    using rd_listing [of j "[w]" post pre] that by simp
  have r0: "rd ?lc (int (length pre)) = Inr (Some w)" using r [of 0] by simp
  show ?thesis
  proof (cases "2 < Suc (length post)")
    case True
    then have "rd ?lc (int (length pre) + 1) = Inr (Some (hd post))"
      "rd ?lc (int (length pre) + 2) = Inr (Some (post ! 1))"
      using r [of 1] r [of 2] by (cases post; simp)+
    with True n r0 assms show ?thesis by (auto simp: crash_or_def Let_def leaf_ok_def keyword_def opens_def)
  next
    case False
    with n r0 show ?thesis by (simp add: crash_or_def Let_def)
  qed
qed

text \<open>One step of execute at an if, with the positions its scan finds.\<close>

lemma execute_if:
  assumes s: "simple_cond (Cond c t e)"
    and lc: "lc = listing pre (flatten (Cond c t e)) post"
    and el: "el = int (length pre + length (flatten c) + length (flatten t)) + 3"
    and th: "th = int (length pre + length (flatten c)) + 2"
  shows "execute (Suc f) junk lc (int (length pre)) cfg k =
    Pipe (\<lambda>p. case p of
       None \<Rightarrow> do_sys (Perror ''pipeing_error:'') (k 0 cfg)
     | Some (pr, pw) \<Rightarrow>
         Sys Fork (\<lambda>pid.
           if pid = -1 then do_sys (Perror ''forking_error:'') (k 0 cfg)
           else if pid \<noteq> 0 then
             do_sys (Close pw) (do_sys (Waitpid pid) (Sys (Read pr) (\<lambda>n.
               do_sys (Close pr) (if n > 0 then execute f junk lc el cfg k else execute f junk lc th cfg k))))
           else
             do_sys (Close pr) (execute f junk lc (int (length pre) + 1) cfg (\<lambda>r cfg'.
               do_sys (Write pw ''Fai'') (do_sys (Close pw)
                 (if r = -1 then do_sys (Perror ''run error:'') (k (-1) cfg') else k 1 cfg'))))))"
proof -
  let ?tl = "flatten c @ [''then''] @ flatten t @ [''else''] @ flatten e @ [''fi'']"
  have lc': "lc = listing pre (''if'' # ?tl) post" using lc by simp
  obtain w ws where c: "flatten c = w # ws" "w \<noteq> ''>''" "w \<noteq> ''|''" using s simple_hd by fastforce
  have n: "entries (drop (length pre) lc) = Inr (length (''if'' # ?tl @ post))"
    using entries_map [of "''if'' # ?tl @ post"] by (simp add: lc')
  have r: "rd lc (int (length pre) + int j) = Inr (Some ((''if'' # ?tl @ post) ! j))" if "j < 3" for j
    unfolding lc' using rd_listing [of j "''if'' # ?tl" post pre] that c by simp
  have r3: "rd lc (int (length pre)) = Inr (Some ''if'')" "rd lc (int (length pre) + 1) = Inr (Some w)"
    "\<exists>x. rd lc (int (length pre) + 2) = Inr (Some x)"
    using r [of 0] r [of 1] r [of 2] c by simp_all
  have "drop (Suc (length pre)) lc = map Some ?tl @ map Some post @ [None]"
    by (simp add: lc')
  then have sc: "if_scan (int (length pre) + 1) 0 (-1) (-1) (drop (Suc (length pre)) lc) =
      Inr (el - 1, th - 1, int (length pre) + int (length (flatten c) + length (flatten t) + length (flatten e)) + 3)"
    using if_scan_cond [of c t e "int (length pre)" "map Some post @ [None]"] simple_wf [OF s] el th by simp
  have l: "2 < length (''if'' # ?tl @ post)" by simp
  show ?thesis using r3 c l
    by (auto simp: crash_or_def Let_def n sc fun_eq_iff cong: if_cong split: option.splits)
qed

lemma execute_tree:
  "simple_cond T \<Longrightarrow> post = [] \<or> hd post \<noteq> ''>'' \<and> hd post \<noteq> ''|'' \<Longrightarrow> depth T < f \<Longrightarrow>
     execute f junk (listing pre (flatten T) post) (int (length pre)) cfg k = run_cond cfg T k"
proof (induction T arbitrary: pre post f k)
  case (Cmds ws)
  then obtain w g where "ws = [w]" "leaf_ok w" "f = Suc g" by (cases f) (auto split: list.splits)
  with Cmds.prems(2) execute_leaf [of w post g junk pre cfg k] show ?case by simp
next
  case (Cond c t e)
  let ?lc = "listing pre (flatten (Cond c t e)) post"
  obtain g where f: "f = Suc g" "depth c < g" "depth t < g" "depth e < g" using Cond.prems(3) by (cases f) auto
  have s: "simple_cond c" "simple_cond t" "simple_cond e" using Cond.prems(1) by auto
  let ?pe = "pre @ [''if''] @ flatten c @ [''then''] @ flatten t @ [''else'']"
  have e: "execute g junk ?lc (int (length pre + length (flatten c) + length (flatten t)) + 3) cfg k' = run_cond cfg e k'" for k'
    using Cond.IH(3) [OF s(3) _ f(4), of "''fi'' # post" ?pe k'] by (simp add: algebra_simps)
  have t: "execute g junk ?lc (int (length pre + length (flatten c)) + 2) cfg k' = run_cond cfg t k'" for k'
    using Cond.IH(2) [OF s(2) _ f(3), of "''else'' # flatten e @ ''fi'' # post" "pre @ [''if''] @ flatten c @ [''then'']" k']
    by (simp add: algebra_simps)
  have c: "execute g junk ?lc (int (length pre) + 1) cfg k' = run_cond cfg c k'" for k'
    using Cond.IH(1) [OF s(1) _ f(2), of "''then'' # flatten t @ ''else'' # flatten e @ ''fi'' # post" "pre @ [''if'']" k']
    by (simp add: algebra_simps)
  show ?case unfolding f(1) execute_if [OF Cond.prems(1) refl refl refl] c t e by simp
qed

section \<open>Properties\<close>

text \<open>
  C19. Quoting: a command typed as arguments that are bare or between quotes is passed to execv
  as exactly these arguments, blanks inside quotes kept, and the list execute_single allocates
  has room for them.
\<close>

theorem arguments_reach_execv:
  assumes "as \<noteq> []" and "list_all arg_ok as" and "snd (hd as) \<notin> {''cd'', ''set'', ''exit''}"
  shows "execute_single cfg (spaced as) k = Sys (Execv (snd (hd as)) (map snd as)) (ret_single cfg k)"
proof -
  have "length as < length as - 1 + 3" by simp
  then have "split (count_spaces (spaced as) + 3) (spaced as) = Inr (map snd as)"
    using split_spaced [OF assms(1,2), of "[]"] spaces_spaced [OF assms(1,2)]
    by (simp add: split_def count_spaces_def)
  with assms(1,3) show ?thesis
    by (cases "as") (simp_all add: execute_single_def crash_or_def argument_def)
qed

definition demo_config :: config where
  "demo_config = \<lparr>home = ''/root/'', PROMPT = ''MRP:>'', my_pid = 100, alias_file = ''/root/alias'',
     alias_fd = 4, exit_reg_once = False\<rparr>"

theorem arguments_reach_execv_witness:
  "execute_single demo_config (''/bin/ls '' @ CHR 0x22 # ''my file'' @ [CHR 0x22]) Return =
     Sys (Execv ''/bin/ls'' [''/bin/ls'', ''my file'']) (ret_single demo_config Return)"
  using arguments_reach_execv [of "[(False, ''/bin/ls''), (True, ''my file'')]"] by simp

text \<open>
  C20. On any command of less than 256 characters split ends without a fault in the list
  execute_single allocates for it: there is one pointer for every space outside quotes, and
  one more, and at least two stay free for the terminator.
\<close>

theorem split_stays_in_bounds:
  assumes "length cmd < 256"
  shows "\<exists>args. split (count_spaces cmd + 3) cmd = Inr args \<and> length args + 2 \<le> count_spaces cmd + 3"
  using split_loop_bound [of "[]" False cmd "count_spaces cmd + 3" "[]"] assms
  by (auto simp: split_def count_spaces_def)

theorem split_stays_in_bounds_witness:
  "\<exists>args. split 5 ''echo  x'' = Inr args \<and> length args + 2 \<le> 5"
  using split_stays_in_bounds [of "''echo  x''"] by (simp add: count_spaces_def)

text \<open>
  C21. An if command, nested to any depth, runs as the tree it was written as: the condition in
  a child that is waited for, then the then branch if the child left nothing in the pipe, and
  the else branch otherwise. As many rounds as the nesting is deep are enough.
\<close>

theorem if_runs_its_tree:
  assumes "simple_cond T" and "depth T < f"
  shows "execute f junk (map Some (flatten T) @ [None]) 0 cfg k = run_cond cfg T k"
  using execute_tree [OF assms(1) _ assms(2), of "[]" junk "[]" cfg k] by simp

theorem if_runs_its_tree_witness:
  "execute 2 0 [Some ''if'', Some ''/bin/a'', Some ''then'', Some ''/bin/b'', Some ''else'', Some ''/bin/c'',
      Some ''fi'', None] 0 demo_config Return =
    run_cond demo_config (Cond (Cmds [''/bin/a'']) (Cmds [''/bin/b'']) (Cmds [''/bin/c''])) Return"
  using if_runs_its_tree [of "Cond (Cmds [''/bin/a'']) (Cmds [''/bin/b'']) (Cmds [''/bin/c''])" 2]
  by (simp add: leaf_ok_def keyword_def opens_def)

end
