(* ===== verification/ShMain.thy ===== *)
theory ShMain
  imports ShExec
begin

text \<open>
  The main loop of the shell (prj_1/mrpsh.c): reading the PROFILE file and the alias file at
  startup, reading commands at the prompt, and taking one line through the parser, the
  validator and execution. The inputs are the bytes that read and scanf deliver; file and
  terminal errors are an input that ends.
\<close>

section \<open>Reading lines\<close>

text \<open>A line is empty when it has no visible character; char is signed.\<close>

fun is_empty :: "string \<Rightarrow> bool" where
  "is_empty [] = True"
| "is_empty (c # cs) = (if 32 < schar c \<and> schar c < 127 then False else is_empty cs)"

text \<open>
  get_non_empty_line: the characters up to a newline go to the block line points to, which ends
  in NUL after every character. The result is the number of characters, the block, and the rest
  of the input. At the end of the file nothing is written.
\<close>

fun read_line :: "string \<Rightarrow> nat \<Rightarrow> char list \<Rightarrow> (nat \<times> char list \<times> string) res" where
  "read_line [] idx str = Inr (idx, str, [])"
| "read_line (c # cs) idx str =
     (if c = CHR 0x0A then bnd (wr str (int idx) NUL) (\<lambda>s. Inr (idx, s, cs))
      else bnd (wr str (int idx) c) (\<lambda>s.
           bnd (wr s (int idx + 1) NUL) (\<lambda>s'. read_line cs (idx + 1) s')))"

definition get_non_empty_line :: "string \<Rightarrow> char list option \<Rightarrow> (nat \<times> char list option \<times> string) res" where
  "get_non_empty_line inp line =
     (case line of
        None \<Rightarrow> if inp = [] then Inr (0, None, []) else Inl NullDeref
      | Some str \<Rightarrow> bnd (read_line inp 0 str) (\<lambda>(n, s, rest). Inr (n, Some s, rest)))"

text \<open>
  read_command: the newline is stored as well, and the last byte stored becomes the NUL. At the
  end of the input scanf fails and the loop is left; the NUL then goes over the last character,
  or in front of the block.
\<close>

fun scan_loop :: "string \<Rightarrow> nat \<Rightarrow> char list \<Rightarrow> (nat \<times> char list \<times> string) res" where
  "scan_loop [] len cmd = Inr (len, cmd, [])"
| "scan_loop (c # cs) len cmd =
     bnd (wr cmd (int len) c) (\<lambda>b.
       if c = CHR 0x0A then Inr (len + 1, b, cs) else scan_loop cs (len + 1) b)"

text \<open>\<open>junk\<close> is the block of 256 bytes malloc returns.\<close>

definition read_command :: "char list \<Rightarrow> string \<Rightarrow> (string \<times> string) res" where
  "read_command junk inp =
     bnd (scan_loop inp 0 junk) (\<lambda>(len, cmd, rest).
     bnd (wr cmd (int len - 1) NUL) (\<lambda>b. Inr (cstr b, rest)))"

section \<open>One line\<close>

text \<open>
  The globals of the shell that a line can change: the alias table and the configuration. The
  rest is what the code leaves open: the lookup of a path, the length of the indeterminate
  array in validateCommand, the indeterminate value in execute, and the fuel of execute.
\<close>

record shell_env =
  path_exists :: "string \<Rightarrow> bool"
  usr_bin_len :: nat
  stack_junk :: int
  exec_fuel :: nat

text \<open>\<open>cmd_list\<close> is cleared to 18 null pointers before each line.\<close>

definition cmd_list :: "string list \<Rightarrow> string option list" where
  "cmd_list ps = map Some ps @ replicate (18 - length ps) None"

definition entry_at :: "string option list \<Rightarrow> int \<Rightarrow> string res" where
  "entry_at lc i = bnd (rd lc i) deref"

text \<open>set_config compares the key and copies the value only for the keys it knows.\<close>

definition set_line :: "string option list \<Rightarrow> config \<Rightarrow> config res" where
  "set_line lc cfg =
     bnd (entry_at lc 1) (\<lambda>key.
       if key = ''home'' \<or> key = ''prompt'' then bnd (entry_at lc 2) (\<lambda>val. Inr (set_config key val cfg))
       else Inr cfg)"

text \<open>
  bye, the function registered with atexit: in the shell itself, and in no process it forked, it
  replaces the contents of the alias file by the table, one write for every alias.
\<close>

definition bye :: "config \<Rightarrow> assoc_ar \<Rightarrow> io \<Rightarrow> io" where
  "bye cfg al k =
     Sys Getpid (\<lambda>pid.
       if pid = my_pid cfg then
         do_sys (Lseek (alias_fd cfg) 0)
           (Sys (Open (alias_file cfg) [O_TRUNC, O_RDWR]) (\<lambda>fd.
             crash_or (write_alias al) (\<lambda>ls. foldr (\<lambda>l. do_sys (Write fd l)) ls (do_sys (Close fd) k))))
       else k)"

text \<open>\<open>at_exit b t\<close> is t where b comes before every exit; \<open>and_then\<close> goes on where t returns.\<close>

primrec at_exit :: "(io \<Rightarrow> io) \<Rightarrow> io \<Rightarrow> io" where
  "at_exit b (Return r cfg) = Return r cfg"
| "at_exit b (Sys c f) =
     (let t = Sys c (\<lambda>x. at_exit b (f x)) in case c of Exit n \<Rightarrow> b t | _ \<Rightarrow> t)"
| "at_exit b (Pipe f) = Pipe (\<lambda>p. at_exit b (f p))"
| "at_exit b (Crash e) = Crash e"

primrec and_then :: "io \<Rightarrow> (int \<Rightarrow> config \<Rightarrow> io) \<Rightarrow> io" where
  "and_then (Return r cfg) k = k r cfg"
| "and_then (Sys c f) k = Sys c (\<lambda>x. and_then (f x) k)"
| "and_then (Pipe f) k = Pipe (\<lambda>p. and_then (f p) k)"
| "and_then (Crash e) k = Crash e"

definition registered_exit :: "config \<Rightarrow> assoc_ar \<Rightarrow> io \<Rightarrow> io" where
  "registered_exit cfg al t = (if exit_reg_once cfg then at_exit (bye cfg al) t else t)"

text \<open>
  The fork of a command that is not run by the shell itself. The child returns from main, and
  so exits; the parent registers bye at its first fork, and waits for a child unless the last
  entry is an ampersand.
\<close>

definition launch ::
    "shell_env \<Rightarrow> bool \<Rightarrow> string option list \<Rightarrow> assoc_ar \<Rightarrow> config \<Rightarrow> (config \<Rightarrow> io) \<Rightarrow> io" where
  "launch env send_bg lc al cfg k =
     Sys Fork (\<lambda>pid.
       if pid = -1 then
         registered_exit cfg al (do_sys (Perror ''fork_error:'') (do_sys (Exit 1) (Crash Panic)))
       else if pid \<noteq> 0 then
         (let cfg' = cfg\<lparr>exit_reg_once := True\<rparr>
          in if send_bg then k cfg' else do_sys (Waitpid (-1)) (k cfg'))
       else
         registered_exit cfg al (execute (exec_fuel env) (stack_junk env) lc 0 cfg (\<lambda>r cfg'.
           if r = -1 then do_sys (Perror ''exe_error:'') (do_sys (Exit 0) (Crash Panic))
           else do_sys (Exit 1) (Crash Panic))))"

text \<open>\<open>k\<close> goes on with the next line.\<close>

definition run_line ::
    "shell_env \<Rightarrow> string \<Rightarrow> assoc_ar \<Rightarrow> config \<Rightarrow> (assoc_ar \<Rightarrow> config \<Rightarrow> io) \<Rightarrow> io" where
  "run_line env line al cfg k =
     crash_or (parseCmd line) (\<lambda>ps.
     crash_or (entries (cmd_list ps)) (\<lambda>len.
     crash_or (validateCommand (path_exists env) al (usr_bin_len env) (cmd_list ps) len) (\<lambda>(v, lc).
       if v \<noteq> VALID_COMMAND then k al cfg
       else
         crash_or (bnd (entries lc) (\<lambda>n. entry_at lc (int n - 1))) (\<lambda>lst.
         crash_or (entry_at lc 0) (\<lambda>cmd.
           if cmd = ''alias'' then
             crash_or (entry_at lc 1) (\<lambda>key. crash_or (entry_at lc 2) (\<lambda>val.
             crash_or (set_alias al key val) (\<lambda>al'. k al' cfg)))
           else if cmd = ''set'' then crash_or (set_line lc cfg) (\<lambda>cfg'. k al cfg')
           else if take 3 cmd = ''cd '' \<or> cmd = ''cd'' \<or> cmd = ''exit'' then
             and_then (registered_exit cfg al (execute (exec_fuel env) (stack_junk env) lc 0 cfg Return))
               (\<lambda>_ cfg'. k al cfg')
           else launch env (lst = ''&'') lc al cfg (k al))))))"

section \<open>Startup\<close>

text \<open>
  The loop while it reads files: mode 0 is the PROFILE, mode 1 the alias file, mode 2 the
  prompt. The variable \<open>line\<close> of the loop body hides the buffer allocated before the loop and
  is never assigned; \<open>line\<close> here is the block it happens to point to. The two files are given by
  the bytes that are left to read.
\<close>

record start_state =
  cmd_mode :: nat
  line_full :: nat
  line :: "char list option"
  prf_fd :: int
  prf_bytes :: string
  alias_bytes :: string

text \<open>One iteration in mode 0 or 1, and the line it hands to the parser, if any.\<close>

definition start_step :: "start_state \<Rightarrow> (start_state \<times> string option) res" where
  "start_step b =
     (if line b = None \<or> line_full b = 0 then
        (if cmd_mode b + 1 = 1 then
           bnd (get_non_empty_line (alias_bytes b) (line b)) (\<lambda>(n, l, rest).
             Inr (b\<lparr>cmd_mode := 1, line_full := n, line := l, alias_bytes := rest\<rparr>, None))
         else Inr (b\<lparr>cmd_mode := cmd_mode b + 1\<rparr>, None))
      else
        bnd (get_non_empty_line (if cmd_mode b = 0 then prf_bytes b else alias_bytes b) (line b)) (\<lambda>(n, l, rest).
          Inr (if cmd_mode b = 0 then b\<lparr>line_full := n, line := l, prf_bytes := rest\<rparr>
               else b\<lparr>line_full := n, line := l, alias_bytes := rest\<rparr>,
               if n = 0 then None else map_option cstr l)))"

text \<open>Every iteration consumes input, ends a file or changes the mode.\<close>

definition boot_measure :: "start_state \<Rightarrow> nat" where
  "boot_measure b = 2 * length (prf_bytes b) + 2 * length (alias_bytes b) + 3 * (2 - cmd_mode b)
     + (if line_full b = 0 then 0 else 1)"

lemma read_line_consumes:
  "read_line inp idx str = Inr (n, s, rest) \<Longrightarrow> idx \<le> n \<and> length rest + (n - idx) \<le> length inp"
proof (induction inp idx str rule: read_line.induct)
  case (2 c cs idx str)
  show ?case
  proof (cases "c = CHR 0x0A")
    case False
    with "2.prems" obtain s1 s2 where "wr str (int idx) c = Inr s1" "wr s1 (int idx + 1) NUL = Inr s2"
      "read_line cs (idx + 1) s2 = Inr (n, s, rest)" by (auto simp: guard_simps)
    from "2.IH" [OF False this] show ?thesis by auto
  qed (use "2.prems" in \<open>auto simp: guard_simps\<close>)
qed simp

lemma get_line_consumes:
  "get_non_empty_line inp l = Inr (n, l', rest) \<Longrightarrow> length rest + n \<le> length inp \<and> (l' = None \<longrightarrow> n = 0)"
  by (auto simp: get_non_empty_line_def guard_simps split: option.splits if_splits dest: read_line_consumes)

lemma start_step_decreases:
  assumes "start_step b = Inr (b', l)" and "cmd_mode b < 2"
  shows "boot_measure b' < boot_measure b"
proof (cases "line b = None \<or> line_full b = 0")
  case True
  show ?thesis
  proof (cases "cmd_mode b = 0")
    case m: True
    with assms(1) True obtain n l' rest where g: "get_non_empty_line (alias_bytes b) (line b) = Inr (n, l', rest)"
      "b' = b\<lparr>cmd_mode := 1, line_full := n, line := l', alias_bytes := rest\<rparr>"
      by (auto simp: start_step_def guard_simps)
    from get_line_consumes [OF g(1)] g(2) m show ?thesis by (auto simp: boot_measure_def)
  next
    case False
    with assms True show ?thesis by (auto simp: start_step_def boot_measure_def)
  qed
next
  case False
  with assms(1) obtain n l' rest where
    g: "get_non_empty_line (if cmd_mode b = 0 then prf_bytes b else alias_bytes b) (line b) = Inr (n, l', rest)"
    "b' = (if cmd_mode b = 0 then b\<lparr>line_full := n, line := l', prf_bytes := rest\<rparr>
               else b\<lparr>line_full := n, line := l', alias_bytes := rest\<rparr>)"
    by (auto simp: start_step_def guard_simps simp del: if_split)
  from get_line_consumes [OF g(1)] g(2) False show ?thesis by (auto simp: boot_measure_def split: if_splits)
qed

text \<open>A file is closed when the mode changes. \<open>k\<close> is the loop at the prompt.\<close>

function startup :: "shell_env \<Rightarrow> start_state \<Rightarrow> assoc_ar \<Rightarrow> config \<Rightarrow> (assoc_ar \<Rightarrow> config \<Rightarrow> io) \<Rightarrow> io" where
  "startup env b al cfg k =
     (if 2 \<le> cmd_mode b then do_sys (Chdir (home cfg)) (k al cfg)
      else case start_step b of
        Inl e \<Rightarrow> Crash e
      | Inr (b', None) \<Rightarrow>
          if cmd_mode b' = cmd_mode b then startup env b' al cfg k
          else do_sys (Close (if cmd_mode b = 0 then prf_fd b else alias_fd cfg)) (startup env b' al cfg k)
      | Inr (b', Some l) \<Rightarrow> run_line env l al cfg (\<lambda>al' cfg'. startup env b' al' cfg' k))"
  by pat_completeness auto
termination
  by (relation "measure (\<lambda>(env, b, al, cfg, k). boot_measure b)") (auto dest: start_step_decreases)

declare startup.simps [simp del]

section \<open>The prompt\<close>

lemma scan_loop_consumes:
  "scan_loop inp len cmd = Inr (n, b, rest) \<Longrightarrow> length rest \<le> length inp - 1"
proof (induction inp len cmd rule: scan_loop.induct)
  case (2 c cs len cmd)
  show ?case
  proof (cases "c = CHR 0x0A")
    case False
    with "2.prems" obtain b' where "wr cmd (int len) c = Inr b'" "scan_loop cs (len + 1) b' = Inr (n, b, rest)"
      by (auto simp: guard_simps)
    from "2.IH" [OF this(1) False this(2)] show ?thesis by simp
  qed (use "2.prems" in \<open>auto simp: guard_simps\<close>)
qed simp

lemma read_command_consumes:
  assumes "read_command junk inp = Inr (l, rest)"
  shows "length rest < length inp"
proof -
  from assms obtain len cmd where "scan_loop inp 0 junk = Inr (len, cmd, rest)" "inp \<noteq> []"
    by (cases inp) (auto simp: read_command_def bnd_eq_Inr wr_eq_Inr simp del: scan_loop.simps(2))
  with scan_loop_consumes [of inp 0 junk len cmd rest] show ?thesis by (cases inp) auto
qed

text \<open>
  The loop ends only by a fault or by exit: at the end of the input read_command writes in front
  of its block.
\<close>

function prompt_loop :: "shell_env \<Rightarrow> char list \<Rightarrow> string \<Rightarrow> assoc_ar \<Rightarrow> config \<Rightarrow> io" where
  "prompt_loop env junk inp al cfg =
     (case read_command junk inp of
        Inl e \<Rightarrow> Crash e
      | Inr (l, rest) \<Rightarrow>
          if is_empty l then prompt_loop env junk rest al cfg
          else run_line env l al cfg (\<lambda>al' cfg'. prompt_loop env junk rest al' cfg'))"
  by pat_completeness auto
termination
  by (relation "measure (\<lambda>(env, junk, inp, al, cfg). length inp)") (auto dest: read_command_consumes)

declare prompt_loop.simps [simp del]

text \<open>
  The loop of main, from the files it has opened: \<open>blk\<close> is what the hidden \<open>line\<close> points to,
  \<open>kj\<close> and \<open>vj\<close> the bytes in the blocks of the alias table.
\<close>

definition main_loop ::
    "shell_env \<Rightarrow> (nat \<Rightarrow> nat \<Rightarrow> char) \<Rightarrow> (nat \<Rightarrow> nat \<Rightarrow> char) \<Rightarrow> char list option \<Rightarrow> char list \<Rightarrow> config
      \<Rightarrow> int \<Rightarrow> string \<Rightarrow> string \<Rightarrow> string \<Rightarrow> io" where
  "main_loop env kj vj blk junk cfg fd profile aliases inp =
     startup env \<lparr>cmd_mode = 0, line_full = 1, line = blk, prf_fd = fd, prf_bytes = profile, alias_bytes = aliases\<rparr>
       (init kj vj) cfg (\<lambda>al cfg'. prompt_loop env junk inp al cfg')"

section \<open>What read_line delivers\<close>

text \<open>The lines of a file; the last one may end without a newline.\<close>

fun lines_of :: "string \<Rightarrow> string list" where
  "lines_of [] = []"
| "lines_of (c # cs) =
     (if c = CHR 0x0A then [] # lines_of cs
      else case lines_of cs of [] \<Rightarrow> [[c]] | l # ls \<Rightarrow> (c # l) # ls)"

lemma lines_of_line: "CHR 0x0A \<notin> set l \<Longrightarrow> lines_of (l @ CHR 0x0A # rest) = l # lines_of rest"
  by (induction l) auto

lemma lines_of_end: "CHR 0x0A \<notin> set l \<Longrightarrow> l \<noteq> [] \<Longrightarrow> lines_of l = [l]"
proof (induction l)
  case (Cons c l)
  then show ?case by (cases "l = []") auto
qed simp

lemma lines_of_Cons:
  "lines_of inp = l # ls \<Longrightarrow> CHR 0x0A \<notin> set l \<and>
     (\<exists>rest. lines_of rest = ls \<and> (inp = l @ CHR 0x0A # rest \<or> inp = l \<and> rest = [] \<and> l \<noteq> []))"
proof (induction inp arbitrary: l ls)
  case (Cons c cs)
  show ?case
  proof (cases "c = CHR 0x0A")
    case False
    show ?thesis
    proof (cases "lines_of cs")
      case Nil
      then have "cs = []" by (cases cs) (auto split: if_splits list.splits)
      with Cons.prems False show ?thesis by (auto intro!: exI [of _ "[]"])
    next
      case (Cons l' ls')
      from Cons.IH [OF this] Cons.prems False this show ?thesis by auto
    qed
  qed (use Cons.prems in auto)
qed simp

lemma lines_of_Nil: "lines_of inp = [] \<longleftrightarrow> inp = []"
  by (cases inp) (auto split: list.split)

lemma read_line_run:
  "CHR 0x0A \<notin> set l \<Longrightarrow> idx + length l < length str \<Longrightarrow> rest = [] \<or> hd rest = CHR 0x0A \<Longrightarrow>
     \<exists>s. read_line (l @ rest) idx str = Inr (idx + length l, s, tl rest) \<and> length s = length str \<and>
       (l @ rest \<noteq> [] \<longrightarrow> take (Suc (idx + length l)) s = take idx str @ l @ [NUL])"
proof (induction l arbitrary: idx str)
  case Nil
  then show ?case by (cases rest) (auto simp: take_Suc_conv_app_nth)
next
  case (Cons c l)
  let ?s2 = "(str[idx := c])[Suc idx := NUL]"
  have w: "c \<noteq> CHR 0x0A" "wr str (int idx) c = Inr (str[idx := c])" "wr (str[idx := c]) (int idx + 1) NUL = Inr ?s2"
    using Cons.prems by (auto simp: wr_def nat_add_distrib)
  have t: "take (Suc (Suc idx)) ?s2 = take idx str @ [c, NUL]" "take (Suc idx) ?s2 = take idx str @ [c]"
    using Cons.prems by (simp_all add: take_Suc_conv_app_nth)
  obtain s where s: "read_line (l @ rest) (Suc idx) ?s2 = Inr (Suc idx + length l, s, tl rest)"
    "length s = length ?s2"
    "l @ rest \<noteq> [] \<longrightarrow> take (Suc (Suc idx + length l)) s = take (Suc idx) ?s2 @ l @ [NUL]"
    using Cons.IH [of "Suc idx" ?s2] Cons.prems by auto
  show ?case
  proof (cases "l @ rest = []")
    case True
    with w t Cons.prems(1) show ?thesis by simp
  next
    case False
    with w t s Cons.prems(1) show ?thesis by simp
  qed
qed

text \<open>\<open>blk\<close> has room for every line and its NUL.\<close>

definition lines_fit :: "nat \<Rightarrow> string \<Rightarrow> bool" where
  "lines_fit n inp \<longleftrightarrow> 0 < n \<and> list_all (\<lambda>l. length l < n \<and> NUL \<notin> set l) (lines_of inp)"

lemma cstr_take: "take (Suc (length l)) s = l @ [NUL] \<Longrightarrow> NUL \<notin> set l \<Longrightarrow> cstr s = l"
  using append_take_drop_id [of "Suc (length l)" s] cstr_append_NUL [of l "drop (Suc (length l)) s"] by simp

lemma get_line:
  assumes "lines_of inp = l # ls" and "lines_fit (length blk) inp"
  shows "\<exists>blk' rest. get_non_empty_line inp (Some blk) = Inr (length l, Some blk', rest) \<and>
    length blk' = length blk \<and> cstr blk' = l \<and> lines_of rest = ls"
proof -
  from lines_of_Cons [OF assms(1)] obtain rest where l: "CHR 0x0A \<notin> set l" and r: "lines_of rest = ls"
    "inp = l @ CHR 0x0A # rest \<or> inp = l \<and> rest = [] \<and> l \<noteq> []" by blast
  have f: "length l < length blk" "NUL \<notin> set l" using assms by (auto simp: lines_fit_def)
  from r(2) obtain more where m: "inp = l @ more" "more = [] \<or> hd more = CHR 0x0A" "tl more = rest" "inp \<noteq> []"
    by force
  from read_line_run [of l 0 blk more] l f m obtain s where
    "read_line inp 0 blk = Inr (length l, s, rest)" "length s = length blk" "take (Suc (length l)) s = l @ [NUL]"
    by auto
  with cstr_take f(2) r(1) show ?thesis by (auto simp: get_non_empty_line_def)
qed

lemma lines_fit_rest: "lines_fit n inp \<Longrightarrow> lines_of inp = l # lines_of rest \<Longrightarrow> lines_fit n rest"
  by (auto simp: lines_fit_def)

section \<open>What startup runs\<close>

definition upto_blank :: "string \<Rightarrow> string list" where
  "upto_blank inp = takeWhile (\<lambda>l. l \<noteq> []) (lines_of inp)"

fun run_lines ::
    "shell_env \<Rightarrow> string list \<Rightarrow> assoc_ar \<Rightarrow> config \<Rightarrow> (assoc_ar \<Rightarrow> config \<Rightarrow> io) \<Rightarrow> io" where
  "run_lines env [] al cfg k = k al cfg"
| "run_lines env (l # ls) al cfg k = run_line env l al cfg (\<lambda>al' cfg'. run_lines env ls al' cfg' k)"

lemma run_lines_append:
  "run_lines env (xs @ ys) al cfg k = run_lines env xs al cfg (\<lambda>al' cfg'. run_lines env ys al' cfg' k)"
  by (induction xs arbitrary: al cfg) auto

abbreviation go_home :: "(assoc_ar \<Rightarrow> config \<Rightarrow> io) \<Rightarrow> assoc_ar \<Rightarrow> config \<Rightarrow> io" where
  "go_home k \<equiv> \<lambda>al cfg. do_sys (Close (alias_fd cfg)) (do_sys (Chdir (home cfg)) (k al cfg))"

lemma startup_done: "startup env \<lparr>cmd_mode = 2, line_full = n, line = b, prf_fd = f, prf_bytes = p, alias_bytes = a\<rparr> al cfg k =
    do_sys (Chdir (home cfg)) (k al cfg)"
  by (simp add: startup.simps)

lemma startup_leave:
  "startup env \<lparr>cmd_mode = Suc 0, line_full = 0, line = b, prf_fd = f, prf_bytes = p, alias_bytes = a\<rparr> al cfg k = go_home k al cfg"
  by (subst startup.simps) (simp add: start_step_def startup_done numeral_2_eq_2 [symmetric])

lemma startup_aliases:
  "lines_fit (length blk) a \<Longrightarrow> 0 < n \<Longrightarrow>
     startup env \<lparr>cmd_mode = 1, line_full = n, line = Some blk, prf_fd = f, prf_bytes = p, alias_bytes = a\<rparr> al cfg k =
     run_lines env (upto_blank a) al cfg (go_home k)"
proof (induction "lines_of a" arbitrary: a blk n al cfg)
  case Nil
  then have "a = []" by (metis lines_of_Nil)
  with Nil.prems show ?case
    by (subst startup.simps) (simp add: start_step_def get_non_empty_line_def upto_blank_def startup_leave)
next
  case (Cons l ls)
  from get_line [OF Cons.hyps(2) [symmetric] Cons.prems(1)] obtain blk' rest where
    g: "get_non_empty_line a (Some blk) = Inr (length l, Some blk', rest)" "length blk' = length blk"
      "cstr blk' = l" "lines_of rest = ls" by blast
  have f: "lines_fit (length blk') rest" using lines_fit_rest [OF Cons.prems(1)] Cons.hyps(2) g by metis
  have u: "upto_blank a = (if l = [] then [] else l # upto_blank rest)"
    using Cons.hyps(2) g(4) by (simp add: upto_blank_def flip: Cons.hyps(2))
  show ?case
  proof (cases "l = []")
    case True
    with g u Cons.prems(2) show ?thesis by (subst startup.simps) (simp add: start_step_def startup_leave)
  next
    case False
    with Cons.hyps(1) [OF g(4) [symmetric] f, of "length l"] g u Cons.prems(2) show ?thesis
      by (subst startup.simps) (simp add: start_step_def)
  qed
qed

text \<open>The line read when the mode changes is overwritten by the next one.\<close>

lemma startup_change:
  assumes "lines_fit (length blk) a"
  shows "startup env \<lparr>cmd_mode = 0, line_full = 0, line = Some blk, prf_fd = f, prf_bytes = p, alias_bytes = a\<rparr> al cfg k =
     do_sys (Close f) (run_lines env (tl (upto_blank a)) al cfg (go_home k))"
proof (cases "lines_of a")
  case Nil
  then have "a = []" by (simp add: lines_of_Nil)
  then show ?thesis
    by (subst startup.simps) (simp add: start_step_def get_non_empty_line_def upto_blank_def startup_leave)
next
  case (Cons l ls)
  from get_line [OF Cons assms] obtain blk' rest where
    g: "get_non_empty_line a (Some blk) = Inr (length l, Some blk', rest)" "length blk' = length blk"
      "lines_of rest = ls" by blast
  have f: "lines_fit (length blk') rest" using lines_fit_rest [OF assms] Cons g by metis
  have u: "tl (upto_blank a) = (if l = [] then [] else upto_blank rest)"
    using Cons g(3) by (simp add: upto_blank_def)
  show ?thesis
  proof (cases "l = []")
    case True
    with g u show ?thesis by (subst startup.simps) (simp add: start_step_def startup_leave)
  next
    case False
    with startup_aliases [OF f, of "length l"] g u show ?thesis
      by (subst startup.simps) (simp add: start_step_def)
  qed
qed

lemma startup_profile:
  "lines_fit (length blk) p \<Longrightarrow> lines_fit (length blk) a \<Longrightarrow> 0 < n \<Longrightarrow>
     startup env \<lparr>cmd_mode = 0, line_full = n, line = Some blk, prf_fd = f, prf_bytes = p, alias_bytes = a\<rparr> al cfg k =
     run_lines env (upto_blank p) al cfg (\<lambda>al cfg.
       do_sys (Close f) (run_lines env (tl (upto_blank a)) al cfg (go_home k)))"
proof (induction "lines_of p" arbitrary: p blk n al cfg)
  case Nil
  then have "p = []" by (metis lines_of_Nil)
  with Nil.prems show ?case
    by (subst startup.simps) (simp add: start_step_def get_non_empty_line_def startup_change upto_blank_def)
next
  case (Cons l ls)
  from get_line [OF Cons.hyps(2) [symmetric] Cons.prems(1)] obtain blk' rest where
    g: "get_non_empty_line p (Some blk) = Inr (length l, Some blk', rest)" "length blk' = length blk"
      "cstr blk' = l" "lines_of rest = ls" by blast
  have f: "lines_fit (length blk') rest" "lines_fit (length blk') a"
    using lines_fit_rest [OF Cons.prems(1)] Cons.hyps(2) Cons.prems(2) g by metis+
  have u: "upto_blank p = (if l = [] then [] else l # upto_blank rest)"
    using g(4) by (simp add: upto_blank_def flip: Cons.hyps(2))
  show ?case
  proof (cases "l = []")
    case True
    with g u f Cons.prems(3) show ?thesis by (subst startup.simps) (simp add: start_step_def startup_change)
  next
    case False
    with Cons.hyps(1) [OF g(4) [symmetric] f, of "length l"] g u Cons.prems(3) show ?thesis
      by (subst startup.simps) (simp add: start_step_def)
  qed
qed

section \<open>What the prompt runs\<close>

lemma scan_loop_run:
  "CHR 0x0A \<notin> set l \<Longrightarrow> len + length l \<le> length cmd \<Longrightarrow>
     \<exists>b. scan_loop (l @ rest) len cmd = scan_loop rest (len + length l) b \<and> length b = length cmd \<and>
       take (len + length l) b = take len cmd @ l"
proof (induction l arbitrary: len cmd)
  case (Cons c l)
  have "c \<noteq> CHR 0x0A" "wr cmd (int len) c = Inr (cmd[len := c])" "take (Suc len) (cmd[len := c]) = take len cmd @ [c]"
    using Cons.prems by (auto simp: wr_def take_Suc_conv_app_nth)
  with Cons.IH [of "Suc len" "cmd[len := c]"] Cons.prems show ?case by auto
qed auto

lemma scan_loop_full:
  "CHR 0x0A \<notin> set l \<Longrightarrow> len \<le> length cmd \<Longrightarrow> length cmd < len + length l \<Longrightarrow>
     scan_loop (l @ rest) len cmd = Inl OutOfBounds"
proof (induction l arbitrary: len cmd)
  case (Cons c l)
  then show ?case by (cases "len = length cmd") (auto simp: wr_def)
qed simp

lemma scan_line:
  assumes "CHR 0x0A \<notin> set l" and "length junk = 256"
  shows "read_command junk (l @ CHR 0x0A # rest) = (if length l < 256 then Inr (cstr (l @ [NUL]), rest) else Inl OutOfBounds)"
proof (cases "length l < 256")
  case True
  from scan_loop_run [of l 0 junk "CHR 0x0A # rest"] assms True obtain b where
    b: "scan_loop (l @ CHR 0x0A # rest) 0 junk = scan_loop (CHR 0x0A # rest) (length l) b" "length b = 256"
      "take (length l) b = l" by auto
  have "take (Suc (length l)) (b[length l := NUL]) = l @ [NUL]"
    using b True by (simp add: take_Suc_conv_app_nth)
  then have "b[length l := NUL] = (l @ [NUL]) @ drop (Suc (length l)) (b[length l := NUL])"
    by (metis append_take_drop_id)
  then have "cstr (b[length l := NUL]) = cstr (l @ [NUL])"
    by (metis append.assoc append_Cons append_Nil cstr_append_any)
  with b True show ?thesis by (simp add: read_command_def wr_def)
next
  case False
  have "scan_loop (l @ CHR 0x0A # rest) 0 junk = Inl OutOfBounds"
  proof (cases "length l = 256")
    case True
    then show ?thesis using scan_loop_run [of l 0 junk "CHR 0x0A # rest"] assms by (auto simp: wr_def)
  qed (use scan_loop_full [of l 0 junk] assms False in simp)
  with False show ?thesis by (simp add: read_command_def)
qed

lemma scan_end:
  assumes "CHR 0x0A \<notin> set l" and "length junk = 256"
  shows "read_command junk l =
    (if l = [] \<or> 256 < length l then Inl OutOfBounds else Inr (cstr (butlast l @ [NUL]), []))"
proof -
  consider "l = []" | "256 < length l" | "l \<noteq> []" "length l \<le> 256" by fastforce
  then show ?thesis
  proof cases
    case 3
    from scan_loop_run [of l 0 junk "[]"] assms 3 obtain b where
      b: "scan_loop l 0 junk = Inr (length l, b, [])" "length b = 256" "take (length l) b = l" by auto
    let ?i = "length l - 1"
    have i: "Suc ?i = length l" "?i < length b" using 3 b(2) by (cases l; simp)+
    have "take ?i b = butlast l" using b(3) by (metis butlast_conv_take min.absorb1 diff_le_self take_take)
    then have "take (Suc ?i) (b[?i := NUL]) = butlast l @ [NUL]"
      using take_Suc_conv_app_nth [of ?i "b[?i := NUL]"] i by simp
    then have "b[?i := NUL] = (butlast l @ [NUL]) @ drop (Suc ?i) (b[?i := NUL])"
      by (metis append_take_drop_id)
    then have "cstr (b[?i := NUL]) = cstr (butlast l @ [NUL])"
      by (metis append.assoc append_Cons append_Nil cstr_append_any)
    moreover have "nat (int (length l) - 1) = ?i" by simp
    ultimately show ?thesis using b 3 i by (simp add: read_command_def wr_def)
  qed (use scan_loop_full [of l 0 junk "[]"] assms in \<open>auto simp: read_command_def wr_def\<close>)
qed

definition typed :: "string list \<Rightarrow> string" where
  "typed ls = concat (map (\<lambda>l. l @ [CHR 0x0A]) ls)"

definition typeable :: "string \<Rightarrow> bool" where
  "typeable l \<longleftrightarrow> CHR 0x0A \<notin> set l \<and> NUL \<notin> set l \<and> length l < 256"

lemma prompt_runs:
  "length junk = 256 \<Longrightarrow> list_all typeable ls \<Longrightarrow>
     prompt_loop env junk (typed ls) al cfg =
     run_lines env (filter (\<lambda>l. \<not> is_empty l) ls) al cfg (\<lambda>_ _. Crash OutOfBounds)"
proof (induction ls arbitrary: al cfg)
  case Nil
  then show ?case using scan_end [of "[]" junk] by (subst prompt_loop.simps) (simp add: typed_def)
next
  case (Cons l ls)
  have "typed (l # ls) = l @ CHR 0x0A # typed ls" by (simp add: typed_def)
  moreover have "prompt_loop env junk (typed ls) = (\<lambda>al cfg.
      run_lines env (filter (\<lambda>l. \<not> is_empty l) ls) al cfg (\<lambda>_ _. Crash OutOfBounds))"
    using Cons by (intro ext) simp
  ultimately show ?case using scan_line [of l junk "typed ls"] Cons.prems
    by (subst prompt_loop.simps) (simp add: typeable_def)
qed

section \<open>Aliases at startup\<close>

lemma run_alias_line:
  assumes "alias_word k" and "alias_word v" and "\<not> blank (last v)" and "length k + length v < 249"
    and "get al ''alias'' = Inr None"
  shows "run_line env (''alias '' @ k @ ''='' @ v) al cfg h = crash_or (add al k v) (\<lambda>al'. h al' cfg)"
proof -
  let ?lc = "cmd_list [''alias'', k, v]"
  have lc: "?lc = [Some ''alias'', Some k, Some v] @ replicate 15 None"
    by (simp add: cmd_list_def numeral_eq_Suc)
  have e: "entries ?lc = Inr 3" by (simp add: lc numeral_eq_Suc)
  have f: "first_word ''alias'' = ''alias''" by code_simp
  have x: "expand_alias al (usr_bin_len env) ''alias'' = Inr ''alias''"
    using assms(5) by (simp add: expand_alias_def f)
  have u: "?lc[0 := Some ''alias''] = ?lc" by (simp add: lc)
  have r: "rd ?lc 0 = Inr (Some ''alias'')" "rd ?lc 1 = Inr (Some k)" "rd ?lc 2 = Inr (Some v)"
    by (simp_all add: lc rd_def nth_append)
  have c: "check_command (path_exists env) ?lc 0 ''alias'' = Inr (Inl VALID_COMMAND)"
    using r by (simp add: check_command_def f cmd_exists_def builtins_def)
  have "validateCommand (path_exists env) al (usr_bin_len env) ?lc 3 = Inr (VALID_COMMAND, ?lc)"
    using r x u c by (simp add: validateCommand_def validate_loop.simps [of _ _ _ _ 3] f)
  with alias_line_tokens [OF assms(1-4)] e r show ?thesis
    by (simp add: run_line_def crash_or_def entry_at_def rd_def lc)
qed

text \<open>An entry of the alias file that main can read back.\<close>

fun saved :: "string \<times> string \<Rightarrow> string" where
  "saved (k, v) = ''alias '' @ k @ ''='' @ v"

fun saved_ok :: "string \<times> string \<Rightarrow> bool" where
  "saved_ok (k, v) \<longleftrightarrow> alias_word k \<and> alias_word v \<and> \<not> blank (last v) \<and> length k + length v < 249 \<and>
     CHR 0x0A \<notin> set k \<and> CHR 0x0A \<notin> set v \<and> k \<noteq> ''alias''"

lemma saved_ok_fits: "saved_ok (k, v) \<Longrightarrow> fits256 k \<and> fits256 v"
  by (auto simp: fits256_def alias_word_def list_all_iff)

lemma saved_ok_line: "saved_ok e \<Longrightarrow> CHR 0x0A \<notin> set (saved e) \<and> NUL \<notin> set (saved e) \<and> length (saved e) < 256"
  by (cases e) (auto simp: alias_word_def list_all_iff)

lemma lines_of_typed: "\<forall>l\<in>set ls. CHR 0x0A \<notin> set l \<Longrightarrow> lines_of (typed ls) = ls"
  by (induction ls) (auto simp: typed_def lines_of_line)

lemma upto_blank_typed: "\<forall>l\<in>set ls. CHR 0x0A \<notin> set l \<and> l \<noteq> [] \<Longrightarrow> upto_blank (typed ls) = ls"
  by (simp add: upto_blank_def lines_of_typed)

text \<open>bye writes one such entry for each used entry of the main part of the table.\<close>

definition main_entries :: "assoc_ar \<Rightarrow> (string \<times> string) list" where
  "main_entries al = map (\<lambda>i. (K al i, V al i)) (filter (used al) [0..<256])"

lemma bye_file:
  assumes "ar_ok al"
  shows "write_alias al = Inr (map (\<lambda>e. saved e @ [CHR 0x0A]) (main_entries al))"
  using write_alias_loop_spec [OF assms, of "[0..<256]"]
  by (simp add: write_alias_def main_entries_def atLeast0LessThan comp_def del: upt_rec_numeral)

text \<open>Saving the table, and going on with k.\<close>

definition save :: "config \<Rightarrow> assoc_ar \<Rightarrow> io \<Rightarrow> io" where
  "save cfg al k =
     do_sys (Lseek (alias_fd cfg) 0) (Sys (Open (alias_file cfg) [O_TRUNC, O_RDWR]) (\<lambda>fd.
       foldr (\<lambda>e. do_sys (Write fd (saved e @ [CHR 0x0A]))) (main_entries al) (do_sys (Close fd) k)))"

lemma bye_saves: "ar_ok al \<Longrightarrow> bye cfg al k = Sys Getpid (\<lambda>pid. if pid = my_pid cfg then save cfg al k else k)"
  by (simp add: bye_def bye_file save_def crash_or_def foldr_map comp_def cong: if_cong)

lemma run_exit:
  assumes "get al ''exit'' = Inr None" and "exec_fuel env = Suc n"
    and "\<not> path_exists env ''/bin/exit''" and "\<not> path_exists env ''/usr/bin/exit''"
  shows "run_line env ''exit'' al cfg k = registered_exit cfg al (do_sys (Exit 0) (Crash Panic))"
proof -
  let ?lc = "cmd_list [''exit'']"
  have lc: "?lc = Some ''exit'' # replicate 17 None"
    by (simp add: cmd_list_def numeral_eq_Suc)
  have e: "entries ?lc = Inr 1" by (simp add: lc numeral_eq_Suc)
  have f: "first_word ''exit'' = ''exit''" by code_simp
  have x: "expand_alias al (usr_bin_len env) ''exit'' = Inr ''exit''"
    using assms(1) by (simp add: expand_alias_def f)
  have r: "rd ?lc 0 = Inr (Some ''exit'')" by (simp add: lc)
  have c: "check_command (path_exists env) ?lc 0 ''exit'' = Inr (Inr (''exit'', True))"
    using assms(3,4) by (simp add: check_command_def Let_def f cmd_exists_def builtins_def)
  have u: "?lc[0 := Some ''exit''] = ?lc" by (simp add: lc)
  have v: "validateCommand (path_exists env) al (usr_bin_len env) ?lc 1 = Inr (VALID_COMMAND, ?lc)"
    using r x u c
    by (simp add: validateCommand_def validate_loop.simps [of _ _ _ _ "Suc 0"] f Let_def)
  have p: "parseCmd ''exit'' = Inr [''exit'']" by code_simp
  have s: "split (count_spaces ''exit'' + 3) ''exit'' = Inr [''exit'']" by code_simp
  have x: "execute (exec_fuel env) j ?lc 0 cfg Return = do_sys (Exit 0) (Crash Panic)" for j
    using e r s by (simp add: assms(2) crash_or_def Let_def execute_single_def argument_def)
  have t: "and_then (registered_exit cfg al (do_sys (Exit 0) (Crash Panic))) h = registered_exit cfg al (do_sys (Exit 0) (Crash Panic))"
    if "\<And>k. and_then (bye cfg al k) h = bye cfg al (and_then k h)" for h
    using that by (simp add: registered_exit_def)
  have "and_then (crash_or (Inr ls) (\<lambda>ls. foldr (\<lambda>l. do_sys (Write fd l)) ls (do_sys (Close fd) k))) h =
      crash_or (Inr ls) (\<lambda>ls. foldr (\<lambda>l. do_sys (Write fd l)) ls (do_sys (Close fd) (and_then k h)))" for ls fd k h
    by (induction ls) (simp_all add: crash_or_def)
  then have "and_then (bye cfg al k) h = bye cfg al (and_then k h)" for k h
    by (cases "write_alias al") (simp_all add: bye_def fun_eq_iff crash_or_def)
  with t e v x p r show ?thesis by (simp add: run_line_def crash_or_def entry_at_def)
qed

lemma alias_lines_run:
  "holds_keys D al \<Longrightarrow> finite D \<Longrightarrow> alias_room (D \<union> fst ` set kvs) \<Longrightarrow> list_all saved_ok kvs \<Longrightarrow>
     get al ''alias'' = Inr None \<Longrightarrow>
     \<exists>al'. updates (\<lambda>k v ar. add ar k v) kvs al = Inr al' \<and> run_lines env (map saved kvs) al cfg h = h al' cfg"
proof (induction kvs arbitrary: D al)
  case (Cons e kvs)
  obtain k v where e: "e = (k, v)" by (cases e)
  with Cons.prems(4) have ok: "saved_ok (k, v)" "list_all saved_ok kvs" by simp_all
  have r: "alias_room (insert k D)"
    by (rule alias_room_mono [OF _ Cons.prems(3)]) (use Cons.prems(2) e in auto)
  from add_law [OF Cons.prems(1,2) _ _ r] saved_ok_fits [OF ok(1)] obtain al1 where
    a: "add al k v = Inr al1" "holds_keys (insert k D) al1"
      "\<forall>k'. fits256 k' \<longrightarrow> get al1 k' = (if k' = k then Inr (Some v) else get al k')" by blast
  have g: "get al1 ''alias'' = Inr None"
    using a(3) Cons.prems(5) ok(1) by (auto simp: fits256_def)
  have "alias_room (insert k D \<union> fst ` set kvs)" using Cons.prems(3) e by simp
  from Cons.IH [OF a(2) _ this ok(2) g] Cons.prems(2) obtain al' where
    al': "updates (\<lambda>k v ar. add ar k v) kvs al1 = Inr al'" "run_lines env (map saved kvs) al1 cfg h = h al' cfg"
    by auto
  have "run_line env (saved (k, v)) al cfg f = crash_or (add al k v) (\<lambda>al'. f al' cfg)" for f
    using run_alias_line [of k v al env cfg f] ok(1) Cons.prems(5) by simp
  with al' a(1) show ?case by (simp add: e crash_or_def)
qed simp

section \<open>Properties\<close>

text \<open>
  C22. What a session runs: the lines of the PROFILE up to its first blank line, the lines of
  the alias file up to its first blank line but without the first one, which is read and
  overwritten when the mode changes, and then every command typed that has a visible character;
  the end of the input is a write in front of a block.
\<close>

theorem shell_session:
  assumes "lines_fit (length blk) profile" and "lines_fit (length blk) aliases"
    and "length junk = 256" and "list_all typeable ls"
  shows "main_loop env kj vj (Some blk) junk cfg fd profile aliases (typed ls) =
    run_lines env (upto_blank profile) (init kj vj) cfg (\<lambda>al1 cfg1. do_sys (Close fd)
      (run_lines env (tl (upto_blank aliases)) al1 cfg1 (\<lambda>al2 cfg2.
        do_sys (Close (alias_fd cfg2)) (do_sys (Chdir (home cfg2))
          (run_lines env (filter (\<lambda>l. \<not> is_empty l) ls) al2 cfg2 (\<lambda>_ _. Crash OutOfBounds))))))"
  unfolding main_loop_def
  using startup_profile [OF assms(1,2), of 1] prompt_runs [OF assms(3,4)] by simp

definition demo_shell :: shell_env where
  "demo_shell = \<lparr>path_exists = (\<lambda>p. p = ''/bin/ls''), usr_bin_len = 0, stack_junk = 0, exec_fuel = 1\<rparr>"

theorem shell_session_witness:
  "main_loop demo_shell (\<lambda>_ _. NUL) (\<lambda>_ _. NUL) (Some (replicate 256 NUL)) (replicate 256 NUL) demo_config 3
     (typed [''ls'', [], ''pwd'']) (typed [''alias a=b'', ''alias c=d'']) (typed ['' '', ''exit'']) =
   run_lines demo_shell [''ls''] (init (\<lambda>_ _. NUL) (\<lambda>_ _. NUL)) demo_config (\<lambda>al1 cfg1. do_sys (Close 3)
     (run_lines demo_shell [''alias c=d''] al1 cfg1 (\<lambda>al2 cfg2.
       do_sys (Close (alias_fd cfg2)) (do_sys (Chdir (home cfg2))
         (run_lines demo_shell [''exit''] al2 cfg2 (\<lambda>_ _. Crash OutOfBounds))))))"
proof -
  have u: "upto_blank (typed [''ls'', [], ''pwd'']) = [''ls'']"
    "tl (upto_blank (typed [''alias a=b'', ''alias c=d''])) = [''alias c=d'']" by code_simp+
  have f: "filter (\<lambda>l. \<not> is_empty l) ['' '', ''exit''] = [''exit'']" by code_simp
  have "lines_fit (length (replicate 256 NUL)) (typed [''ls'', [], ''pwd''])"
    "lines_fit (length (replicate 256 NUL)) (typed [''alias a=b'', ''alias c=d''])"
    "list_all typeable ['' '', ''exit'']" by code_simp+
  from shell_session [OF this(1,2) _ this(3), of "replicate 256 NUL" demo_shell "\<lambda>_ _. NUL" "\<lambda>_ _. NUL" demo_config 3]
  show ?thesis by (simp only: u f) simp
qed

text \<open>
  C23. A command typed at the prompt is read as it was typed when it has at most 255 characters;
  a longer one is written behind its block of 256. At the end of the input the last character of
  an unfinished command is lost, and with nothing typed the NUL goes in front of the block.
\<close>

theorem read_command_bounds:
  assumes "length junk = 256" and "CHR 0x0A \<notin> set l" and "NUL \<notin> set l"
  shows "read_command junk (l @ CHR 0x0A # rest) = (if length l < 256 then Inr (l, rest) else Inl OutOfBounds) \<and>
    read_command junk l = (if l = [] \<or> 256 < length l then Inl OutOfBounds else Inr (butlast l, []))"
proof -
  have "NUL \<notin> set (butlast l)" using assms(3) by (auto dest: in_set_butlastD)
  with scan_line [OF assms(2,1), of rest] scan_end [OF assms(2,1)] assms(3) show ?thesis
    by (simp add: cstr_append_NUL [of "[]" "[]", simplified])
qed

theorem read_command_bounds_witness:
  "read_command (replicate 256 NUL) (''ls -l'' @ CHR 0x0A # ''pwd'') = Inr (''ls -l'', ''pwd'') \<and>
   read_command (replicate 256 NUL) ''ls -l'' = Inr (''ls -'', [])"
  using read_command_bounds [of "replicate 256 NUL" "''ls -l''" "''pwd''"] by simp

text \<open>
  C24. The alias file over a restart: when it holds one entry per alias as write_alias prints
  them, a start without PROFILE leaves the shell at the prompt with exactly the aliases of the
  entries behind the first one. The first alias of the file is lost at each start.
\<close>

theorem restart_loses_first_alias:
  assumes "list_all saved_ok kvs" and "distinct (map fst kvs)" and "256 \<le> length blk"
    and "card (fst ` set (tl kvs)) \<le> card (get_hash ` fst ` set (tl kvs)) + 8"
  shows "\<exists>al. main_loop env kj vj (Some blk) junk cfg fd [] (typed (map saved kvs)) inp =
      do_sys (Close fd) (do_sys (Close (alias_fd cfg)) (do_sys (Chdir (home cfg)) (prompt_loop env junk inp al cfg))) \<and>
    (\<forall>k. fits256 k \<longrightarrow> get al k = Inr (map_of (tl kvs) k))"
proof -
  have t: "list_all saved_ok (tl kvs)" "distinct (map fst (tl kvs))" using assms(1,2) by (cases kvs; simp)+
  have fit: "\<forall>(k, v)\<in>set (tl kvs). fits256 k \<and> fits256 v"
    using t(1) saved_ok_fits unfolding list_all_iff by blast
  have ls: "\<forall>l\<in>set (map saved kvs). CHR 0x0A \<notin> set l \<and> l \<noteq> []"
    and sz: "list_all (\<lambda>l. length l < length blk \<and> NUL \<notin> set l) (map saved kvs)"
    using assms(1,3) saved_ok_line by (fastforce simp: list_all_iff)+
  have l: "lines_fit (length blk) (typed (map saved kvs))"
    using sz ls assms(3) by (auto simp: lines_fit_def lines_of_typed)
  have e: "lines_fit (length blk) []" using assms(3) by (auto simp: lines_fit_def)
  have "get (init kj vj) ''alias'' = Inr None" by (rule tbl.look_empty) (simp add: fits256_def)
  with alias_lines_run [OF tbl.ok_empty _ _ t(1), of kj vj env cfg "go_home (prompt_loop env junk inp)"] assms(4)
  obtain al where al: "updates (\<lambda>k v ar. add ar k v) (tl kvs) (init kj vj) = Inr al"
    "run_lines env (map saved (tl kvs)) (init kj vj) cfg (go_home (prompt_loop env junk inp)) =
       go_home (prompt_loop env junk inp) al cfg" by (auto simp: alias_room_def)
  from tbl.last_update_wins [of "tl kvs" kj vj] assms(4) fit al(1)
  have "\<forall>k. fits256 k \<longrightarrow> get al k = Inr (map_of (rev (tl kvs)) k)" by (auto simp: alias_room_def)
  moreover have "map_of (rev (tl kvs)) = map_of (tl kvs)" 
    using t(2) map_of_inject_set [of "rev (tl kvs)" "tl kvs"] by (simp add: rev_map [symmetric])
  moreover have "main_loop env kj vj (Some blk) junk cfg fd [] (typed (map saved kvs)) inp =
      do_sys (Close fd) (go_home (prompt_loop env junk inp) al cfg)"
    unfolding main_loop_def using startup_profile [OF e l, of 1 env fd "init kj vj" cfg "prompt_loop env junk inp"]
    by (simp add: upto_blank_typed [OF ls] al(2) upto_blank_def [of "[]"] map_tl [symmetric])
  ultimately show ?thesis by auto
qed

theorem restart_loses_first_alias_witness:
  "\<exists>al. main_loop demo_shell (\<lambda>_ _. NUL) (\<lambda>_ _. NUL) (Some (replicate 256 NUL)) (replicate 256 NUL) demo_config 3 []
       (typed [''alias ll=ls -l'', ''alias q=exit'']) [] =
     do_sys (Close 3) (do_sys (Close 4) (do_sys (Chdir ''/root/'')
       (prompt_loop demo_shell (replicate 256 NUL) [] al demo_config))) \<and>
   get al ''ll'' = Inr None \<and> get al ''q'' = Inr (Some ''exit'')"
proof -
  let ?kvs = "[(''ll'', ''ls -l''), (''q'', ''exit'')]"
  have o: "list_all saved_ok ?kvs" by code_simp
  from restart_loses_first_alias [OF o, of "replicate 256 NUL" demo_shell "\<lambda>_ _. NUL" "\<lambda>_ _. NUL" "replicate 256 NUL" demo_config 3 "[]"]
  obtain al where "main_loop demo_shell (\<lambda>_ _. NUL) (\<lambda>_ _. NUL) (Some (replicate 256 NUL)) (replicate 256 NUL) demo_config 3 []
       (typed (map saved ?kvs)) [] =
     do_sys (Close 3) (do_sys (Close (alias_fd demo_config)) (do_sys (Chdir (home demo_config))
       (prompt_loop demo_shell (replicate 256 NUL) [] al demo_config)))"
    "\<forall>k. fits256 k \<longrightarrow> get al k = Inr (map_of (tl ?kvs) k)" by auto
  then show ?thesis by (intro exI [of _ al]) (simp add: demo_config_def fits256_def)
qed



end
