(* ===== verification/ShStart.thy ===== *)
theory ShStart
  imports ShMain
begin

text \<open>
  The start of the shell (prj_1/mrpsh.c): the names of the PROFILE and the alias file, which
  come from the variable USER, opening them, and main up to its loop, which is in ShMain.
\<close>

section \<open>The files of a user\<close>

text \<open>strcat: the characters go behind those of the first string.\<close>

definition strcat :: "char list \<Rightarrow> string \<Rightarrow> char list res" where
  "strcat dst src =
     (if NUL \<notin> set dst then Inl OutOfBounds
      else let s = cstr dst @ src
           in if length s < length dst then Inr (s @ NUL # drop (Suc (length s)) dst) else Inl BufferOverflow)"

text \<open>
  The names that main builds in three blocks of 256 (pf, pp and alf, as malloc returns them):
  the PROFILE, the directory and the alias file. \<open>username\<close> is the variable USER, if it is set.
\<close>

definition file_names ::
    "char list \<Rightarrow> char list \<Rightarrow> char list \<Rightarrow> string option \<Rightarrow> (string \<times> string \<times> string) res" where
  "file_names pf pp alf username =
     bnd (deref username) (\<lambda>u.
     bnd (if u = ''root'' then
            bnd (strcpy pf (''/root/PROFILE'' @ [NUL])) (\<lambda>f.
            bnd (strcpy pp (''/root/'' @ [NUL])) (\<lambda>d. Inr (f, d)))
          else
            bnd (strcpy pf (''/home/'' @ [NUL])) (\<lambda>f1. bnd (strcat f1 u) (\<lambda>f2.
            bnd (strcpy pp f2) (\<lambda>d1. bnd (strcat d1 ''/'') (\<lambda>d2.
            bnd (strcat f2 ''/PROFILE'') (\<lambda>f3. Inr (f3, d2))))))) (\<lambda>(f, d).
     bnd (strcpy alf d) (\<lambda>a1. bnd (strcat a1 ''alias'') (\<lambda>a2. Inr (cstr f, cstr d, cstr a2)))))"

text \<open>
  Opening the PROFILE. When it does not exist the shell asks whether to create it: scanf takes
  one character of the input, and at its end leaves \<open>ch\<close> unset. A file that is created is
  opened without O_RDWR, so for reading. \<open>enoent\<close> is errno = ENOENT.
\<close>

definition open_profile :: "bool \<Rightarrow> string \<Rightarrow> string \<Rightarrow> (int \<Rightarrow> string \<Rightarrow> io) \<Rightarrow> io" where
  "open_profile enoent profile_file inp k =
     (let opened = (\<lambda>fd inp'. if fd = -1 then do_sys (Perror ''error'') (k (-1) inp') else k fd inp')
      in Sys (Open profile_file [O_RDONLY]) (\<lambda>fd.
           if fd = -1 \<and> enoent then
             (case inp of
                [] \<Rightarrow> Crash Uninitialised
              | ch # rest \<Rightarrow>
                  if ch \<noteq> CHR ''n'' \<and> ch \<noteq> CHR ''N''
                  then Sys (Open profile_file [O_CREAT]) (\<lambda>fd2. opened fd2 rest)
                  else opened fd rest)
           else opened fd inp))"

text \<open>
  main. \<open>contents\<close> gives the bytes that read delivers from a descriptor; from -1 there are none.
\<close>

definition main ::
    "shell_env \<Rightarrow> (nat \<Rightarrow> nat \<Rightarrow> char) \<Rightarrow> (nat \<Rightarrow> nat \<Rightarrow> char) \<Rightarrow> char list option \<Rightarrow> (nat \<Rightarrow> char list) \<Rightarrow>
      bool \<Rightarrow> (int \<Rightarrow> string) \<Rightarrow> string option \<Rightarrow> string \<Rightarrow> io" where
  "main env kj vj blk junk enoent contents username inp =
     Sys Getpid (\<lambda>pid.
     crash_or (file_names (junk 0) (junk 1) (junk 2) username) (\<lambda>(profile_file, profile_path, al_file).
     open_profile enoent profile_file inp (\<lambda>prf inp'.
     Sys (Open al_file [O_CREAT, O_RDWR]) (\<lambda>afd.
       let bytes = (\<lambda>fd. if fd = -1 then [] else contents fd);
           cfg = \<lparr>home = profile_path, PROMPT = ''MRP:>'', my_pid = pid, alias_file = al_file,
                  alias_fd = afd, exit_reg_once = False\<rparr>;
           go = main_loop env kj vj blk (junk 3) cfg prf (bytes prf) (bytes afd) inp'
       in if afd = -1 then do_sys (Perror ''error:'') go else go))))"

section \<open>Properties\<close>

lemma strcat_run:
  "NUL \<notin> set s \<Longrightarrow> NUL \<notin> set t \<Longrightarrow> length (s @ t) < length (s @ NUL # xs) \<Longrightarrow>
     \<exists>ys. strcat (s @ NUL # xs) t = Inr ((s @ t) @ NUL # ys) \<and> length ((s @ t) @ NUL # ys) = length (s @ NUL # xs)"
  by (simp add: strcat_def)

lemma strcat_full:
  "NUL \<notin> set s \<Longrightarrow> length (s @ NUL # xs) \<le> length (s @ t) \<Longrightarrow> strcat (s @ NUL # xs) t = Inl BufferOverflow"
  by (simp add: strcat_def)

lemma strcpy_run:
  "NUL \<notin> set s \<Longrightarrow> length s < length d \<Longrightarrow>
     \<exists>ys. strcpy d (s @ NUL # xs) = Inr (s @ NUL # ys) \<and> length (s @ NUL # ys) = length d"
  by (simp add: strcpy_def)

text \<open>
  The names of the files of a user: for root they are in /root, for every other user in the
  home directory, and the blocks of 256 hold them for names of up to 241 characters; a longer
  name is written behind a block. Without the variable USER the shell faults at startup.
\<close>

lemma user_files_named:
  assumes "length pf = 256" and "length pp = 256" and "length alf = 256" and "NUL \<notin> set u"
  shows "file_names pf pp alf None = Inl NullDeref \<and>
    file_names pf pp alf (Some u) =
      (let dir = (if u = ''root'' then ''/root'' else ''/home/'' @ u)
       in if u = ''root'' \<or> length u < 242 then Inr (dir @ ''/PROFILE'', dir @ ''/'', dir @ ''/alias'')
          else Inl BufferOverflow)"
proof (cases "u = ''root''")
  case True
  from strcpy_run [of "''/root/PROFILE''" pf "[]"] strcpy_run [of "''/root/''" pp "[]"] assms obtain x y where
    a: "strcpy pf (''/root/PROFILE'' @ [NUL]) = Inr (''/root/PROFILE'' @ NUL # x)"
      "strcpy pp (''/root/'' @ [NUL]) = Inr (''/root/'' @ NUL # y)" by auto
  from strcpy_run [of "''/root/''" alf y] assms obtain z where
    b: "strcpy alf (''/root/'' @ NUL # y) = Inr (''/root/'' @ NUL # z)" "length (''/root/'' @ NUL # z) = 256" by auto
  from strcat_run [of "''/root/''" "''alias''" z] b obtain w where
    c: "strcat (''/root/'' @ NUL # z) ''alias'' = Inr (''/root/alias'' @ NUL # w)" by auto
  have n: "cstr (s @ NUL # t) = s" if "NUL \<notin> set s" for s t using that by simp
  show ?thesis using True a b(1) c n [of "''/root/PROFILE''"] n [of "''/root/''"] n [of "''/root/alias''"]
    by (simp add: file_names_def Let_def del: append_Cons)
next
  case False
  from strcpy_run [of "''/home/''" pf "[]"] assms obtain x where
    a: "strcpy pf (''/home/'' @ [NUL]) = Inr (''/home/'' @ NUL # x)" "length x = 249" by auto
  show ?thesis
  proof (cases "length u < 250")
    case True
    let ?d = "''/home/'' @ u"
    from strcat_run [of "''/home/''" u x] a True assms(4) obtain y where
      b: "strcat (''/home/'' @ NUL # x) u = Inr (?d @ NUL # y)" "length (?d @ NUL # y) = 256" by auto
    have nd: "NUL \<notin> set ?d" using assms(4) by simp
    from strcpy_run [OF nd, of pp y] b(2) assms(2) obtain z where
      c: "strcpy pp (?d @ NUL # y) = Inr (?d @ NUL # z)" "length (?d @ NUL # z) = 256" by auto
    show ?thesis
    proof (cases "length u < 242")
      case fits: True
      have zl: "length (?d @ ''/'') < length (?d @ NUL # z)" using c(2) fits by simp
      from strcat_run [OF nd _ zl] obtain z1 where
        d: "strcat (?d @ NUL # z) ''/'' = Inr ((?d @ ''/'') @ NUL # z1)" by auto
      from strcat_run [OF nd, of "''/PROFILE''" y] b fits obtain y1 where
        e: "strcat (?d @ NUL # y) ''/PROFILE'' = Inr ((?d @ ''/PROFILE'') @ NUL # y1)" by auto
      have nd1: "NUL \<notin> set (?d @ ''/'')" using assms(4) by simp
      from strcpy_run [OF nd1, of alf z1] assms(3) fits obtain w where
        g: "strcpy alf ((?d @ ''/'') @ NUL # z1) = Inr ((?d @ ''/'') @ NUL # w)" "length ((?d @ ''/'') @ NUL # w) = 256"
        by auto
      from strcat_run [OF nd1, of "''alias''" w] g(2) fits obtain w1 where
        h: "strcat ((?d @ ''/'') @ NUL # w) ''alias'' = Inr ((?d @ ''/alias'') @ NUL # w1)" by auto
      have n: "cstr (s @ NUL # t) = s" if "NUL \<notin> set s" for s t using that by simp
      have "file_names pf pp alf (Some u) = Inr (cstr ((?d @ ''/PROFILE'') @ NUL # y1), cstr ((?d @ ''/'') @ NUL # z1),
          cstr ((?d @ ''/alias'') @ NUL # w1))"
        using False a(1) b(1) c(1) d e g(1) h by (simp add: file_names_def)
      moreover have "NUL \<notin> set (?d @ ''/PROFILE'')" "NUL \<notin> set (?d @ ''/alias'')" using assms(4) by simp_all
      ultimately have r: "file_names pf pp alf (Some u) = Inr (?d @ ''/PROFILE'', ?d @ ''/'', ?d @ ''/alias'')"
        using nd1 by (simp only: n not_False_eq_True)
      have "file_names pf pp alf None = Inl NullDeref" by (simp add: file_names_def)
      then show ?thesis unfolding r using False fits by (simp add: Let_def)
    next
      case long: False
      have "strcat (?d @ NUL # y) ''/PROFILE'' = Inl BufferOverflow"
        by (rule strcat_full [OF nd]) (use b(2) long in simp)
      moreover have "strcat (?d @ NUL # z) ''/'' = Inl BufferOverflow \<or> (\<exists>r. strcat (?d @ NUL # z) ''/'' = Inr r)"
        using nd by (simp add: strcat_def Let_def)
      ultimately show ?thesis using False long a(1) b(1) c(1) by (auto simp: file_names_def)
    qed
  next
    case long: False
    have "strcat (''/home/'' @ NUL # x) u = Inl BufferOverflow"
      by (rule strcat_full) (use a(2) long in simp_all)
    then show ?thesis using False long a(1) by (simp add: file_names_def)
  qed
qed

text \<open>
  The system calls a process makes while the kernel answers with the numbers given, and what it
  does afterwards.
\<close>

fun answered :: "int list \<Rightarrow> io \<Rightarrow> syscall list \<times> io" where
  "answered (x # xs) (Sys c f) = (let r = answered xs (f x) in (c # fst r, snd r))"
| "answered xs t = ([], t)"

definition started :: "string \<Rightarrow> int \<Rightarrow> int \<Rightarrow> config" where
  "started dir pid afd = \<lparr>home = dir @ ''/'', PROMPT = ''MRP:>'', my_pid = pid, alias_file = dir @ ''/alias'',
     alias_fd = afd, exit_reg_once = False\<rparr>"

lemma main_named:
  assumes "file_names (junk 0) (junk 1) (junk 2) username = Inr (dir @ ''/PROFILE'', dir @ ''/'', dir @ ''/alias'')"
  shows "main env kj vj blk junk enoent contents username inp =
    Sys Getpid (\<lambda>pid. open_profile enoent (dir @ ''/PROFILE'') inp (\<lambda>prf inp'.
      Sys (Open (dir @ ''/alias'') [O_CREAT, O_RDWR]) (\<lambda>afd.
        let bytes = (\<lambda>fd. if fd = -1 then [] else contents fd);
            go = main_loop env kj vj blk (junk 3) (started dir pid afd) prf (bytes prf) (bytes afd) inp'
        in if afd = -1 then do_sys (Perror ''error:'') go else go)))"
  using assms by (simp add: main_def crash_or_def started_def)

text \<open>
  C26. The start of the shell, for a user whose name fits the blocks of 256 (root, or up to 241
  characters). With both files there, main opens the PROFILE and the alias file of that user and
  goes to its loop with what is in them, and home is the directory. Without a PROFILE it asks:
  on n it goes on without one, after any other answer it creates the file and reads it; the
  loop goes on with the input behind the answer, and at the end of the input the answer is
  read uninitialised. Without an alias file it goes on without aliases. A longer name is
  written behind a block before anything is opened, and without the variable USER the shell
  faults at once.
\<close>

theorem shell_started:
  fixes u :: string
  defines "dir \<equiv> (if u = ''root'' then ''/root'' else ''/home/'' @ u)"
  defines "profile \<equiv> dir @ ''/PROFILE''" and "open_alias \<equiv> Open (dir @ ''/alias'') [O_CREAT, O_RDWR]"
  assumes "length (junk 0) = 256" and "length (junk 1) = 256" and "length (junk 2) = 256" and "NUL \<notin> set u"
    and fd: "fd \<noteq> -1" and afd: "afd \<noteq> -1"
  shows "answered [pid] (main env kj vj blk junk enoent contents None inp) = ([Getpid], Crash NullDeref) \<and>
    (if u = ''root'' \<or> length u < 242 then
       answered [pid, fd, afd] (main env kj vj blk junk enoent contents (Some u) inp) =
         ([Getpid, Open profile [O_RDONLY], open_alias],
          main_loop env kj vj blk (junk 3) (started dir pid afd) fd (contents fd) (contents afd) inp) \<and>
       answered [pid, fd, -1, x] (main env kj vj blk junk enoent contents (Some u) inp) =
         ([Getpid, Open profile [O_RDONLY], open_alias, Perror ''error:''],
          main_loop env kj vj blk (junk 3) (started dir pid (-1)) fd (contents fd) [] inp) \<and>
       answered [pid, -1, fd, afd] (main env kj vj blk junk True contents (Some u) (''y'' @ inp)) =
         ([Getpid, Open profile [O_RDONLY], Open profile [O_CREAT], open_alias],
          main_loop env kj vj blk (junk 3) (started dir pid afd) fd (contents fd) (contents afd) inp) \<and>
       answered [pid, -1, x, afd] (main env kj vj blk junk True contents (Some u) (''n'' @ inp)) =
         ([Getpid, Open profile [O_RDONLY], Perror ''error'', open_alias],
          main_loop env kj vj blk (junk 3) (started dir pid afd) (-1) [] (contents afd) inp) \<and>
       answered [pid, -1] (main env kj vj blk junk True contents (Some u) []) =
         ([Getpid, Open profile [O_RDONLY]], Crash Uninitialised)
     else answered [pid] (main env kj vj blk junk enoent contents (Some u) inp) = ([Getpid], Crash BufferOverflow))"
proof -
  note names = user_files_named [OF assms(4-7), folded dir_def]
  have none: "answered [pid] (main env kj vj blk junk enoent contents None inp) = ([Getpid], Crash NullDeref)"
    using names by (simp add: main_def crash_or_def)
  show ?thesis
  proof (cases "u = ''root'' \<or> length u < 242")
    case True
    with names have "file_names (junk 0) (junk 1) (junk 2) (Some u) = Inr (dir @ ''/PROFILE'', dir @ ''/'', dir @ ''/alias'')"
      by (simp add: Let_def dir_def)
    note m = main_named [where dir = dir and junk = junk and username = "Some u", OF this]
    show ?thesis
      using True none fd afd by (simp add: m open_profile_def profile_def open_alias_def Let_def)
  next
    case False
    with names have "file_names (junk 0) (junk 1) (junk 2) (Some u) = Inl BufferOverflow" by (simp add: Let_def)
    with False none show ?thesis by (simp add: main_def crash_or_def)
  qed
qed

theorem shell_started_witness:
  "answered [7, 3, 4] (main demo_shell (\<lambda>_ _. NUL) (\<lambda>_ _. NUL) None (\<lambda>_. replicate 256 NUL) False (\<lambda>_. ''ls'') (Some ''mrp'') ''exit'') =
     ([Getpid, Open ''/home/mrp/PROFILE'' [O_RDONLY], Open ''/home/mrp/alias'' [O_CREAT, O_RDWR]],
      main_loop demo_shell (\<lambda>_ _. NUL) (\<lambda>_ _. NUL) None (replicate 256 NUL) (started ''/home/mrp'' 7 4) 3 ''ls'' ''ls'' ''exit'') \<and>
   answered [7] (main demo_shell (\<lambda>_ _. NUL) (\<lambda>_ _. NUL) None (\<lambda>_. replicate 256 NUL) False (\<lambda>_. ''ls'')
       (Some (replicate 242 CHR ''a'')) ''exit'') = ([Getpid], Crash BufferOverflow)"
proof -
  let ?j = "\<lambda>_ :: nat. replicate 256 NUL"
  have l: "length (?j n) = 256" for n by simp
  have d: "(3 :: int) \<noteq> -1" "(4 :: int) \<noteq> -1" by simp_all
  have n: "replicate 242 CHR ''a'' \<noteq> ''root''" by (simp add: numeral_eq_Suc)
  note s = shell_started [where junk = ?j and fd = 3 and afd = 4, OF l l l _ d, where pid = 7 and env = demo_shell and
      kj = "\<lambda>_ _. NUL" and vj = "\<lambda>_ _. NUL" and blk = None and enoent = False and contents = "\<lambda>_. ''ls''" and inp = "''exit''"]
  from s [of "''mrp''"] s [of "replicate 242 CHR ''a''"] n show ?thesis by simp
qed

end
