(* ===== verification/ShSignal.thy ===== *)
theory ShSignal
  imports ShMain
begin

text \<open>
  The interrupt handler of the shell (prj_1/signal.c), which register_signal installs for
  SIGINT before main reads anything. It reads the same standard input as the prompt.
\<close>

section \<open>signal_handler\<close>

definition SIGINT :: int where "SIGINT = 2"

text \<open>
  The loop that drops the rest of the answer. At the end of the input getchar answers EOF, again
  and again, which as a char is no newline.
\<close>

fun drop_answer :: "string \<Rightarrow> string res" where
  "drop_answer [] = Inl Diverges"
| "drop_answer (ch # cs) = (if ch = CHR 0x0A then Inr cs else drop_answer cs)"

text \<open>\<open>k\<close> goes on with what was interrupted, at the rest of the input.\<close>

definition signal_handler :: "config \<Rightarrow> assoc_ar \<Rightarrow> int \<Rightarrow> string \<Rightarrow> (string \<Rightarrow> io) \<Rightarrow> io" where
  "signal_handler cfg al signal inp k =
     (if signal = SIGINT then
        (case inp of
           [] \<Rightarrow> crash_or (drop_answer []) k
         | ch # rest \<Rightarrow>
             if ch = CHR ''y'' \<or> ch = CHR ''Y'' then registered_exit cfg al (do_sys (Exit 0) (Crash Panic))
             else if ch \<noteq> CHR 0x0A then crash_or (drop_answer rest) k
             else k rest)
      else k inp)"

section \<open>Properties\<close>

lemma drop_answer_line: "CHR 0x0A \<notin> set l \<Longrightarrow> drop_answer (l @ CHR 0x0A # rest) = Inr rest"
  by (induction l) auto

lemma drop_answer_end: "CHR 0x0A \<notin> set l \<Longrightarrow> drop_answer l = Inl Diverges"
  by (induction l) auto

text \<open>
  C27. An interrupt at the prompt takes one line of the input as its answer. If that line
  starts with y or Y the shell exits, and saves its aliases only if it has forked before;
  otherwise the prompt goes on behind the line with everything as it was. If the input ends
  before the line does, the handler does not end.
\<close>

theorem interrupt_answered:
  assumes "CHR 0x0A \<notin> set l" and "ar_ok al"
  shows "signal_handler cfg al SIGINT (l @ CHR 0x0A # rest) (\<lambda>inp. prompt_loop env junk inp al cfg) =
      (if take 1 l = ''y'' \<or> take 1 l = ''Y'' then
         (let stop = do_sys (Exit 0) (Crash Panic)
          in if exit_reg_once cfg then Sys Getpid (\<lambda>pid. if pid = my_pid cfg then save cfg al stop else stop) else stop)
       else prompt_loop env junk rest al cfg) \<and>
    (take 1 l \<noteq> ''y'' \<and> take 1 l \<noteq> ''Y'' \<longrightarrow>
       signal_handler cfg al SIGINT l (\<lambda>inp. prompt_loop env junk inp al cfg) = Crash Diverges)"
proof (cases l)
  case Nil
  then show ?thesis by (simp add: signal_handler_def crash_or_def)
next
  case (Cons c cs)
  with assms(1) have c: "c \<noteq> CHR 0x0A" "CHR 0x0A \<notin> set cs" by auto
  with Cons drop_answer_line [OF c(2), of rest] drop_answer_end [OF c(2)] bye_saves [OF assms(2)] show ?thesis
    by (auto simp: signal_handler_def crash_or_def registered_exit_def Let_def)
qed

theorem interrupt_answered_witness:
  "signal_handler demo_config (init (\<lambda>_ _. NUL) (\<lambda>_ _. NUL)) SIGINT (''no'' @ CHR 0x0A # ''exit'')
     (\<lambda>inp. prompt_loop demo_shell (replicate 256 NUL) inp (init (\<lambda>_ _. NUL) (\<lambda>_ _. NUL)) demo_config) =
   prompt_loop demo_shell (replicate 256 NUL) ''exit'' (init (\<lambda>_ _. NUL) (\<lambda>_ _. NUL)) demo_config \<and>
   signal_handler demo_config (init (\<lambda>_ _. NUL) (\<lambda>_ _. NUL)) SIGINT ''no''
     (\<lambda>inp. prompt_loop demo_shell (replicate 256 NUL) inp (init (\<lambda>_ _. NUL) (\<lambda>_ _. NUL)) demo_config) = Crash Diverges"
proof -
  have ok: "ar_ok (init (\<lambda>_ _. NUL) (\<lambda>_ _. NUL))" using tbl.ok_empty by (simp add: holds_keys_def)
  have n: "CHR 0x0A \<notin> set ''no''" by simp
  from interrupt_answered [OF n ok, of demo_config "''exit''" demo_shell "replicate 256 NUL"] show ?thesis by simp
qed

end
