(* ===== verification/VfsMsg.thy ===== *)
theory VfsMsg
  imports Prelude
begin

text \<open>
  Messages between VFS and the file systems (prj_3/src/include-minix/vfsif.h, and the call
  tables of MFS, HGFS and VTreeFS). A request is a fs_message of type 9: its fields are names for
  the nine slots of the message, so that two fields may share one. A slot nobody has written
  holds None. How many bits a msg_slot has is MINIX's (minix/ipc.h) and is a parameter.
\<close>

section \<open>Messages\<close>

datatype msg_slot = m9_l1 | m9_l2 | m9_l3 | m9_l4 | m9_l5 | m9_s1 | m9_s2 | m9_s3 | m9_s4

record fs_message =
  m_source :: "int option"
  m_type :: "int option"
  m9 :: "msg_slot \<Rightarrow> int option"

text \<open>An assignment keeps the low bits of the value, read back as a signed number.\<close>

definition put :: "(msg_slot \<Rightarrow> nat) \<Rightarrow> msg_slot \<Rightarrow> int \<Rightarrow> fs_message \<Rightarrow> fs_message" where
  "put bits s v m = m\<lparr>m9 := (m9 m)(s := Some (signed_take_bit (bits s - 1) v))\<rparr>"

text \<open>A message on the stack: nothing is set but the type and the assigned fields, in order.\<close>

definition request :: "(msg_slot \<Rightarrow> nat) \<Rightarrow> int \<Rightarrow> (msg_slot \<times> int) list \<Rightarrow> fs_message" where
  "request bits t fs =
     fold (\<lambda>(s, v). put bits s v) fs \<lparr>m_source = None, m_type = Some t, m9 = \<lambda>_. None\<rparr>"

section \<open>Request and reply fields\<close>

definition REQ_ACTIME :: msg_slot where "REQ_ACTIME = m9_l2"
definition REQ_COUNT :: msg_slot where "REQ_COUNT = m9_l2"
definition REQ_DEV :: msg_slot where "REQ_DEV = m9_l5"
definition REQ_DEV2 :: msg_slot where "REQ_DEV2 = m9_l1"
definition REQ_DIR_INO :: msg_slot where "REQ_DIR_INO = m9_l3"
definition REQ_FLAGS :: msg_slot where "REQ_FLAGS = m9_s3"
definition REQ_GID :: msg_slot where "REQ_GID = m9_s1"
definition REQ_GRANT :: msg_slot where "REQ_GRANT = m9_l2"
definition REQ_GRANT2 :: msg_slot where "REQ_GRANT2 = m9_l1"
definition REQ_GRANT3 :: msg_slot where "REQ_GRANT3 = m9_l3"
definition REQ_INODE_NR :: msg_slot where "REQ_INODE_NR = m9_l1"
definition REQ_MEM_SIZE :: msg_slot where "REQ_MEM_SIZE = m9_l5"
definition REQ_MODE :: msg_slot where "REQ_MODE = m9_s3"
definition REQ_MODTIME :: msg_slot where "REQ_MODTIME = m9_l3"
definition REQ_NBYTES :: msg_slot where "REQ_NBYTES = m9_l5"
definition REQ_PATH_LEN :: msg_slot where "REQ_PATH_LEN = m9_s2"
definition REQ_PATH_SIZE :: msg_slot where "REQ_PATH_SIZE = m9_l5"
definition REQ_REN_GRANT_NEW :: msg_slot where "REQ_REN_GRANT_NEW = m9_l1"
definition REQ_REN_GRANT_OLD :: msg_slot where "REQ_REN_GRANT_OLD = m9_l2"
definition REQ_REN_LEN_NEW :: msg_slot where "REQ_REN_LEN_NEW = m9_s2"
definition REQ_REN_LEN_OLD :: msg_slot where "REQ_REN_LEN_OLD = m9_s1"
definition REQ_REN_NEW_DIR :: msg_slot where "REQ_REN_NEW_DIR = m9_l4"
definition REQ_REN_OLD_DIR :: msg_slot where "REQ_REN_OLD_DIR = m9_l3"
definition REQ_ROOT_INO :: msg_slot where "REQ_ROOT_INO = m9_l4"
definition REQ_SEEK_POS_HI :: msg_slot where "REQ_SEEK_POS_HI = m9_l3"
definition REQ_SEEK_POS_LO :: msg_slot where "REQ_SEEK_POS_LO = m9_l4"
definition REQ_TRC_END_HI :: msg_slot where "REQ_TRC_END_HI = m9_l4"
definition REQ_TRC_END_LO :: msg_slot where "REQ_TRC_END_LO = m9_l5"
definition REQ_TRC_START_HI :: msg_slot where "REQ_TRC_START_HI = m9_l2"
definition REQ_TRC_START_LO :: msg_slot where "REQ_TRC_START_LO = m9_l3"
definition REQ_UCRED_SIZE :: msg_slot where "REQ_UCRED_SIZE = m9_s4"
definition REQ_UID :: msg_slot where "REQ_UID = m9_s4"

definition RES_DEV :: msg_slot where "RES_DEV = m9_l4"
definition RES_GID :: msg_slot where "RES_GID = m9_s1"
definition RES_INODE_NR :: msg_slot where "RES_INODE_NR = m9_l1"
definition RES_FILE_SIZE_HI :: msg_slot where "RES_FILE_SIZE_HI = m9_l2"
definition RES_FILE_SIZE_LO :: msg_slot where "RES_FILE_SIZE_LO = m9_l3"
definition RES_MODE :: msg_slot where "RES_MODE = m9_s2"
definition RES_NBYTES :: msg_slot where "RES_NBYTES = m9_l5"
definition RES_OFFSET :: msg_slot where "RES_OFFSET = m9_s2"
definition RES_SEEK_POS_HI :: msg_slot where "RES_SEEK_POS_HI = m9_l3"
definition RES_SEEK_POS_LO :: msg_slot where "RES_SEEK_POS_LO = m9_l4"
definition RES_SYMLOOP :: msg_slot where "RES_SYMLOOP = m9_s3"
definition RES_UID :: msg_slot where "RES_UID = m9_s4"
definition RES_CONREQS :: msg_slot where "RES_CONREQS = m9_s3"

lemmas field_slots =
  REQ_ACTIME_def REQ_COUNT_def REQ_DEV_def REQ_DEV2_def
  REQ_DIR_INO_def REQ_FLAGS_def REQ_GID_def REQ_GRANT_def
  REQ_GRANT2_def REQ_GRANT3_def REQ_INODE_NR_def REQ_MEM_SIZE_def
  REQ_MODE_def REQ_MODTIME_def REQ_NBYTES_def REQ_PATH_LEN_def
  REQ_PATH_SIZE_def REQ_REN_GRANT_NEW_def REQ_REN_GRANT_OLD_def REQ_REN_LEN_NEW_def
  REQ_REN_LEN_OLD_def REQ_REN_NEW_DIR_def REQ_REN_OLD_DIR_def REQ_ROOT_INO_def
  REQ_SEEK_POS_HI_def REQ_SEEK_POS_LO_def REQ_TRC_END_HI_def REQ_TRC_END_LO_def
  REQ_TRC_START_HI_def REQ_TRC_START_LO_def REQ_UCRED_SIZE_def REQ_UID_def
  RES_DEV_def RES_GID_def RES_INODE_NR_def RES_FILE_SIZE_HI_def
  RES_FILE_SIZE_LO_def RES_MODE_def RES_NBYTES_def RES_OFFSET_def
  RES_SEEK_POS_HI_def RES_SEEK_POS_LO_def RES_SYMLOOP_def RES_UID_def
  RES_CONREQS_def

section \<open>Flags and answers\<close>

definition REQ_RDONLY :: int where "REQ_RDONLY = 1"
definition REQ_ISROOT :: int where "REQ_ISROOT = 2"
definition PATH_RET_SYMLINK :: int where "PATH_RET_SYMLINK = 8"
definition PATH_GET_UCRED :: int where "PATH_GET_UCRED = 16"
definition EENTERMOUNT :: int where "EENTERMOUNT = -301"
definition ELEAVEMOUNT :: int where "ELEAVEMOUNT = -302"
definition ESYMLINK :: int where "ESYMLINK = -303"

abbreviation (input) OK :: int where "OK \<equiv> 0"

section \<open>Request numbers\<close>

definition REQ_GETNODE :: "int \<Rightarrow> int" where "REQ_GETNODE VFS_BASE = VFS_BASE + 1"
definition REQ_PUTNODE :: "int \<Rightarrow> int" where "REQ_PUTNODE VFS_BASE = VFS_BASE + 2"
definition REQ_SLINK :: "int \<Rightarrow> int" where "REQ_SLINK VFS_BASE = VFS_BASE + 3"
definition REQ_FTRUNC :: "int \<Rightarrow> int" where "REQ_FTRUNC VFS_BASE = VFS_BASE + 4"
definition REQ_CHOWN :: "int \<Rightarrow> int" where "REQ_CHOWN VFS_BASE = VFS_BASE + 5"
definition REQ_CHMOD :: "int \<Rightarrow> int" where "REQ_CHMOD VFS_BASE = VFS_BASE + 6"
definition REQ_INHIBREAD :: "int \<Rightarrow> int" where "REQ_INHIBREAD VFS_BASE = VFS_BASE + 7"
definition REQ_STAT :: "int \<Rightarrow> int" where "REQ_STAT VFS_BASE = VFS_BASE + 8"
definition REQ_UTIME :: "int \<Rightarrow> int" where "REQ_UTIME VFS_BASE = VFS_BASE + 9"
definition REQ_FSTATFS :: "int \<Rightarrow> int" where "REQ_FSTATFS VFS_BASE = VFS_BASE + 10"
definition REQ_BREAD :: "int \<Rightarrow> int" where "REQ_BREAD VFS_BASE = VFS_BASE + 11"
definition REQ_BWRITE :: "int \<Rightarrow> int" where "REQ_BWRITE VFS_BASE = VFS_BASE + 12"
definition REQ_UNLINK :: "int \<Rightarrow> int" where "REQ_UNLINK VFS_BASE = VFS_BASE + 13"
definition REQ_RMDIR :: "int \<Rightarrow> int" where "REQ_RMDIR VFS_BASE = VFS_BASE + 14"
definition REQ_UNMOUNT :: "int \<Rightarrow> int" where "REQ_UNMOUNT VFS_BASE = VFS_BASE + 15"
definition REQ_SYNC :: "int \<Rightarrow> int" where "REQ_SYNC VFS_BASE = VFS_BASE + 16"
definition REQ_NEW_DRIVER :: "int \<Rightarrow> int" where "REQ_NEW_DRIVER VFS_BASE = VFS_BASE + 17"
definition REQ_FLUSH :: "int \<Rightarrow> int" where "REQ_FLUSH VFS_BASE = VFS_BASE + 18"
definition REQ_READ :: "int \<Rightarrow> int" where "REQ_READ VFS_BASE = VFS_BASE + 19"
definition REQ_WRITE :: "int \<Rightarrow> int" where "REQ_WRITE VFS_BASE = VFS_BASE + 20"
definition REQ_MKNOD :: "int \<Rightarrow> int" where "REQ_MKNOD VFS_BASE = VFS_BASE + 21"
definition REQ_MKDIR :: "int \<Rightarrow> int" where "REQ_MKDIR VFS_BASE = VFS_BASE + 22"
definition REQ_CREATE :: "int \<Rightarrow> int" where "REQ_CREATE VFS_BASE = VFS_BASE + 23"
definition REQ_LINK :: "int \<Rightarrow> int" where "REQ_LINK VFS_BASE = VFS_BASE + 24"
definition REQ_RENAME :: "int \<Rightarrow> int" where "REQ_RENAME VFS_BASE = VFS_BASE + 25"
definition REQ_LOOKUP :: "int \<Rightarrow> int" where "REQ_LOOKUP VFS_BASE = VFS_BASE + 26"
definition REQ_MOUNTPOINT :: "int \<Rightarrow> int" where "REQ_MOUNTPOINT VFS_BASE = VFS_BASE + 27"
definition REQ_READSUPER :: "int \<Rightarrow> int" where "REQ_READSUPER VFS_BASE = VFS_BASE + 28"
definition REQ_NEWNODE :: "int \<Rightarrow> int" where "REQ_NEWNODE VFS_BASE = VFS_BASE + 29"
definition REQ_RDLINK :: "int \<Rightarrow> int" where "REQ_RDLINK VFS_BASE = VFS_BASE + 30"
definition REQ_GETDENTS :: "int \<Rightarrow> int" where "REQ_GETDENTS VFS_BASE = VFS_BASE + 31"
definition REQ_STATVFS :: "int \<Rightarrow> int" where "REQ_STATVFS VFS_BASE = VFS_BASE + 32"
definition REQ_EXTFRAG :: "int \<Rightarrow> int" where "REQ_EXTFRAG VFS_BASE = VFS_BASE + 33"
definition REQ_GETINODEBLOCKS :: "int \<Rightarrow> int" where "REQ_GETINODEBLOCKS VFS_BASE = VFS_BASE + 34"
definition REQ_INT_FRAG :: "int \<Rightarrow> int" where "REQ_INT_FRAG VFS_BASE = VFS_BASE + 35"
definition NREQS :: nat where "NREQS = 36"

lemmas request_numbers =
  REQ_GETNODE_def REQ_PUTNODE_def REQ_SLINK_def REQ_FTRUNC_def
  REQ_CHOWN_def REQ_CHMOD_def REQ_INHIBREAD_def REQ_STAT_def
  REQ_UTIME_def REQ_FSTATFS_def REQ_BREAD_def REQ_BWRITE_def
  REQ_UNLINK_def REQ_RMDIR_def REQ_UNMOUNT_def REQ_SYNC_def
  REQ_NEW_DRIVER_def REQ_FLUSH_def REQ_READ_def REQ_WRITE_def
  REQ_MKNOD_def REQ_MKDIR_def REQ_CREATE_def REQ_LINK_def
  REQ_RENAME_def REQ_LOOKUP_def REQ_MOUNTPOINT_def REQ_READSUPER_def
  REQ_NEWNODE_def REQ_RDLINK_def REQ_GETDENTS_def REQ_STATVFS_def
  REQ_EXTFRAG_def REQ_GETINODEBLOCKS_def REQ_INT_FRAG_def

section \<open>The call tables of the file systems\<close>

text \<open>The handlers by their names; entry n serves request number VFS_BASE + n.\<close>

definition mfs_call_vec :: "string list" where
  "mfs_call_vec =
     [''no_sys'', ''no_sys'', ''fs_putnode'', ''fs_slink'', ''fs_ftrunc'',
      ''fs_chown'', ''fs_chmod'', ''fs_inhibread'', ''fs_stat'', ''fs_utime'',
      ''fs_fstatfs'', ''fs_breadwrite'', ''fs_breadwrite'', ''fs_unlink'', ''fs_unlink'',
      ''fs_unmount'', ''fs_sync'', ''fs_new_driver'', ''fs_flush'', ''fs_readwrite'',
      ''fs_readwrite'', ''fs_mknod'', ''fs_mkdir'', ''fs_create'', ''fs_link'',
      ''fs_rename'', ''fs_lookup'', ''fs_mountpoint'', ''fs_readsuper'', ''no_sys'',
      ''fs_rdlink'', ''fs_getdents'', ''fs_statvfs'', ''fs_getfrag'', ''fs_get_inode_blocks'',
      ''fs_get_int_frag'']"

definition hgfs_call_vec :: "string list" where
  "hgfs_call_vec =
     [''no_sys'', ''no_sys'', ''do_putnode'', ''no_sys'', ''do_ftrunc'',
      ''no_sys'', ''do_chmod'', ''do_noop'', ''do_stat'', ''do_utime'',
      ''do_fstatfs'', ''no_sys'', ''no_sys'', ''do_unlink'', ''do_rmdir'',
      ''do_unmount'', ''do_noop'', ''do_noop'', ''do_noop'', ''do_read'',
      ''do_write'', ''no_sys'', ''do_mkdir'', ''do_create'', ''no_sys'',
      ''do_rename'', ''do_lookup'', ''no_sys'', ''do_readsuper'', ''no_sys'',
      ''no_sys'', ''do_getdents'', ''do_statvfs'', ''no_sys'', ''no_sys'',
      ''no_sys'']"

definition vtreefs_call_vec :: "string list" where
  "vtreefs_call_vec =
     [''no_sys'', ''no_sys'', ''fs_putnode'', ''no_sys'', ''no_sys'',
      ''no_sys'', ''no_sys'', ''do_noop'', ''fs_stat'', ''no_sys'',
      ''fs_fstatfs'', ''no_sys'', ''no_sys'', ''no_sys'', ''no_sys'',
      ''fs_unmount'', ''do_noop'', ''do_noop'', ''no_sys'', ''fs_read'',
      ''no_sys'', ''no_sys'', ''no_sys'', ''no_sys'', ''no_sys'',
      ''no_sys'', ''fs_lookup'', ''no_sys'', ''fs_readsuper'', ''no_sys'',
      ''fs_rdlink'', ''fs_getdents'', ''fs_statvfs'', ''no_sys'', ''no_sys'',
      ''no_sys'']"

end
