(* ===== verification/VfsRequest.thy ===== *)
theory VfsRequest
  imports VfsMsg
begin

text \<open>
  The requests VFS sends to a file system (prj_3/src/vfs/request.c). Every function grants the
  file system access to the memory it needs, fills in a fs_message, sends it and waits for the
  answer, revokes the grants, and copies the answer out. What VFS does to the outside is a list
  of events; what comes back (grant ids, answers, the data a file system has written through a
  grant) is a function of the events so far, a parameter of every request.
\<close>

unbundle bit_operations_syntax

section \<open>Grants and events\<close>

datatype access = CPF_READ | CPF_WRITE

record vfs_ucred =
  vu_uid :: int
  vu_gid :: int
  vu_ngroups :: int
  vu_sgroups :: "int list"

text \<open>What a grant gives access to: a string or a buffer of VFS, or an address.\<close>

datatype memory = Str string | Credentials vfs_ucred | Stat_buffer | Address int

datatype grant =
    Direct int memory int "access list"
  | Magic int int memory int "access list"

text \<open>struct stat; its layout of before has the same fields but the nanoseconds.\<close>

record stat =
  st_dev :: int
  st_ino :: int
  st_mode :: int
  st_nlink :: int
  st_uid :: int
  st_gid :: int
  st_rdev :: int
  st_size :: int
  st_atime :: int
  st_mtime :: int
  st_ctime :: int

datatype stat_copy = Stat stat | Minix_prev_stat stat

datatype event = Granted int grant | Sent int fs_message | Revoked int | Copied int int stat_copy

text \<open>
  \<open>grant_answer\<close> is what cpf_grant_direct and cpf_grant_magic return (-1 for a failure),
  \<open>fs_answer\<close> what fs_sendrec returns and leaves in the message, \<open>stat_answer\<close> the contents of
  the stat buffer, \<open>vircopy_answer\<close> the answer of sys_vircopy. The rest are constants and the
  64-bit helpers of MINIX.
\<close>

record env =
  slot_bits :: "msg_slot \<Rightarrow> nat"
  VFS_BASE :: int
  PATH_MAX :: int
  NGROUPS_MAX :: nat
  sizeof_statfs :: int
  sizeof_statvfs :: int
  sizeof_stat :: int
  sizeof_ucred :: int
  ex64lo :: "int \<Rightarrow> int"
  ex64hi :: "int \<Rightarrow> int"
  make64 :: "int \<Rightarrow> int \<Rightarrow> int"
  cvul64 :: "int \<Rightarrow> int"
  grant_answer :: "event list \<Rightarrow> grant \<Rightarrow> int"
  fs_answer :: "event list \<Rightarrow> int \<Rightarrow> fs_message \<Rightarrow> int \<times> fs_message"
  stat_answer :: "event list \<Rightarrow> stat"
  vircopy_answer :: "event list \<Rightarrow> int"

type_synonym 'a vfs_op = "event list \<Rightarrow> ('a \<times> event list) res"

definition ret :: "'a \<Rightarrow> 'a vfs_op" where
  "ret x = (\<lambda>tr. Inr (x, tr))"

definition fail :: "fault \<Rightarrow> 'a vfs_op" where
  "fail e = (\<lambda>tr. Inl e)"

definition seq :: "'a vfs_op \<Rightarrow> ('a \<Rightarrow> 'b vfs_op) \<Rightarrow> 'b vfs_op" where
  "seq c f = (\<lambda>tr. bnd (c tr) (\<lambda>(x, tr'). f x tr'))"

definition cpf_grant :: "env \<Rightarrow> grant \<Rightarrow> int vfs_op" where
  "cpf_grant env g =
     (\<lambda>tr. let gid = grant_answer env tr g
           in Inr (gid, if gid = -1 then tr else tr @ [Granted gid g]))"

definition cpf_revoke :: "int \<Rightarrow> unit vfs_op" where
  "cpf_revoke gid = (\<lambda>tr. Inr ((), tr @ [Revoked gid]))"

definition fs_sendrec :: "env \<Rightarrow> int \<Rightarrow> fs_message \<Rightarrow> (int \<times> fs_message) vfs_op" where
  "fs_sendrec env fs_e m = (\<lambda>tr. Inr (fs_answer env tr fs_e m, tr @ [Sent fs_e m]))"

definition read_stat :: "env \<Rightarrow> stat vfs_op" where
  "read_stat env = (\<lambda>tr. Inr (stat_answer env tr, tr))"

definition sys_vircopy :: "env \<Rightarrow> int \<Rightarrow> int \<Rightarrow> stat_copy \<Rightarrow> int vfs_op" where
  "sys_vircopy env proc_e buf data = (\<lambda>tr. Inr (vircopy_answer env tr, tr @ [Copied proc_e buf data]))"

text \<open>A grant, with the panic of the caller when it fails.\<close>

definition granted :: "env \<Rightarrow> grant \<Rightarrow> int vfs_op" where
  "granted env g = seq (cpf_grant env g) (\<lambda>gid. if gid = -1 then fail Panic else ret gid)"

text \<open>A field of the answer; one nobody has written is indeterminate.\<close>

definition fetch :: "fs_message \<Rightarrow> msg_slot \<Rightarrow> int vfs_op" where
  "fetch m s = (case m9 m s of None \<Rightarrow> fail Uninitialised | Some v \<Rightarrow> ret v)"

definition fetch_source :: "fs_message \<Rightarrow> int vfs_op" where
  "fetch_source m = (case m_source m of None \<Rightarrow> fail Uninitialised | Some e \<Rightarrow> ret e)"

text \<open>A message without grants: fill in, send, return the answer.\<close>

definition send :: "env \<Rightarrow> int \<Rightarrow> int \<Rightarrow> (msg_slot \<times> int) list \<Rightarrow> (int \<times> fs_message) vfs_op" where
  "send env fs_e t fs = fs_sendrec env fs_e (request (slot_bits env) t fs)"

definition send_only :: "env \<Rightarrow> int \<Rightarrow> int \<Rightarrow> (msg_slot \<times> int) list \<Rightarrow> int vfs_op" where
  "send_only env fs_e t fs = seq (send env fs_e t fs) (\<lambda>(r, m). ret r)"

text \<open>A message with one grant: send, revoke, go on with the answer.\<close>

definition send_revoke :: "env \<Rightarrow> int \<Rightarrow> int \<Rightarrow> (msg_slot \<times> int) list \<Rightarrow> int list \<Rightarrow> (int \<times> fs_message) vfs_op" where
  "send_revoke env fs_e t fs gids =
     seq (send env fs_e t fs) (\<lambda>r. foldr (\<lambda>g k. seq (cpf_revoke g) (\<lambda>_. k)) gids (ret r))"

text \<open>strlen(s) + 1.\<close>

definition strsize :: "string \<Rightarrow> int" where
  "strsize s = int (length s) + 1"

definition string_grant :: "int \<Rightarrow> string \<Rightarrow> grant" where
  "string_grant fs_e s = Direct fs_e (Str s) (strsize s) [CPF_READ]"

section \<open>What the requests return\<close>

record node_details =
  nd_fs_e :: int
  nd_inode_nr :: int
  nd_fmode :: int
  nd_fsize :: int
  nd_uid :: int
  nd_gid :: int
  nd_dev :: int

text \<open>lookup_res_t.\<close>

record lookup_res = node_details +
  char_processed :: int
  symloop :: int

record lookup =
  l_path :: string
  l_flags :: int

record fproc =
  fp_effuid :: int
  fp_effgid :: int
  fp_ngroups :: int
  fp_sgroups :: "int list"

text \<open>The fields req_create, req_newnode, req_lookup and req_readsuper copy out; all but the last take dev.\<close>

definition fill_node :: "fs_message \<Rightarrow> 'a node_details_scheme \<Rightarrow> 'a node_details_scheme vfs_op" where
  "fill_node m res =
     seq (fetch_source m) (\<lambda>e. seq (fetch m RES_INODE_NR) (\<lambda>i. seq (fetch m RES_MODE) (\<lambda>md.
     seq (fetch m RES_FILE_SIZE_LO) (\<lambda>sz. seq (fetch m RES_UID) (\<lambda>u. seq (fetch m RES_GID) (\<lambda>g.
       ret (res\<lparr>nd_fs_e := e, nd_inode_nr := i, nd_fmode := md, nd_fsize := sz, nd_uid := u, nd_gid := g\<rparr>)))))))"

definition fill_node_dev :: "fs_message \<Rightarrow> 'a node_details_scheme \<Rightarrow> 'a node_details_scheme vfs_op" where
  "fill_node_dev m res =
     seq (fill_node m res) (\<lambda>res'. seq (fetch m RES_DEV) (\<lambda>d. ret (res'\<lparr>nd_dev := d\<rparr>)))"

section \<open>Data transfer\<close>

definition rw_access :: "bool \<Rightarrow> access list" where
  "rw_access reading = (if reading then [CPF_WRITE] else [CPF_READ])"

definition req_breadwrite :: "env \<Rightarrow> int \<Rightarrow> int \<Rightarrow> int \<Rightarrow> int \<Rightarrow> int \<Rightarrow> int \<Rightarrow> bool \<Rightarrow> (int \<times> (int \<times> int) option) vfs_op" where
  "req_breadwrite env fs_e user_e dev pos num_of_bytes user_addr reading =
     seq (granted env (Magic fs_e user_e (Address user_addr) num_of_bytes (rw_access reading))) (\<lambda>grant_id.
     seq (send_revoke env fs_e ((if reading then REQ_BREAD else REQ_BWRITE) (VFS_BASE env))
            [(REQ_DEV2, dev), (REQ_GRANT, grant_id), (REQ_SEEK_POS_LO, ex64lo env pos),
             (REQ_SEEK_POS_HI, ex64hi env pos), (REQ_NBYTES, num_of_bytes)] [grant_id]) (\<lambda>(r, m).
       if r \<noteq> OK then ret (r, None)
       else seq (fetch m RES_SEEK_POS_LO) (\<lambda>lo. seq (fetch m RES_SEEK_POS_HI) (\<lambda>hi.
            seq (fetch m RES_NBYTES) (\<lambda>n. ret (OK, Some (make64 env lo hi, n)))))))"

definition req_readwrite :: "env \<Rightarrow> int \<Rightarrow> int \<Rightarrow> int \<Rightarrow> bool \<Rightarrow> int \<Rightarrow> int \<Rightarrow> int \<Rightarrow> (int \<times> (int \<times> int) option) vfs_op" where
  "req_readwrite env fs_e inode_nr pos reading user_e user_addr num_of_bytes =
     (if ex64hi env pos \<noteq> 0 then fail Panic
      else
        seq (granted env (Magic fs_e user_e (Address user_addr) num_of_bytes (rw_access reading))) (\<lambda>grant_id.
        seq (send_revoke env fs_e ((if reading then REQ_READ else REQ_WRITE) (VFS_BASE env))
               [(REQ_INODE_NR, inode_nr), (REQ_GRANT, grant_id), (REQ_SEEK_POS_LO, ex64lo env pos),
                (REQ_SEEK_POS_HI, 0), (REQ_NBYTES, num_of_bytes)] [grant_id]) (\<lambda>(r, m).
          if r = OK then
            seq (fetch m RES_SEEK_POS_LO) (\<lambda>lo. seq (fetch m RES_NBYTES) (\<lambda>n.
              ret (r, Some (cvul64 env lo, n))))
          else ret (r, None))))"

text \<open>getdents panics on any negative grant id; \<open>who_e\<close> is the global of VFS.\<close>

definition req_getdents :: "env \<Rightarrow> int \<Rightarrow> int \<Rightarrow> int \<Rightarrow> int \<Rightarrow> int \<Rightarrow> int \<Rightarrow> bool \<Rightarrow> (int \<times> int option) vfs_op" where
  "req_getdents env who_e fs_e inode_nr pos addr len direct =
     seq (cpf_grant env (if direct then Direct fs_e (Address addr) len [CPF_WRITE]
                         else Magic fs_e who_e (Address addr) len [CPF_WRITE])) (\<lambda>grant_id.
     if grant_id < 0 then fail Panic
     else
       seq (send_revoke env fs_e (REQ_GETDENTS (VFS_BASE env))
              [(REQ_INODE_NR, inode_nr), (REQ_GRANT, grant_id), (REQ_MEM_SIZE, len),
               (REQ_SEEK_POS_LO, ex64lo env pos), (REQ_SEEK_POS_HI, 0)] [grant_id]) (\<lambda>(r, m).
         if r = OK then
           seq (fetch m RES_SEEK_POS_LO) (\<lambda>lo. seq (fetch m RES_NBYTES) (\<lambda>n. ret (n, Some (cvul64 env lo))))
         else ret (r, None)))"

definition req_rdlink :: "env \<Rightarrow> int \<Rightarrow> int \<Rightarrow> int \<Rightarrow> int \<Rightarrow> int \<Rightarrow> bool \<Rightarrow> int vfs_op" where
  "req_rdlink env fs_e inode_nr proc_e addr len direct =
     seq (granted env (if direct then Direct fs_e (Address addr) len [CPF_WRITE]
                       else Magic fs_e proc_e (Address addr) len [CPF_WRITE])) (\<lambda>grant_id.
     seq (send_revoke env fs_e (REQ_RDLINK (VFS_BASE env))
            [(REQ_INODE_NR, inode_nr), (REQ_GRANT, grant_id), (REQ_MEM_SIZE, len)] [grant_id]) (\<lambda>(r, m).
       if r = OK then fetch m RES_NBYTES else ret r))"

section \<open>Attributes\<close>

definition req_chmod :: "env \<Rightarrow> int \<Rightarrow> int \<Rightarrow> int \<Rightarrow> (int \<times> int) vfs_op" where
  "req_chmod env fs_e inode_nr rmode =
     seq (send env fs_e (REQ_CHMOD (VFS_BASE env)) [(REQ_INODE_NR, inode_nr), (REQ_MODE, rmode)]) (\<lambda>(r, m).
     seq (fetch m RES_MODE) (\<lambda>new_mode. ret (r, new_mode)))"

definition req_chown :: "env \<Rightarrow> int \<Rightarrow> int \<Rightarrow> int \<Rightarrow> int \<Rightarrow> (int \<times> int) vfs_op" where
  "req_chown env fs_e inode_nr newuid newgid =
     seq (send env fs_e (REQ_CHOWN (VFS_BASE env))
            [(REQ_INODE_NR, inode_nr), (REQ_UID, newuid), (REQ_GID, newgid)]) (\<lambda>(r, m).
     seq (fetch m RES_MODE) (\<lambda>new_mode. ret (r, new_mode)))"

definition req_utime :: "env \<Rightarrow> int \<Rightarrow> int \<Rightarrow> int \<Rightarrow> int \<Rightarrow> int vfs_op" where
  "req_utime env fs_e inode_nr actime modtime =
     send_only env fs_e (REQ_UTIME (VFS_BASE env))
       [(REQ_INODE_NR, inode_nr), (REQ_ACTIME, actime), (REQ_MODTIME, modtime)]"

definition req_ftrunc :: "env \<Rightarrow> int \<Rightarrow> int \<Rightarrow> int \<Rightarrow> int \<Rightarrow> int vfs_op" where
  "req_ftrunc env fs_e inode_nr start_pos end_pos =
     send_only env fs_e (REQ_FTRUNC (VFS_BASE env))
       [(REQ_INODE_NR, inode_nr), (REQ_TRC_START_LO, start_pos), (REQ_TRC_START_HI, 0),
        (REQ_TRC_END_LO, end_pos), (REQ_TRC_END_HI, 0)]"

text \<open>
  stat: the file system writes into the buffer sb of VFS when the size has to be corrected or
  the caller wants the old layout, and straight to the caller otherwise.
\<close>

definition req_stat :: "env \<Rightarrow> int \<Rightarrow> int \<Rightarrow> int \<Rightarrow> int \<Rightarrow> int \<Rightarrow> int \<Rightarrow> int vfs_op" where
  "req_stat env fs_e inode_nr proc_e buf pos stat_version =
     seq (cpf_grant env (if pos \<noteq> 0 \<or> stat_version \<noteq> 0
                         then Direct fs_e Stat_buffer (sizeof_stat env) [CPF_WRITE]
                         else Magic fs_e proc_e (Address buf) (sizeof_stat env) [CPF_WRITE])) (\<lambda>grant_id.
     if grant_id < 0 then fail Panic
     else
       seq (send_revoke env fs_e (REQ_STAT (VFS_BASE env))
              [(REQ_INODE_NR, inode_nr), (REQ_GRANT, grant_id)] [grant_id]) (\<lambda>(r, m).
         if r \<noteq> OK \<or> (pos = 0 \<and> stat_version = 0) then ret r
         else seq (read_stat env) (\<lambda>sb.
           let sb' = (if pos \<noteq> 0 then sb\<lparr>st_size := st_size sb - pos\<rparr> else sb)
           in if stat_version = 0 then sys_vircopy env proc_e buf (Stat sb')
              else if stat_version = 1 then sys_vircopy env proc_e buf (Minix_prev_stat sb')
              else fail Panic)))"

definition req_fstatfs :: "env \<Rightarrow> int \<Rightarrow> int \<Rightarrow> int \<Rightarrow> int vfs_op" where
  "req_fstatfs env fs_e proc_e buf =
     seq (granted env (Magic fs_e proc_e (Address buf) (sizeof_statfs env) [CPF_WRITE])) (\<lambda>grant_id.
     seq (send_revoke env fs_e (REQ_FSTATFS (VFS_BASE env)) [(REQ_GRANT, grant_id)] [grant_id]) (\<lambda>(r, m). ret r))"

definition req_statvfs :: "env \<Rightarrow> int \<Rightarrow> int \<Rightarrow> int \<Rightarrow> int vfs_op" where
  "req_statvfs env fs_e proc_e buf =
     seq (granted env (Magic fs_e proc_e (Address buf) (sizeof_statvfs env) [CPF_WRITE])) (\<lambda>grant_id.
     seq (send_revoke env fs_e (REQ_STATVFS (VFS_BASE env)) [(REQ_GRANT, grant_id)] [grant_id]) (\<lambda>(r, m). ret r))"

section \<open>Names and directories\<close>

definition req_create ::
    "env \<Rightarrow> int \<Rightarrow> int \<Rightarrow> int \<Rightarrow> int \<Rightarrow> int \<Rightarrow> string \<Rightarrow> node_details \<Rightarrow> (int \<times> node_details) vfs_op" where
  "req_create env fs_e inode_nr omode uid gid path res =
     (if path \<noteq> [] \<and> hd path = CHR ''/'' then fail Panic
      else
        seq (granted env (string_grant fs_e path)) (\<lambda>grant_id.
        seq (send_revoke env fs_e (REQ_CREATE (VFS_BASE env))
               [(REQ_INODE_NR, inode_nr), (REQ_MODE, omode), (REQ_UID, uid), (REQ_GID, gid),
                (REQ_GRANT, grant_id), (REQ_PATH_LEN, strsize path)] [grant_id]) (\<lambda>(r, m).
          if r \<noteq> OK then ret (r, res) else seq (fill_node_dev m res) (\<lambda>res'. ret (OK, res')))))"

definition req_link :: "env \<Rightarrow> int \<Rightarrow> int \<Rightarrow> string \<Rightarrow> int \<Rightarrow> int vfs_op" where
  "req_link env fs_e link_parent lastc linked_file =
     seq (granted env (string_grant fs_e lastc)) (\<lambda>grant_id.
     seq (send_revoke env fs_e (REQ_LINK (VFS_BASE env))
            [(REQ_INODE_NR, linked_file), (REQ_DIR_INO, link_parent), (REQ_GRANT, grant_id),
             (REQ_PATH_LEN, strsize lastc)] [grant_id]) (\<lambda>(r, m). ret r))"

definition req_mkdir :: "env \<Rightarrow> int \<Rightarrow> int \<Rightarrow> string \<Rightarrow> int \<Rightarrow> int \<Rightarrow> int \<Rightarrow> int vfs_op" where
  "req_mkdir env fs_e inode_nr lastc uid gid dmode =
     seq (granted env (string_grant fs_e lastc)) (\<lambda>grant_id.
     seq (send_revoke env fs_e (REQ_MKDIR (VFS_BASE env))
            [(REQ_INODE_NR, inode_nr), (REQ_MODE, dmode), (REQ_UID, uid), (REQ_GID, gid),
             (REQ_GRANT, grant_id), (REQ_PATH_LEN, strsize lastc)] [grant_id]) (\<lambda>(r, m). ret r))"

definition req_mknod :: "env \<Rightarrow> int \<Rightarrow> int \<Rightarrow> string \<Rightarrow> int \<Rightarrow> int \<Rightarrow> int \<Rightarrow> int \<Rightarrow> int vfs_op" where
  "req_mknod env fs_e inode_nr lastc uid gid dmode dev =
     seq (granted env (string_grant fs_e lastc)) (\<lambda>grant_id.
     seq (send_revoke env fs_e (REQ_MKNOD (VFS_BASE env))
            [(REQ_INODE_NR, inode_nr), (REQ_MODE, dmode), (REQ_DEV, dev), (REQ_UID, uid), (REQ_GID, gid),
             (REQ_GRANT, grant_id), (REQ_PATH_LEN, strsize lastc)] [grant_id]) (\<lambda>(r, m). ret r))"

definition req_newnode :: "env \<Rightarrow> int \<Rightarrow> int \<Rightarrow> int \<Rightarrow> int \<Rightarrow> int \<Rightarrow> node_details \<Rightarrow> (int \<times> node_details) vfs_op" where
  "req_newnode env fs_e uid gid dmode dev res =
     seq (send env fs_e (REQ_NEWNODE (VFS_BASE env))
            [(REQ_MODE, dmode), (REQ_DEV, dev), (REQ_UID, uid), (REQ_GID, gid)]) (\<lambda>(r, m).
     seq (fill_node_dev m res) (\<lambda>res'. ret (r, res')))"

definition req_rmdir :: "env \<Rightarrow> int \<Rightarrow> int \<Rightarrow> string \<Rightarrow> int vfs_op" where
  "req_rmdir env fs_e inode_nr lastc =
     seq (granted env (string_grant fs_e lastc)) (\<lambda>grant_id.
     seq (send_revoke env fs_e (REQ_RMDIR (VFS_BASE env))
            [(REQ_INODE_NR, inode_nr), (REQ_GRANT, grant_id), (REQ_PATH_LEN, strsize lastc)] [grant_id]) (\<lambda>(r, m). ret r))"

definition req_unlink :: "env \<Rightarrow> int \<Rightarrow> int \<Rightarrow> string \<Rightarrow> int vfs_op" where
  "req_unlink env fs_e inode_nr lastc =
     seq (granted env (string_grant fs_e lastc)) (\<lambda>grant_id.
     seq (send_revoke env fs_e (REQ_UNLINK (VFS_BASE env))
            [(REQ_INODE_NR, inode_nr), (REQ_GRANT, grant_id), (REQ_PATH_LEN, strsize lastc)] [grant_id]) (\<lambda>(r, m). ret r))"

definition req_rename :: "env \<Rightarrow> int \<Rightarrow> int \<Rightarrow> string \<Rightarrow> int \<Rightarrow> string \<Rightarrow> int vfs_op" where
  "req_rename env fs_e old_dir old_name new_dir new_name =
     seq (granted env (string_grant fs_e old_name)) (\<lambda>gid_old.
     seq (granted env (string_grant fs_e new_name)) (\<lambda>gid_new.
     seq (send_revoke env fs_e (REQ_RENAME (VFS_BASE env))
            [(REQ_REN_OLD_DIR, old_dir), (REQ_REN_NEW_DIR, new_dir), (REQ_REN_GRANT_OLD, gid_old),
             (REQ_REN_LEN_OLD, strsize old_name), (REQ_REN_GRANT_NEW, gid_new),
             (REQ_REN_LEN_NEW, strsize new_name)] [gid_old, gid_new]) (\<lambda>(r, m). ret r)))"

definition req_slink :: "env \<Rightarrow> int \<Rightarrow> int \<Rightarrow> string \<Rightarrow> int \<Rightarrow> int \<Rightarrow> int \<Rightarrow> int \<Rightarrow> int \<Rightarrow> int vfs_op" where
  "req_slink env fs_e inode_nr lastc proc_e path_addr path_length uid gid =
     seq (granted env (string_grant fs_e lastc)) (\<lambda>gid_name.
     seq (cpf_grant env (Magic fs_e proc_e (Address path_addr) path_length [CPF_READ])) (\<lambda>gid_buf.
     if gid_buf = -1 then seq (cpf_revoke gid_name) (\<lambda>_. fail Panic)
     else
       seq (send_revoke env fs_e (REQ_SLINK (VFS_BASE env))
              [(REQ_INODE_NR, inode_nr), (REQ_UID, uid), (REQ_GID, gid), (REQ_GRANT, gid_name),
               (REQ_PATH_LEN, strsize lastc), (REQ_GRANT3, gid_buf), (REQ_MEM_SIZE, path_length)]
              [gid_name, gid_buf]) (\<lambda>(r, m). ret r)))"

section \<open>Path lookup\<close>

text \<open>The groups of the process are copied into an array of NGROUPS_MAX entries.\<close>

definition credentials :: "env \<Rightarrow> fproc \<Rightarrow> vfs_ucred res" where
  "credentials env rfp =
     (if NGROUPS_MAX env < nat (fp_ngroups rfp) then Inl BufferOverflow
      else if length (fp_sgroups rfp) < nat (fp_ngroups rfp) then Inl OutOfBounds
      else Inr \<lparr>vu_uid = fp_effuid rfp, vu_gid = fp_effgid rfp, vu_ngroups = fp_ngroups rfp,
                vu_sgroups = take (nat (fp_ngroups rfp)) (fp_sgroups rfp)\<rparr>)"

text \<open>What the answer says: the file, or how far the path was followed.\<close>

definition fill_lookup :: "int \<Rightarrow> fs_message \<Rightarrow> lookup_res \<Rightarrow> lookup_res vfs_op" where
  "fill_lookup r m res =
     (if r = OK then fill_node_dev m res
      else seq (fetch_source m) (\<lambda>e.
        if r = EENTERMOUNT then
          seq (fetch m RES_INODE_NR) (\<lambda>i. seq (fetch m RES_OFFSET) (\<lambda>n. seq (fetch m RES_SYMLOOP) (\<lambda>l.
            ret (res\<lparr>nd_fs_e := e, nd_inode_nr := i, char_processed := n, symloop := l\<rparr>))))
        else if r = ELEAVEMOUNT \<or> r = ESYMLINK then
          seq (fetch m RES_OFFSET) (\<lambda>n. seq (fetch m RES_SYMLOOP) (\<lambda>l.
            ret (res\<lparr>nd_fs_e := e, char_processed := n, symloop := l\<rparr>)))
        else ret (res\<lparr>nd_fs_e := e\<rparr>)))"

definition req_lookup ::
    "env \<Rightarrow> int \<Rightarrow> int \<Rightarrow> int \<Rightarrow> int \<Rightarrow> int \<Rightarrow> lookup \<Rightarrow> lookup_res \<Rightarrow> fproc \<Rightarrow> (int \<times> lookup_res) vfs_op" where
  "req_lookup env fs_e dir_ino root_ino uid gid resolve res rfp =
     seq (granted env (Direct fs_e (Str (l_path resolve)) (PATH_MAX env) [CPF_READ, CPF_WRITE])) (\<lambda>grant_id.
     let path_fields =
           [(REQ_GRANT, grant_id), (REQ_PATH_LEN, strsize (l_path resolve)),
            (REQ_PATH_SIZE, PATH_MAX env + 1), (REQ_DIR_INO, dir_ino), (REQ_ROOT_INO, root_ino)]
     in seq (if fp_ngroups rfp > 0 then
               (case credentials env rfp of
                  Inl e \<Rightarrow> fail e
                | Inr cred \<Rightarrow>
                    seq (granted env (Direct fs_e (Credentials cred) (sizeof_ucred env) [CPF_READ])) (\<lambda>grant_id2.
                      send_revoke env fs_e (REQ_LOOKUP (VFS_BASE env))
                        (path_fields @ [(REQ_GRANT2, grant_id2), (REQ_UCRED_SIZE, sizeof_ucred env),
                                        (REQ_FLAGS, l_flags resolve OR PATH_GET_UCRED)])
                        [grant_id, grant_id2]))
             else
               send_revoke env fs_e (REQ_LOOKUP (VFS_BASE env))
                 (path_fields @ [(REQ_UID, uid), (REQ_GID, gid),
                                 (REQ_FLAGS, l_flags resolve AND NOT PATH_GET_UCRED)])
                 [grant_id]) (\<lambda>(r, m).
          seq (fill_lookup r m res) (\<lambda>res'. ret (r, res'))))"

section \<open>Mounting and file system state\<close>

definition req_newdriver :: "env \<Rightarrow> int \<Rightarrow> int \<Rightarrow> string \<Rightarrow> int vfs_op" where
  "req_newdriver env fs_e dev label =
     seq (granted env (string_grant fs_e label)) (\<lambda>grant_id.
     seq (send_revoke env fs_e (REQ_NEW_DRIVER (VFS_BASE env))
            [(REQ_DEV, dev), (REQ_GRANT, grant_id), (REQ_PATH_LEN, strsize label)] [grant_id]) (\<lambda>(r, m). ret r))"

text \<open>The answer's node is copied out without its device; the last value is con_reqs.\<close>

definition req_readsuper ::
    "env \<Rightarrow> int \<Rightarrow> string \<Rightarrow> int \<Rightarrow> bool \<Rightarrow> bool \<Rightarrow> node_details \<Rightarrow> (int \<times> node_details \<times> int option) vfs_op" where
  "req_readsuper env fs_e label dev readonly isroot res_node =
     seq (granted env (string_grant fs_e label)) (\<lambda>grant_id.
     seq (send_revoke env fs_e (REQ_READSUPER (VFS_BASE env))
            [(REQ_FLAGS, (if readonly then REQ_RDONLY else 0) OR (if isroot then REQ_ISROOT else 0)),
             (REQ_GRANT, grant_id), (REQ_DEV, dev), (REQ_PATH_LEN, strsize label)] [grant_id]) (\<lambda>(r, m).
       if r = OK then
         seq (fill_node m res_node) (\<lambda>res'. seq (fetch m RES_CONREQS) (\<lambda>c. ret (r, res', Some c)))
       else ret (r, res_node, None)))"

definition req_flush :: "env \<Rightarrow> int \<Rightarrow> int \<Rightarrow> int vfs_op" where
  "req_flush env fs_e dev = send_only env fs_e (REQ_FLUSH (VFS_BASE env)) [(REQ_DEV, dev)]"

definition req_inhibread :: "env \<Rightarrow> int \<Rightarrow> int \<Rightarrow> int vfs_op" where
  "req_inhibread env fs_e inode_nr =
     send_only env fs_e (REQ_INHIBREAD (VFS_BASE env)) [(REQ_INODE_NR, inode_nr)]"

definition req_mountpoint :: "env \<Rightarrow> int \<Rightarrow> int \<Rightarrow> int vfs_op" where
  "req_mountpoint env fs_e inode_nr =
     send_only env fs_e (REQ_MOUNTPOINT (VFS_BASE env)) [(REQ_INODE_NR, inode_nr)]"

definition req_putnode :: "env \<Rightarrow> int \<Rightarrow> int \<Rightarrow> int \<Rightarrow> int vfs_op" where
  "req_putnode env fs_e inode_nr count =
     send_only env fs_e (REQ_PUTNODE (VFS_BASE env)) [(REQ_INODE_NR, inode_nr), (REQ_COUNT, count)]"

definition req_sync :: "env \<Rightarrow> int \<Rightarrow> int vfs_op" where
  "req_sync env fs_e = send_only env fs_e (REQ_SYNC (VFS_BASE env)) []"

definition req_unmount :: "env \<Rightarrow> int \<Rightarrow> int vfs_op" where
  "req_unmount env fs_e = send_only env fs_e (REQ_UNMOUNT (VFS_BASE env)) []"

section \<open>File system tool\<close>

definition req_inode_blocks :: "env \<Rightarrow> int \<Rightarrow> int \<Rightarrow> int \<Rightarrow> int vfs_op" where
  "req_inode_blocks env fs_e inode_nr dev =
     send_only env fs_e (REQ_GETINODEBLOCKS (VFS_BASE env)) [(REQ_INODE_NR, inode_nr), (REQ_DEV, dev)]"

definition req_int_frag :: "env \<Rightarrow> int \<Rightarrow> int \<Rightarrow> int \<Rightarrow> int vfs_op" where
  "req_int_frag env fs_e inode_nr dev =
     send_only env fs_e (REQ_INT_FRAG (VFS_BASE env)) [(REQ_INODE_NR, inode_nr), (REQ_DEV, dev)]"

definition req_frag :: "env \<Rightarrow> int \<Rightarrow> int vfs_op" where
  "req_frag env fs_e = send_only env fs_e (REQ_EXTFRAG (VFS_BASE env)) []"

lemmas grant_requests =
  req_breadwrite_def req_readwrite_def req_getdents_def req_rdlink_def req_fstatfs_def req_statvfs_def
  req_create_def req_link_def req_mkdir_def req_mknod_def req_rmdir_def req_unlink_def req_newdriver_def
  req_readsuper_def

lemmas plain_requests =
  req_utime_def req_ftrunc_def req_flush_def req_inhibread_def req_mountpoint_def req_putnode_def
  req_sync_def req_unmount_def req_inode_blocks_def req_int_frag_def req_frag_def

section \<open>Fields and slots\<close>

definition fits :: "(msg_slot \<Rightarrow> nat) \<Rightarrow> msg_slot \<Rightarrow> int \<Rightarrow> bool" where
  "fits bits s v \<longleftrightarrow> 0 < bits s \<and> -(2 ^ (bits s - 1)) \<le> v \<and> v < 2 ^ (bits s - 1)"

lemma fits_stored: "fits bits s v \<Longrightarrow> signed_take_bit (bits s - 1) v = v"
  by (auto simp: fits_def signed_take_bit_int_eq_self)

lemma put_other: "t \<noteq> s \<Longrightarrow> m9 (put bits s v m) t = m9 m t"
  by (simp add: put_def)

lemma fold_put_other:
  "s \<notin> fst ` set fs \<Longrightarrow> m9 (fold (\<lambda>(s, v). put bits s v) fs m) s = m9 m s"
  by (induction fs arbitrary: m) (auto simp: put_other)

lemma fold_put_at:
  "distinct (map fst fs) \<Longrightarrow> (s, v) \<in> set fs \<Longrightarrow>
     m9 (fold (\<lambda>(s, v). put bits s v) fs m) s = Some (signed_take_bit (bits s - 1) v)"
  by (induction fs arbitrary: m) (auto simp: fold_put_other put_def rev_image_eqI)

lemma request_at:
  "distinct (map fst fs) \<Longrightarrow> (s, v) \<in> set fs \<Longrightarrow> fits bits s v \<Longrightarrow> m9 (request bits t fs) s = Some v"
  unfolding request_def by (simp only: fold_put_at fits_stored)

lemma request_unset: "s \<notin> fst ` set fs \<Longrightarrow> m9 (request bits t fs) s = None"
  by (simp add: request_def fold_put_other)

lemma fold_put_type: "m_type (fold (\<lambda>(s, v). put bits s v) fs m) = m_type m"
  by (induction fs arbitrary: m) (auto simp: put_def)

lemma request_type: "m_type (request bits t fs) = Some t"
  by (simp add: request_def fold_put_type)

section \<open>Grants in use\<close>

fun use_grant :: "event \<Rightarrow> int set \<Rightarrow> int set" where
  "use_grant (Granted gid g) L = insert gid L"
| "use_grant (Revoked gid) L = L - {gid}"
| "use_grant (Sent e m) L = L"
| "use_grant (Copied p b d) L = L"

definition live_grants :: "event list \<Rightarrow> int set" where
  "live_grants tr = fold use_grant tr {}"

lemma live_snoc [simp]: "live_grants (tr @ [e]) = use_grant e (live_grants tr)"
  by (simp add: live_grants_def)

text \<open>The one thing VFS relies on: an id in use is not handed out again (nor is -1 an id).\<close>

definition fresh_grants :: "env \<Rightarrow> bool" where
  "fresh_grants env \<longleftrightarrow> (\<forall>tr g. grant_answer env tr g \<notin> live_grants tr)"

text \<open>\<open>drops G c\<close>: what c leaves in use is what was in use before, less the ids in G.\<close>

definition drops :: "int set \<Rightarrow> 'a vfs_op \<Rightarrow> bool" where
  "drops G c \<longleftrightarrow> (\<forall>tr x tr'. c tr = Inr (x, tr') \<longrightarrow> live_grants tr' = live_grants tr - G)"

named_theorems drops_rules "which grants an operation gives back"

lemma drops_ret [drops_rules]: "drops {} (ret x)"
  by (simp add: drops_def ret_def)

lemma drops_fail [drops_rules]: "drops G (fail e)"
  by (simp add: drops_def fail_def)

lemma drops_fetch [drops_rules]: "drops {} (fetch m s)" "drops {} (fetch_source m)"
  by (auto simp: drops_def fetch_def fetch_source_def ret_def fail_def split: option.splits)

lemma drops_seq: "drops A c \<Longrightarrow> (\<And>x. drops B (f x)) \<Longrightarrow> drops (A \<union> B) (seq c f)"
  by (fastforce simp: drops_def seq_def bnd_eq_Inr)

lemma keeps_seq [drops_rules]: "drops {} c \<Longrightarrow> (\<And>x. drops {} (f x)) \<Longrightarrow> drops {} (seq c f)"
  using drops_seq [of "{}" c "{}" f] by simp

lemma drops_revoke [drops_rules]: "drops {gid} (cpf_revoke gid)"
  by (auto simp: drops_def cpf_revoke_def)

lemma drops_revoke_fail [drops_rules]: "drops G (seq (cpf_revoke gid) (\<lambda>_. fail e))"
  by (simp add: drops_def seq_def cpf_revoke_def fail_def)

lemma drops_read_stat [drops_rules]: "drops {} (read_stat env)"
  by (simp add: drops_def read_stat_def)

lemma drops_vircopy [drops_rules]: "drops {} (sys_vircopy env p b d)"
  by (auto simp: drops_def sys_vircopy_def)

lemma drops_send [drops_rules]: "drops {} (send env fs_e t fs)"
  by (auto simp: drops_def send_def fs_sendrec_def)

lemma drops_send_only [drops_rules]: "drops {} (send_only env fs_e t fs)"
  unfolding send_only_def by (intro drops_rules) (auto intro: drops_rules)

lemma drops_revokes: "drops (set gids) (foldr (\<lambda>g k. seq (cpf_revoke g) (\<lambda>_. k)) gids (ret r))"
proof (induction gids)
  case (Cons g gids)
  from drops_seq [OF drops_revoke this] show ?case by simp
qed (simp add: drops_ret)

lemma drops_send_revoke: "drops (set gids) (send_revoke env fs_e t fs gids)"
  using drops_seq [OF drops_send drops_revokes] unfolding send_revoke_def by simp

lemma drops_answered:
  assumes "set gids = G" and "\<And>r m. drops {} (f (r, m))"
  shows "drops G (seq (send_revoke env fs_e t fs gids) f)"
proof -
  have "drops (set gids \<union> {}) (seq (send_revoke env fs_e t fs gids) f)"
    by (rule drops_seq [OF drops_send_revoke]) (use assms(2) in auto)
  with assms(1) show ?thesis by simp
qed

lemma drops_cpf_grant:
  assumes "fresh_grants env" and "\<And>gid. drops (insert gid A) (f gid)"
  shows "drops A (seq (cpf_grant env g) f)"
  unfolding drops_def
proof (intro allI impI)
  fix tr x tr' assume run: "seq (cpf_grant env g) f tr = Inr (x, tr')"
  let ?gid = "grant_answer env tr g"
  let ?tr1 = "if ?gid = -1 then tr else tr @ [Granted ?gid g]"
  have "f ?gid ?tr1 = Inr (x, tr')" using run by (simp add: seq_def cpf_grant_def Let_def)
  then have "live_grants tr' = live_grants ?tr1 - insert ?gid A" using assms(2) by (simp add: drops_def)
  moreover have "?gid \<notin> live_grants tr" using assms(1) by (simp add: fresh_grants_def)
  ultimately show "live_grants tr' = live_grants tr - A" by (auto split: if_splits)
qed

lemma drops_granted:
  assumes "fresh_grants env" and "\<And>gid. drops (insert gid A) (f gid)"
  shows "drops A (seq (granted env g) f)"
proof -
  have "seq (granted env g) f = seq (cpf_grant env g) (\<lambda>gid. if gid = -1 then fail Panic else f gid)"
    by (auto simp: fun_eq_iff granted_def seq_def ret_def fail_def cpf_grant_def Let_def)
  moreover have "drops A (seq (cpf_grant env g) (\<lambda>gid. if gid = -1 then fail Panic else f gid))"
    by (rule drops_cpf_grant [OF assms(1)]) (simp add: assms(2) drops_fail)
  ultimately show ?thesis by simp
qed

lemma drops_fill [drops_rules]: "drops {} (fill_node m res)" "drops {} (fill_node_dev m res)" "drops {} (fill_lookup r m lres)"
  unfolding fill_node_def fill_node_dev_def fill_lookup_def
  by (auto intro!: drops_rules)

lemma balanced_plain:
  "drops {} (req_chmod env fs_e i md)" "drops {} (req_chown env fs_e i u g)"
  "drops {} (req_newnode env fs_e u g md dev nd)"
  unfolding req_chmod_def req_chown_def req_newnode_def by (auto intro!: drops_rules)

lemma balanced_plain':
  "drops {} (req_utime env fs_e i a b)" "drops {} (req_ftrunc env fs_e i a b)" "drops {} (req_flush env fs_e dev)"
  "drops {} (req_inhibread env fs_e i)" "drops {} (req_mountpoint env fs_e i)" "drops {} (req_putnode env fs_e i n)"
  "drops {} (req_sync env fs_e)" "drops {} (req_unmount env fs_e)" "drops {} (req_inode_blocks env fs_e i dev)"
  "drops {} (req_int_frag env fs_e i dev)" "drops {} (req_frag env fs_e)"
  unfolding plain_requests by (rule drops_send_only)+

lemma balanced_data:
  assumes "fresh_grants env"
  shows "drops {} (req_breadwrite env fs_e ue dev pos n a w)" "drops {} (req_readwrite env fs_e i pos w ue a n)"
    "drops {} (req_getdents env we fs_e i pos a n d)" "drops {} (req_rdlink env fs_e i pe a n d)"
  unfolding req_breadwrite_def req_readwrite_def req_getdents_def req_rdlink_def
  by (auto intro!: drops_granted [OF assms] drops_cpf_grant [OF assms] drops_answered drops_rules)

lemma balanced_names:
  assumes "fresh_grants env"
  shows "drops {} (req_create env fs_e i om u g path res)" "drops {} (req_link env fs_e i s j)"
    "drops {} (req_mkdir env fs_e i s u g md)" "drops {} (req_mknod env fs_e i s u g md dev)"
    "drops {} (req_rmdir env fs_e i s)" "drops {} (req_unlink env fs_e i s)"
    "drops {} (req_rename env fs_e i s j t)" "drops {} (req_slink env fs_e i s pe a n u g)"
  unfolding req_create_def req_link_def req_mkdir_def req_mknod_def req_rmdir_def req_unlink_def
    req_rename_def req_slink_def
  by (auto intro!: drops_granted [OF assms] drops_cpf_grant [OF assms] drops_answered drops_rules)

lemma balanced_system:
  assumes "fresh_grants env"
  shows "drops {} (req_fstatfs env fs_e pe a)" "drops {} (req_statvfs env fs_e pe a)"
    "drops {} (req_newdriver env fs_e dev s)" "drops {} (req_readsuper env fs_e s dev ro ir nd)"
    "drops {} (req_stat env fs_e i pe a pos v)"
  unfolding req_fstatfs_def req_statvfs_def req_newdriver_def req_readsuper_def req_stat_def Let_def
  by (auto intro!: drops_granted [OF assms] drops_cpf_grant [OF assms] drops_answered drops_rules)

lemma balanced_lookup:
  assumes "fresh_grants env"
  shows "drops {} (req_lookup env fs_e d r u g lk res rfp)"
proof -
  have send1: "drops {gid} (send_revoke env fs_e t fs [gid])" for gid t fs
    using drops_send_revoke [of "[gid]"] by simp
  have send2: "drops {gid2, gid} (send_revoke env fs_e t fs [gid, gid2])" for gid gid2 t fs
    using drops_send_revoke [of "[gid, gid2]"] by (simp add: insert_commute)
  have cred: "drops {gid} (seq (granted env gr) (\<lambda>gid2. send_revoke env fs_e t (fs gid2) [gid, gid2]))" for gid gr t fs
    by (rule drops_granted [OF assms]) (rule send2)
  have "drops ({gid} \<union> {}) (seq c (\<lambda>(r, m). seq (fill_lookup r m res) (\<lambda>res'. ret (r, res'))))"
    if "drops {gid} c" for gid c
    by (rule drops_seq [OF that]) (auto intro!: drops_rules)
  then have fin: "drops {gid} (seq c (\<lambda>(r, m). seq (fill_lookup r m res) (\<lambda>res'. ret (r, res'))))"
    if "drops {gid} c" for gid c using that by simp
  show ?thesis unfolding req_lookup_def Let_def
    by (intro drops_granted [OF assms] fin)
      (auto simp: send1 cred drops_fail split: sum.split)
qed

section \<open>Running a request\<close>

lemma seq_Inr: "c tr = Inr (x, tr') \<Longrightarrow> seq c f tr = f x tr'"
  by (simp add: seq_def)

lemma granted_run:
  "grant_answer env tr g \<noteq> -1 \<Longrightarrow>
     granted env g tr = Inr (grant_answer env tr g, tr @ [Granted (grant_answer env tr g) g])"
  by (simp add: granted_def seq_def cpf_grant_def Let_def ret_def)

lemma granted_panic: "grant_answer env tr g = -1 \<Longrightarrow> seq (granted env g) f tr = Inl Panic"
  by (simp add: granted_def seq_def cpf_grant_def Let_def fail_def)

lemma send_only_run:
  "send_only env fs_e t fs tr =
     Inr (fst (fs_answer env tr fs_e (request (slot_bits env) t fs)), tr @ [Sent fs_e (request (slot_bits env) t fs)])"
  by (simp add: send_only_def send_def fs_sendrec_def seq_def ret_def split: prod.splits)

lemma revokes_run: "foldr (\<lambda>g k. seq (cpf_revoke g) (\<lambda>_. k)) gids (ret r) tr = Inr (r, tr @ map Revoked gids)"
  by (induction gids arbitrary: tr) (simp_all add: ret_def seq_def cpf_revoke_def)

lemma send_revoke_run:
  "send_revoke env fs_e t fs gids tr =
     Inr (fs_answer env tr fs_e (request (slot_bits env) t fs),
          tr @ Sent fs_e (request (slot_bits env) t fs) # map Revoked gids)"
proof -
  have r: "send env fs_e t fs tr = Inr (fs_answer env tr fs_e (request (slot_bits env) t fs),
      tr @ [Sent fs_e (request (slot_bits env) t fs)])"
    by (simp add: send_def fs_sendrec_def)
  show ?thesis
    by (simp add: send_revoke_def revokes_run seq_Inr [where c = "send env fs_e t fs", OF r])
qed

lemma seq_granted:
  "grant_answer env tr g = gid \<Longrightarrow> gid \<noteq> -1 \<Longrightarrow> seq (granted env g) f tr = f gid (tr @ [Granted gid g])"
  using granted_run [of env tr g] by (simp add: seq_Inr [where c = "granted env g"])

text \<open>A request that returned had its grant.\<close>

lemma granted_elim:
  assumes "seq (granted env g) f tr = Inr y"
  obtains gid where "gid = grant_answer env tr g" and "gid \<noteq> -1" and "f gid (tr @ [Granted gid g]) = Inr y"
proof (cases "grant_answer env tr g = -1")
  case True
  from granted_panic [OF this, of f] assms show ?thesis by simp
next
  case False
  from assms False that show ?thesis
    by (simp add: seq_Inr [where c = "granted env g", OF granted_run [OF False]])
qed

lemma cpf_grant_elim:
  assumes "seq (cpf_grant env g) f tr = Inr y" and "f (-1) tr = Inr y \<Longrightarrow> False"
  obtains gid where "gid \<noteq> -1" and "f gid (tr @ [Granted gid g]) = Inr y"
  using assms that by (auto simp: seq_def cpf_grant_def Let_def split: if_splits)

lemma answered_run:
  "seq (send_revoke env fs_e t fs gids) (\<lambda>(r, m). ret r) tr =
     Inr (fst (fs_answer env tr fs_e (request (slot_bits env) t fs)),
          tr @ Sent fs_e (request (slot_bits env) t fs) # map Revoked gids)"
  by (simp add: seq_Inr [where c = "send_revoke env fs_e t fs gids", OF send_revoke_run] ret_def
      split: prod.splits)

text \<open>Copying the answer out is no event.\<close>

definition silent :: "'a vfs_op \<Rightarrow> bool" where
  "silent c \<longleftrightarrow> (\<forall>tr x tr'. c tr = Inr (x, tr') \<longrightarrow> tr' = tr)"

lemma silent_basic [intro]: "silent (ret x)" "silent (fail e)" "silent (fetch m s)" "silent (fetch_source m)"
  by (auto simp: silent_def ret_def fail_def fetch_def fetch_source_def split: option.splits)

lemma silent_seq [intro]: "silent c \<Longrightarrow> (\<And>x. silent (f x)) \<Longrightarrow> silent (seq c f)"
  by (fastforce simp: silent_def seq_def bnd_eq_Inr)

lemma silent_fill: "silent (fill_lookup r m res)"
  unfolding fill_lookup_def fill_node_dev_def fill_node_def by (auto intro!: silent_seq silent_basic)

lemma silent_answer:
  assumes "seq (send_revoke env fs_e t fs gids) f tr = Inr (x, tr')" and "\<And>r m. silent (f (r, m))"
  shows "tr' = tr @ Sent fs_e (request (slot_bits env) t fs) # map Revoked gids"
proof -
  obtain r m where "fs_answer env tr fs_e (request (slot_bits env) t fs) = (r, m)" by fastforce
  then have "f (r, m) (tr @ Sent fs_e (request (slot_bits env) t fs) # map Revoked gids) = Inr (x, tr')"
    using assms(1) by (simp add: seq_Inr [where c = "send_revoke env fs_e t fs gids", OF send_revoke_run])
  with assms(2) [of r m] show ?thesis unfolding silent_def by blast
qed

lemma seq_assoc: "seq (seq c f) g = seq c (\<lambda>x. seq (f x) g)"
proof
  show "seq (seq c f) g tr = seq c (\<lambda>x. seq (f x) g) tr" for tr
    by (cases "c tr") (auto simp: seq_def)
qed

text \<open>A value arrives in a msg_slot it fits.\<close>

definition arrives :: "env \<Rightarrow> fs_message \<Rightarrow> msg_slot \<Rightarrow> int \<Rightarrow> bool" where
  "arrives env m s v \<longleftrightarrow> (fits (slot_bits env) s v \<longrightarrow> m9 m s = Some v)"

lemma arrives_request:
  "distinct (map fst fs) \<Longrightarrow> \<forall>(s, v) \<in> set fs. arrives env (request (slot_bits env) t fs) s v"
  by (auto simp: arrives_def request_at)

section \<open>Properties\<close>

text \<open>
  C28. Every request gives back the grants it made, on every path on which it returns, whatever
  the file system answers: the ids in use afterwards are those in use before. This needs only
  that a grant id in use is not handed out again.
\<close>

theorem grants_given_back:
  assumes "fresh_grants env"
  shows "drops {} (req_breadwrite env fs_e ue dev pos n a w) \<and>
    drops {} (req_readwrite env fs_e i pos w ue a n) \<and>
    drops {} (req_getdents env we fs_e i pos a n d) \<and>
    drops {} (req_rdlink env fs_e i pe a n d) \<and>
    drops {} (req_create env fs_e i om u g s nd) \<and>
    drops {} (req_link env fs_e i s j) \<and>
    drops {} (req_mkdir env fs_e i s u g md) \<and>
    drops {} (req_mknod env fs_e i s u g md dev) \<and>
    drops {} (req_rmdir env fs_e i s) \<and>
    drops {} (req_unlink env fs_e i s) \<and>
    drops {} (req_rename env fs_e i s j t) \<and>
    drops {} (req_slink env fs_e i s pe a n u g) \<and>
    drops {} (req_fstatfs env fs_e pe a) \<and>
    drops {} (req_statvfs env fs_e pe a) \<and>
    drops {} (req_newdriver env fs_e dev s) \<and>
    drops {} (req_readsuper env fs_e s dev ro ir nd) \<and>
    drops {} (req_stat env fs_e i pe a off v) \<and>
    drops {} (req_lookup env fs_e i j u g lk res rfp) \<and>
    drops {} (req_chmod env fs_e i md) \<and>
    drops {} (req_chown env fs_e i u g) \<and>
    drops {} (req_newnode env fs_e u g md dev nd)"
  by (intro conjI) (rule balanced_data [OF assms] balanced_names [OF assms] balanced_system [OF assms]
    balanced_lookup [OF assms] balanced_plain)+

fun top_id :: "event list \<Rightarrow> int" where
  "top_id [] = 0"
| "top_id (Granted gid g # tr) = max gid (top_id tr)"
| "top_id (e # tr) = top_id tr"

definition demo_env :: env where
  "demo_env = \<lparr>slot_bits = \<lambda>s. if s \<in> {m9_s1, m9_s2, m9_s3, m9_s4} then 16 else 32, VFS_BASE = 2560,
     PATH_MAX = 1024, NGROUPS_MAX = 8, sizeof_statfs = 64, sizeof_statvfs = 64, sizeof_stat = 96,
     sizeof_ucred = 44, ex64lo = \<lambda>n. n mod 2 ^ 32, ex64hi = \<lambda>n. n div 2 ^ 32,
     make64 = \<lambda>lo hi. hi * 2 ^ 32 + lo, cvul64 = \<lambda>n. n, grant_answer = \<lambda>tr g. top_id tr + 1,
     fs_answer = \<lambda>tr fs_e m. (0, m\<lparr>m_source := Some fs_e, m9 := \<lambda>s. Some 7\<rparr>),
     stat_answer = \<lambda>tr. \<lparr>st_dev = 1, st_ino = 2, st_mode = 3, st_nlink = 1, st_uid = 0, st_gid = 0,
       st_rdev = 0, st_size = 100, st_atime = 0, st_mtime = 0, st_ctime = 0\<rparr>,
     vircopy_answer = \<lambda>tr. 0\<rparr>"

lemma top_id_snoc: "top_id (tr @ [e]) = (case e of Granted gid g \<Rightarrow> max gid (top_id tr) | _ \<Rightarrow> top_id tr)"
  by (induction tr rule: top_id.induct) (auto split: event.splits)

lemma live_top: "gid \<in> live_grants tr \<Longrightarrow> gid \<le> top_id tr"
proof (induction tr rule: rev_induct)
  case (snoc e tr)
  then show ?case by (cases e) (auto simp: top_id_snoc)
qed (simp add: live_grants_def)

lemma demo_fresh: "fresh_grants demo_env"
  using live_top by (fastforce simp: fresh_grants_def demo_env_def)

lemma demo_unlink:
  "\<exists>tr'. req_unlink demo_env 5 1 ''x'' [] = Inr (0, tr') \<and> length tr' = 3"
proof -
  have g: "grant_answer demo_env [] (string_grant 5 ''x'') = 1" by (simp add: demo_env_def)
  have a: "fst (fs_answer demo_env tr e m) = 0" for tr e m by (simp add: demo_env_def)
  show ?thesis by (simp add: req_unlink_def seq_granted [OF g] answered_run a)
qed

theorem grants_given_back_witness:
  "\<exists>tr'. req_unlink demo_env 5 1 ''x'' [] = Inr (0, tr') \<and> live_grants tr' = {}"
proof -
  obtain tr' where r: "req_unlink demo_env 5 1 ''x'' [] = Inr (0, tr')" using demo_unlink by blast
  have "drops {} (req_unlink demo_env 5 1 ''x'')" by (rule grants_given_back [OF demo_fresh, THEN conjunct2, THEN conjunct2, THEN conjunct2, THEN conjunct2,
        THEN conjunct2, THEN conjunct2, THEN conjunct2, THEN conjunct2, THEN conjunct2, THEN conjunct1])
  then have "live_grants tr' = live_grants [] - {}" using r unfolding drops_def by blast
  with r show ?thesis by (auto simp: live_grants_def)
qed

text \<open>
  C29. rename, which uses most slots: a call that returns has granted both names, sent one
  fs_message in which every argument arrives (as long as it fits the msg_slot of its field), and
  revoked both grants before it returned the answer.
\<close>

theorem rename_protocol:
  assumes "req_rename env fs_e old_dir old_name new_dir new_name tr = Inr (r, tr')"
  shows "\<exists>g1 g2 m. tr' = tr @ [Granted g1 (string_grant fs_e old_name), Granted g2 (string_grant fs_e new_name),
        Sent fs_e m, Revoked g1, Revoked g2] \<and>
      r = fst (fs_answer env (take (length tr + 2) tr') fs_e m) \<and> m_type m = Some (REQ_RENAME (VFS_BASE env)) \<and>
      arrives env m REQ_REN_OLD_DIR old_dir \<and> arrives env m REQ_REN_NEW_DIR new_dir \<and>
      arrives env m REQ_REN_GRANT_OLD g1 \<and> arrives env m REQ_REN_LEN_OLD (strsize old_name) \<and>
      arrives env m REQ_REN_GRANT_NEW g2 \<and> arrives env m REQ_REN_LEN_NEW (strsize new_name)"
proof -
  obtain g1 g2 where "seq (send_revoke env fs_e (REQ_RENAME (VFS_BASE env))
            [(REQ_REN_OLD_DIR, old_dir), (REQ_REN_NEW_DIR, new_dir), (REQ_REN_GRANT_OLD, g1),
             (REQ_REN_LEN_OLD, strsize old_name), (REQ_REN_GRANT_NEW, g2),
             (REQ_REN_LEN_NEW, strsize new_name)] [g1, g2]) (\<lambda>(r, m). ret r)
        ((tr @ [Granted g1 (string_grant fs_e old_name)]) @ [Granted g2 (string_grant fs_e new_name)]) = Inr (r, tr')"
    using assms unfolding req_rename_def by (elim granted_elim)
  note run = this [unfolded answered_run]
  let ?fs = "[(REQ_REN_OLD_DIR, old_dir), (REQ_REN_NEW_DIR, new_dir), (REQ_REN_GRANT_OLD, g1),
      (REQ_REN_LEN_OLD, strsize old_name), (REQ_REN_GRANT_NEW, g2), (REQ_REN_LEN_NEW, strsize new_name)]"
  let ?m = "request (slot_bits env) (REQ_RENAME (VFS_BASE env)) ?fs"
  have "distinct (map fst ?fs)" by (simp add: field_slots)
  from arrives_request [OF this] run request_type show ?thesis
    by (intro exI [of _ g1] exI [of _ g2] exI [of _ ?m]) auto
qed

lemma demo_rename:
  "\<exists>tr'. req_rename demo_env 5 2 ''a'' 3 ''bc'' [] = Inr (0, tr')"
proof -
  have g1: "grant_answer demo_env [] (string_grant 5 ''a'') = 1" by (simp add: demo_env_def)
  have g2: "grant_answer demo_env [Granted 1 (string_grant 5 ''a'')] (string_grant 5 ''bc'') = 2"
    by (simp add: demo_env_def)
  have a: "fst (fs_answer demo_env tr e m) = 0" for tr e m by (simp add: demo_env_def)
  show ?thesis by (simp add: req_rename_def seq_granted [OF g1] seq_granted [OF g2] answered_run a)
qed

theorem rename_protocol_witness:
  "\<exists>g1 g2 m tr'. req_rename demo_env 5 2 ''a'' 3 ''bc'' [] = Inr (0, tr') \<and>
     tr' = [Granted g1 (string_grant 5 ''a''), Granted g2 (string_grant 5 ''bc''), Sent 5 m, Revoked g1, Revoked g2] \<and>
     m9 m REQ_REN_NEW_DIR = Some 3 \<and> m9 m REQ_REN_LEN_NEW = Some 3"
proof -
  obtain tr' where r: "req_rename demo_env 5 2 ''a'' 3 ''bc'' [] = Inr (0, tr')" using demo_rename by blast
  have f: "fits (slot_bits demo_env) REQ_REN_NEW_DIR 3" "fits (slot_bits demo_env) REQ_REN_LEN_NEW 3"
    by (simp_all add: fits_def demo_env_def field_slots)
  from rename_protocol [OF r] obtain g1 g2 m where
    "tr' = [Granted g1 (string_grant 5 ''a''), Granted g2 (string_grant 5 ''bc''), Sent 5 m, Revoked g1, Revoked g2]"
    "arrives demo_env m REQ_REN_NEW_DIR 3" "arrives demo_env m REQ_REN_LEN_NEW (strsize ''bc'')" by auto
  with r f show ?thesis by (auto simp: arrives_def strsize_def)
qed

text \<open>
  lookup tells the file system who asks: a process in several groups has its credentials
  granted as a second buffer, revoked again with the first, and flagged; the user and group
  ids go into the message otherwise, with the flag cleared.
\<close>

theorem lookup_credentials:
  assumes "req_lookup env fs_e dir_ino root_ino uid gid resolve res rfp tr = Inr ((r, res'), tr')"
  shows "\<exists>g m. arrives env m REQ_GRANT g \<and> arrives env m REQ_PATH_LEN (strsize (l_path resolve)) \<and>
      arrives env m REQ_DIR_INO dir_ino \<and> arrives env m REQ_ROOT_INO root_ino \<and>
      (let path = Granted g (Direct fs_e (Str (l_path resolve)) (PATH_MAX env) [CPF_READ, CPF_WRITE])
       in if fp_ngroups rfp > 0 then
            \<exists>g2 cred. credentials env rfp = Inr cred \<and> arrives env m REQ_GRANT2 g2 \<and>
              arrives env m REQ_FLAGS (l_flags resolve OR PATH_GET_UCRED) \<and>
              tr' = tr @ [path, Granted g2 (Direct fs_e (Credentials cred) (sizeof_ucred env) [CPF_READ]),
                          Sent fs_e m, Revoked g, Revoked g2]
          else arrives env m REQ_UID uid \<and> arrives env m REQ_GID gid \<and>
              arrives env m REQ_FLAGS (l_flags resolve AND NOT PATH_GET_UCRED) \<and>
              tr' = tr @ [path, Sent fs_e m, Revoked g])"
proof -
  let ?path = "\<lambda>g. Granted g (Direct fs_e (Str (l_path resolve)) (PATH_MAX env) [CPF_READ, CPF_WRITE])"
  let ?pf = "\<lambda>g. [(REQ_GRANT, g), (REQ_PATH_LEN, strsize (l_path resolve)), (REQ_PATH_SIZE, PATH_MAX env + 1),
      (REQ_DIR_INO, dir_ino), (REQ_ROOT_INO, root_ino)]"
  let ?m = "request (slot_bits env) (REQ_LOOKUP (VFS_BASE env))"
  let ?fin = "\<lambda>(r, m). seq (fill_lookup r m res) (\<lambda>res'. ret (r, res'))"
  have sil: "silent (?fin (r, m))" for r m using silent_fill by auto
  show ?thesis
  proof (cases "fp_ngroups rfp > 0")
    case True
    let ?fs = "\<lambda>g g2. ?pf g @ [(REQ_GRANT2, g2), (REQ_UCRED_SIZE, sizeof_ucred env),
        (REQ_FLAGS, l_flags resolve OR PATH_GET_UCRED)]"
    from assms True obtain g cred where c: "credentials env rfp = Inr cred" and
      "seq (seq (granted env (Direct fs_e (Credentials cred) (sizeof_ucred env) [CPF_READ])) (\<lambda>g2.
         send_revoke env fs_e (REQ_LOOKUP (VFS_BASE env)) (?fs g g2) [g, g2])) ?fin (tr @ [?path g]) = Inr ((r, res'), tr')"
      unfolding req_lookup_def Let_def
      by (elim granted_elim) (auto simp: seq_def fail_def split: sum.splits)
    then obtain g2 where "seq (send_revoke env fs_e (REQ_LOOKUP (VFS_BASE env)) (?fs g g2) [g, g2]) ?fin
        ((tr @ [?path g]) @ [Granted g2 (Direct fs_e (Credentials cred) (sizeof_ucred env) [CPF_READ])]) = Inr ((r, res'), tr')"
      unfolding seq_assoc by (elim granted_elim)
    from silent_answer [OF this sil] have e: "tr' = tr @ [?path g,
        Granted g2 (Direct fs_e (Credentials cred) (sizeof_ucred env) [CPF_READ]),
        Sent fs_e (?m (?fs g g2)), Revoked g, Revoked g2]" by simp
    have "distinct (map fst (?fs g g2))" by (simp add: field_slots)
    from arrives_request [OF this, of env "REQ_LOOKUP (VFS_BASE env)"] True c e show ?thesis
      by (intro exI [of _ g] exI [of _ "?m (?fs g g2)"]) (auto simp: Let_def)
  next
    case False
    let ?fs = "\<lambda>g. ?pf g @ [(REQ_UID, uid), (REQ_GID, gid), (REQ_FLAGS, l_flags resolve AND NOT PATH_GET_UCRED)]"
    from assms False obtain g where
      "seq (send_revoke env fs_e (REQ_LOOKUP (VFS_BASE env)) (?fs g) [g]) ?fin (tr @ [?path g]) = Inr ((r, res'), tr')"
      unfolding req_lookup_def Let_def by (elim granted_elim) auto
    from silent_answer [OF this sil] have e: "tr' = tr @ [?path g, Sent fs_e (?m (?fs g)), Revoked g]" by simp
    have "distinct (map fst (?fs g))" by (simp add: field_slots)
    from arrives_request [OF this, of env "REQ_LOOKUP (VFS_BASE env)"] False e show ?thesis
      by (intro exI [of _ g] exI [of _ "?m (?fs g)"]) (auto simp: Let_def)
  qed
qed

definition demo_member :: fproc where
  "demo_member = \<lparr>fp_effuid = 3, fp_effgid = 4, fp_ngroups = 2, fp_sgroups = [4, 7]\<rparr>"

definition demo_path :: lookup where
  "demo_path = \<lparr>l_path = ''usr/x'', l_flags = PATH_RET_SYMLINK\<rparr>"

definition demo_result :: lookup_res where
  "demo_result = \<lparr>nd_fs_e = 0, nd_inode_nr = 0, nd_fmode = 0, nd_fsize = 0, nd_uid = 0, nd_gid = 0, nd_dev = 0,
     char_processed = 0, symloop = 0\<rparr>"

lemma demo_lookup:
  "\<exists>r res' tr'. req_lookup demo_env 5 10 1 0 0 demo_path demo_result demo_member [] = Inr ((r, res'), tr')"
proof -
  let ?g1 = "Direct 5 (Str ''usr/x'') 1024 [CPF_READ, CPF_WRITE]"
  have g1: "grant_answer demo_env [] ?g1 = 1" by (simp add: demo_env_def)
  have g2: "grant_answer demo_env [Granted 1 ?g1] g = 2" for g by (simp add: demo_env_def)
  have a: "fs_answer demo_env tr e m = (0, m\<lparr>m_source := Some e, m9 := \<lambda>s. Some 7\<rparr>)" for tr e m
    by (simp add: demo_env_def)
  have p: "PATH_MAX demo_env = 1024" "NGROUPS_MAX demo_env = 8" by (simp_all add: demo_env_def)
  have sr: "seq (send_revoke env e t fs gids) f tr = f (fs_answer env tr e (request (slot_bits env) t fs))
      (tr @ Sent e (request (slot_bits env) t fs) # map Revoked gids)"
    for env e t fs gids tr and f :: "int \<times> fs_message \<Rightarrow> 'b vfs_op"
    by (rule seq_Inr [OF send_revoke_run])
  have k: "seq (fetch (m\<lparr>m_source := Some e, m9 := \<lambda>s. Some 7\<rparr>) s) f tr = f 7 tr"
    "seq (fetch_source (m\<lparr>m_source := Some e, m9 := \<lambda>s. Some 7\<rparr>)) f' tr = f' e tr"
    for m e s tr and f f' :: "int \<Rightarrow> 'b vfs_op"
    by (simp_all add: seq_def fetch_def fetch_source_def ret_def)
  have r: "seq (ret x) f = f x" for x :: 'b and f :: "'b \<Rightarrow> 'c vfs_op"
    by (simp add: seq_def ret_def)
  show ?thesis
    by (simp add: req_lookup_def demo_path_def demo_member_def p seq_granted [OF g1] seq_granted [OF g2]
        credentials_def seq_assoc sr a fill_lookup_def fill_node_dev_def fill_node_def k r)
      (simp add: ret_def)
qed

theorem lookup_credentials_witness:
  "\<exists>r res' tr' m g g2. req_lookup demo_env 5 10 1 0 0 demo_path demo_result demo_member [] = Inr ((r, res'), tr') \<and>
     Sent 5 m \<in> set tr' \<and> m9 m REQ_FLAGS = Some 24 \<and> Revoked g \<in> set tr' \<and> Revoked g2 \<in> set tr'"
proof -
  obtain r res' tr' where run: "req_lookup demo_env 5 10 1 0 0 demo_path demo_result demo_member [] = Inr ((r, res'), tr')"
    using demo_lookup by blast
  have f: "l_flags demo_path OR PATH_GET_UCRED = 24" "fp_ngroups demo_member > 0"
    "fits (slot_bits demo_env) REQ_FLAGS 24"
    by (simp_all add: demo_path_def PATH_RET_SYMLINK_def PATH_GET_UCRED_def demo_member_def fits_def demo_env_def field_slots)
  from lookup_credentials [OF run] f show ?thesis using run by (auto simp: Let_def arrives_def)
qed

text \<open>
  The requests of the file system tool reach their handlers: the message of each is
  dispatched through the table of MFS to the handler of that name and by the other two file
  systems to no_sys, it carries what the caller gave it, and nothing else: REQ_COUNT, which
  fs_get_int_frag reads, is not set.
\<close>

theorem tool_requests_dispatched:
  "(\<exists>m. req_frag env fs_e tr = Inr (fst (fs_answer env tr fs_e m), tr @ [Sent fs_e m]) \<and>
      mfs_call_vec ! nat (the (m_type m) - VFS_BASE env) = ''fs_getfrag'') \<and>
   (\<exists>m. req_inode_blocks env fs_e inode_nr dev tr = Inr (fst (fs_answer env tr fs_e m), tr @ [Sent fs_e m]) \<and>
      mfs_call_vec ! nat (the (m_type m) - VFS_BASE env) = ''fs_get_inode_blocks'' \<and>
      arrives env m REQ_INODE_NR inode_nr \<and> arrives env m REQ_DEV dev) \<and>
   (\<exists>m. req_int_frag env fs_e inode_nr dev tr = Inr (fst (fs_answer env tr fs_e m), tr @ [Sent fs_e m]) \<and>
      mfs_call_vec ! nat (the (m_type m) - VFS_BASE env) = ''fs_get_int_frag'' \<and>
      arrives env m REQ_INODE_NR inode_nr \<and> arrives env m REQ_DEV dev \<and> m9 m REQ_COUNT = None) \<and>
   map (\<lambda>n. (hgfs_call_vec ! nat n, vtreefs_call_vec ! nat n)) [REQ_EXTFRAG 0, REQ_GETINODEBLOCKS 0, REQ_INT_FRAG 0] =
     replicate 3 (''no_sys'', ''no_sys'') \<and>
   length mfs_call_vec = NREQS \<and> length hgfs_call_vec = NREQS \<and> length vtreefs_call_vec = NREQS"
proof -
  let ?fs = "[(REQ_INODE_NR, inode_nr), (REQ_DEV, dev)]"
  have d: "distinct (map fst ?fs)" by (simp add: field_slots)
  have f: "arrives env (request (slot_bits env) t ?fs) REQ_INODE_NR inode_nr"
    "arrives env (request (slot_bits env) t ?fs) REQ_DEV dev" for t
    using arrives_request [OF d, of env t] by simp_all
  have c: "m9 (request (slot_bits env) t ?fs) REQ_COUNT = None" for t
    by (rule request_unset) (simp add: field_slots)
  have n: "nat (REQ_EXTFRAG 0) = 33" "nat (REQ_GETINODEBLOCKS 0) = 34" "nat (REQ_INT_FRAG 0) = 35"
    "nat (REQ_EXTFRAG b - b) = 33" "nat (REQ_GETINODEBLOCKS b - b) = 34" "nat (REQ_INT_FRAG b - b) = 35" for b
    by (simp_all add: request_numbers)
  have v: "mfs_call_vec ! 33 = ''fs_getfrag''" "mfs_call_vec ! 34 = ''fs_get_inode_blocks''"
    "mfs_call_vec ! 35 = ''fs_get_int_frag''" "hgfs_call_vec ! 33 = ''no_sys''" "hgfs_call_vec ! 34 = ''no_sys''"
    "hgfs_call_vec ! 35 = ''no_sys''" "vtreefs_call_vec ! 33 = ''no_sys''" "vtreefs_call_vec ! 34 = ''no_sys''"
    "vtreefs_call_vec ! 35 = ''no_sys''"
    by (simp_all add: mfs_call_vec_def hgfs_call_vec_def vtreefs_call_vec_def)
  have l: "length mfs_call_vec = NREQS" "length hgfs_call_vec = NREQS" "length vtreefs_call_vec = NREQS"
    by (simp_all add: mfs_call_vec_def hgfs_call_vec_def vtreefs_call_vec_def NREQS_def)
  have a: "\<exists>m. req_frag env fs_e tr = Inr (fst (fs_answer env tr fs_e m), tr @ [Sent fs_e m]) \<and>
      mfs_call_vec ! nat (the (m_type m) - VFS_BASE env) = ''fs_getfrag''"
    by (rule exI [of _ "request (slot_bits env) (REQ_EXTFRAG (VFS_BASE env)) []"])
      (simp add: req_frag_def send_only_run request_type n v)
  have b: "\<exists>m. req_inode_blocks env fs_e inode_nr dev tr = Inr (fst (fs_answer env tr fs_e m), tr @ [Sent fs_e m]) \<and>
      mfs_call_vec ! nat (the (m_type m) - VFS_BASE env) = ''fs_get_inode_blocks'' \<and>
      arrives env m REQ_INODE_NR inode_nr \<and> arrives env m REQ_DEV dev"
    by (rule exI [of _ "request (slot_bits env) (REQ_GETINODEBLOCKS (VFS_BASE env)) ?fs"])
      (simp add: req_inode_blocks_def send_only_run request_type n v f)
  have e: "\<exists>m. req_int_frag env fs_e inode_nr dev tr = Inr (fst (fs_answer env tr fs_e m), tr @ [Sent fs_e m]) \<and>
      mfs_call_vec ! nat (the (m_type m) - VFS_BASE env) = ''fs_get_int_frag'' \<and>
      arrives env m REQ_INODE_NR inode_nr \<and> arrives env m REQ_DEV dev \<and> m9 m REQ_COUNT = None"
    by (rule exI [of _ "request (slot_bits env) (REQ_INT_FRAG (VFS_BASE env)) ?fs"])
      (simp add: req_int_frag_def send_only_run request_type n v f c)
  show ?thesis using a b e l by (simp add: n v numeral_3_eq_3)
qed

end
