(* ===== verification/VfsTool.thy ===== *)
theory VfsTool
  imports VfsRequest
begin

text \<open>
  The system calls of the file system tool (prj_3/src/fs_tool.c): do_fileinfo lists who has a
  file open and asks the file system about its blocks or its fragmentation, do_fraginfo asks
  about the fragmentation of the whole file system. What fetch_name and eat_path find is a
  parameter, and so is the process table.
\<close>

unbundle bit_operations_syntax

section \<open>The process table\<close>

text \<open>A vnode is known by its address; \<open>filp_vno\<close> is the one an open file refers to.\<close>

record filp =
  filp_vno :: int
  filp_mode :: int

record process =
  fp_pid :: int
  fp_filp :: "filp option list"

record vnode =
  v_addr :: int
  v_fs_e :: int
  v_inode_nr :: int
  v_dev :: int

text \<open>The array pid_info, of NR_PROCS integers, what is printed, and the count.\<close>

record open_acc =
  pid_info :: "int list"
  openers :: "(int \<times> int) list"
  f_open_count :: nat

definition store_pair :: "int \<Rightarrow> int \<Rightarrow> open_acc \<Rightarrow> open_acc res" where
  "store_pair x y acc =
     bnd (wr (pid_info acc) (2 * int (f_open_count acc)) x) (\<lambda>a.
     bnd (wr a (2 * int (f_open_count acc) + 1) y) (\<lambda>b. Inr (acc\<lparr>pid_info := b\<rparr>)))"

fun filp_loop :: "int \<Rightarrow> int \<Rightarrow> filp option list \<Rightarrow> open_acc \<Rightarrow> open_acc res" where
  "filp_loop vp pid [] acc = Inr acc"
| "filp_loop vp pid (None # fs) acc = filp_loop vp pid fs acc"
| "filp_loop vp pid (Some f # fs) acc =
     (if filp_vno f = vp then
        bnd (store_pair pid (filp_mode f) acc) (\<lambda>acc'.
          filp_loop vp pid fs (acc'\<lparr>openers := openers acc' @ [(pid, filp_mode f)],
                                   f_open_count := f_open_count acc' + 1\<rparr>))
      else filp_loop vp pid fs acc)"

text \<open>A terminator is written behind the entries after every process.\<close>

fun proc_loop :: "int \<Rightarrow> process list \<Rightarrow> open_acc \<Rightarrow> open_acc res" where
  "proc_loop vp [] acc = Inr acc"
| "proc_loop vp (p # ps) acc =
     (if fp_pid p = 0 then proc_loop vp ps acc
      else bnd (filp_loop vp (fp_pid p) (fp_filp p) acc) (\<lambda>acc1.
           bnd (store_pair (-1) (-1) acc1) (\<lambda>acc2. proc_loop vp ps acc2)))"

section \<open>The system calls\<close>

text \<open>
  What the call does: its answer, the processes it prints (when asked), and whether the vnode
  and the mount are unlocked again.
\<close>

record tool_out =
  tool_answer :: int
  listed :: "(int \<times> int) list option"
  unlocked :: bool

text \<open>\<open>path\<close> is the file eat_path finds, or the error code of fetch_name or eat_path.\<close>

definition do_fileinfo :: "env \<Rightarrow> process list \<Rightarrow> int list \<Rightarrow> int + vnode \<Rightarrow> int \<Rightarrow> tool_out vfs_op" where
  "do_fileinfo env fproc junk path op_mode =
     (case path of
        Inl err_code \<Rightarrow> ret \<lparr>tool_answer = err_code, listed = None, unlocked = False\<rparr>
      | Inr vp \<Rightarrow>
          seq (if op_mode AND 1 = 1 then
                 (case proc_loop (v_addr vp) fproc \<lparr>pid_info = junk, openers = [], f_open_count = 0\<rparr> of
                    Inl e \<Rightarrow> fail e | Inr acc \<Rightarrow> ret (Some (openers acc)))
               else ret None) (\<lambda>who.
          seq (if op_mode AND 2 = 2 then req_inode_blocks env (v_fs_e vp) (v_inode_nr vp) (v_dev vp) else ret OK) (\<lambda>r1.
          seq (if op_mode AND 4 = 4 then req_int_frag env (v_fs_e vp) (v_inode_nr vp) (v_dev vp) else ret r1) (\<lambda>r2.
            ret \<lparr>tool_answer = r2, listed = who, unlocked = True\<rparr>))))"

text \<open>The tool_answer of the file system is dropped.\<close>

definition do_fraginfo :: "env \<Rightarrow> int + vnode \<Rightarrow> tool_out vfs_op" where
  "do_fraginfo env path =
     (case path of
        Inl err_code \<Rightarrow> ret \<lparr>tool_answer = err_code, listed = None, unlocked = False\<rparr>
      | Inr vp \<Rightarrow>
          seq (req_frag env (v_fs_e vp)) (\<lambda>r. ret \<lparr>tool_answer = OK, listed = None, unlocked = True\<rparr>))"

section \<open>Who has the file open\<close>

definition opens_of :: "int \<Rightarrow> process \<Rightarrow> (int \<times> int) list" where
  "opens_of vp p = (if fp_pid p = 0 then []
     else map (\<lambda>f. (fp_pid p, filp_mode f)) (filter (\<lambda>f. filp_vno f = vp) (List.map_filter id (fp_filp p))))"

definition all_opens :: "int \<Rightarrow> process list \<Rightarrow> (int \<times> int) list" where
  "all_opens vp ps = concat (map (opens_of vp) ps)"

definition filp_opens :: "int \<Rightarrow> int \<Rightarrow> filp option list \<Rightarrow> (int \<times> int) list" where
  "filp_opens vp pid fs = map (\<lambda>f. (pid, filp_mode f)) (filter (\<lambda>f. filp_vno f = vp) (List.map_filter id fs))"

lemma filp_opens_simps [simp]:
  "filp_opens vp pid [] = []" "filp_opens vp pid (None # fs) = filp_opens vp pid fs"
  "filp_opens vp pid (Some f # fs) =
     (if filp_vno f = vp then (pid, filp_mode f) # filp_opens vp pid fs else filp_opens vp pid fs)"
  by (simp_all add: filp_opens_def map_filter_simps)

lemma all_opens_simps [simp]:
  "all_opens vp [] = []"
  "all_opens vp (p # ps) = (if fp_pid p = 0 then all_opens vp ps else filp_opens vp (fp_pid p) (fp_filp p) @ all_opens vp ps)"
  by (simp_all add: all_opens_def opens_of_def filp_opens_def)

text \<open>\<open>n\<close> is the size of pid_info.\<close>

lemma store_pair_run:
  "length (pid_info acc) = n \<Longrightarrow> 2 * f_open_count acc + 2 \<le> n \<Longrightarrow>
     \<exists>info. store_pair x y acc = Inr (acc\<lparr>pid_info := info\<rparr>) \<and> length info = n"
  unfolding store_pair_def wr_def
  by (intro exI [of _ "(pid_info acc)[nat (2 * int (f_open_count acc)) := x, nat (2 * int (f_open_count acc) + 1) := y]"]) simp

lemma store_pair_fault:
  "length (pid_info acc) = n \<Longrightarrow> n < 2 * f_open_count acc + 2 \<Longrightarrow> store_pair x y acc = Inl OutOfBounds"
  by (auto simp: store_pair_def wr_def)

lemma filp_loop_run:
  "length (pid_info acc) = n \<Longrightarrow> 2 * (f_open_count acc + length (filp_opens vp pid fs)) \<le> n \<Longrightarrow>
     \<exists>info. filp_loop vp pid fs acc = Inr \<lparr>pid_info = info, openers = openers acc @ filp_opens vp pid fs,
       f_open_count = f_open_count acc + length (filp_opens vp pid fs)\<rparr> \<and> length info = n"
proof (induction vp pid fs acc rule: filp_loop.induct)
  case (1 vp pid acc)
  then show ?case by (intro exI [of _ "pid_info acc"]) simp
next
  case (3 vp pid f fs acc)
  show ?case
  proof (cases "filp_vno f = vp")
    case True
    with "3.prems" have c: "2 * f_open_count acc + 2 \<le> n" by simp
    obtain info where s: "store_pair pid (filp_mode f) acc = Inr (acc\<lparr>pid_info := info\<rparr>)" "length info = n"
      using store_pair_run [OF "3.prems"(1) c] by blast
    from "3.IH"(1) [OF True s(1)] s "3.prems" True show ?thesis by simp
  qed (use 3 in simp)
qed auto

lemma filp_loop_idle: "filp_opens vp pid fs = [] \<Longrightarrow> filp_loop vp pid fs acc = Inr acc"
  by (induction vp pid fs acc rule: filp_loop.induct) (auto split: if_splits)

lemma filp_loop_fault:
  "length (pid_info acc) = n \<Longrightarrow> filp_opens vp pid fs \<noteq> [] \<Longrightarrow>
     n < 2 * (f_open_count acc + length (filp_opens vp pid fs)) \<Longrightarrow> filp_loop vp pid fs acc = Inl OutOfBounds"
proof (induction vp pid fs acc rule: filp_loop.induct)
  case (3 vp pid f fs acc)
  show ?case
  proof (cases "filp_vno f = vp")
    case True
    show ?thesis
    proof (cases "n < 2 * f_open_count acc + 2")
      case False
      then obtain info where s: "store_pair pid (filp_mode f) acc = Inr (acc\<lparr>pid_info := info\<rparr>)" "length info = n"
        using store_pair_run [OF "3.prems"(1)] by (metis not_less)
      have "filp_opens vp pid fs \<noteq> []" using False "3.prems"(3) True by auto
      with "3.IH"(1) [OF True s(1)] s "3.prems" True show ?thesis by simp
    qed (use True store_pair_fault [OF "3.prems"(1)] in simp)
  qed (use 3 in simp)
qed auto

lemma proc_loop_idle: "\<forall>p\<in>set ps. fp_pid p = 0 \<Longrightarrow> proc_loop vp ps acc = Inr acc \<and> all_opens vp ps = []"
  by (induction ps) auto

lemma proc_loop_run:
  "length (pid_info acc) = n \<Longrightarrow> 2 * (f_open_count acc + length (all_opens vp ps)) + 2 \<le> n \<Longrightarrow>
     \<exists>acc'. proc_loop vp ps acc = Inr acc' \<and> openers acc' = openers acc @ all_opens vp ps"
proof (induction ps arbitrary: acc)
  case (Cons p ps)
  show ?case
  proof (cases "fp_pid p = 0")
    case False
    let ?new = "filp_opens vp (fp_pid p) (fp_filp p)"
    have "2 * (f_open_count acc + length ?new) \<le> n" using Cons.prems(2) False by simp
    then obtain info where f: "filp_loop vp (fp_pid p) (fp_filp p) acc = Inr \<lparr>pid_info = info,
        openers = openers acc @ ?new, f_open_count = f_open_count acc + length ?new\<rparr>" "length info = n"
      using filp_loop_run [OF Cons.prems(1)] by blast
    let ?acc1 = "\<lparr>pid_info = info, openers = openers acc @ ?new, f_open_count = f_open_count acc + length ?new\<rparr>"
    have "2 * f_open_count ?acc1 + 2 \<le> n" using Cons.prems(2) False by simp
    then obtain info2 where s: "store_pair (-1) (-1) ?acc1 = Inr (?acc1\<lparr>pid_info := info2\<rparr>)" "length info2 = n"
      using store_pair_run [of ?acc1 n] f(2) by auto
    show ?thesis using Cons.IH [of "?acc1\<lparr>pid_info := info2\<rparr>"] Cons.prems False f(1) s by simp
  qed (use Cons in simp)
qed simp

lemma proc_loop_fault:
  "length (pid_info acc) = n \<Longrightarrow> \<exists>p\<in>set ps. fp_pid p \<noteq> 0 \<Longrightarrow>
     n < 2 * (f_open_count acc + length (all_opens vp ps)) + 2 \<Longrightarrow> proc_loop vp ps acc = Inl OutOfBounds"
proof (induction ps arbitrary: acc)
  case (Cons p ps)
  show ?case
  proof (cases "fp_pid p = 0")
    case False
    let ?new = "filp_opens vp (fp_pid p) (fp_filp p)"
    show ?thesis
    proof (cases "2 * (f_open_count acc + length ?new) \<le> n")
      case le: True
      then obtain info where f: "filp_loop vp (fp_pid p) (fp_filp p) acc = Inr \<lparr>pid_info = info,
          openers = openers acc @ ?new, f_open_count = f_open_count acc + length ?new\<rparr>" "length info = n"
        using filp_loop_run [OF Cons.prems(1)] by blast
      let ?acc1 = "\<lparr>pid_info = info, openers = openers acc @ ?new, f_open_count = f_open_count acc + length ?new\<rparr>"
      show ?thesis
      proof (cases "2 * f_open_count ?acc1 + 2 \<le> n")
        case True
        then obtain info2 where s: "store_pair (-1) (-1) ?acc1 = Inr (?acc1\<lparr>pid_info := info2\<rparr>)" "length info2 = n"
          using store_pair_run [of ?acc1 n] f(2) by auto
        have "\<exists>p\<in>set ps. fp_pid p \<noteq> 0"
        proof (rule ccontr)
          assume "\<not> ?thesis"
          then have "all_opens vp ps = []" using proc_loop_idle by blast
          with Cons.prems(3) False True show False by simp
        qed
        with Cons.IH [of "?acc1\<lparr>pid_info := info2\<rparr>"] Cons.prems(3) False f(1) s show ?thesis by simp
      qed (use False f store_pair_fault [of ?acc1 n] in simp)
    next
      case gt: False
      show ?thesis
      proof (cases "?new = []")
        case True
        with gt False filp_loop_idle [OF True] store_pair_fault [OF Cons.prems(1)] Cons.prems(3) show ?thesis by simp
      next
        case ne: False
        with filp_loop_fault [OF Cons.prems(1) ne] gt False show ?thesis by simp
      qed
    qed
  qed (use Cons in simp)
qed simp

section \<open>Properties\<close>

text \<open>
  C34. fileinfo with mode bit 0 lists, for every process in table order and every descriptor it
  has open on the file, the process and the mode. The array it fills has room for NR_PROCS
  integers, which is two per descriptor and two for the terminator: with more descriptors than
  that VFS writes behind the array.
\<close>

theorem fileinfo_lists_opens:
  assumes "length junk = NR_PROCS" and "\<exists>p\<in>set fproc. fp_pid p \<noteq> 0"
  shows "do_fileinfo env fproc junk (Inr vp) 1 tr =
    (if 2 * length (all_opens (v_addr vp) fproc) + 2 \<le> NR_PROCS
     then Inr (\<lparr>tool_answer = OK, listed = Some (all_opens (v_addr vp) fproc), unlocked = True\<rparr>, tr)
     else Inl OutOfBounds)"
proof -
  let ?acc = "\<lparr>pid_info = junk, openers = [], f_open_count = 0\<rparr>"
  show ?thesis
  proof (cases "2 * length (all_opens (v_addr vp) fproc) + 2 \<le> NR_PROCS")
    case True
    then obtain acc' where "proc_loop (v_addr vp) fproc ?acc = Inr acc'" "openers acc' = all_opens (v_addr vp) fproc"
      using proc_loop_run [of ?acc NR_PROCS "v_addr vp" fproc] assms(1) by auto
    with True show ?thesis by (simp add: do_fileinfo_def seq_def ret_def)
  next
    case False
    then have "proc_loop (v_addr vp) fproc ?acc = Inl OutOfBounds"
      using proc_loop_fault [of ?acc NR_PROCS fproc "v_addr vp"] assms by simp
    with False show ?thesis by (simp add: do_fileinfo_def seq_def fail_def)
  qed
qed

definition demo_processes :: "process list" where
  "demo_processes = [\<lparr>fp_pid = 0, fp_filp = []\<rparr>,
     \<lparr>fp_pid = 7, fp_filp = [None, Some \<lparr>filp_vno = 100, filp_mode = 4\<rparr>, Some \<lparr>filp_vno = 200, filp_mode = 2\<rparr>]\<rparr>,
     \<lparr>fp_pid = 9, fp_filp = [Some \<lparr>filp_vno = 100, filp_mode = 6\<rparr>]\<rparr>]"

definition demo_vnode :: vnode where
  "demo_vnode = \<lparr>v_addr = 100, v_fs_e = 5, v_inode_nr = 12, v_dev = 1\<rparr>"

theorem fileinfo_lists_opens_witness:
  "do_fileinfo demo_env demo_processes (replicate 8 0) (Inr demo_vnode) 1 [] =
     Inr (\<lparr>tool_answer = 0, listed = Some [(7, 4), (9, 6)], unlocked = True\<rparr>, []) \<and>
   do_fileinfo demo_env demo_processes (replicate 4 0) (Inr demo_vnode) 1 [] = Inl OutOfBounds"
proof -
  have e: "\<exists>p\<in>set demo_processes. fp_pid p \<noteq> 0" by (simp add: demo_processes_def)
  have a: "all_opens (v_addr demo_vnode) demo_processes = [(7, 4), (9, 6)]"
    by (simp add: demo_processes_def demo_vnode_def)
  show ?thesis
    using fileinfo_lists_opens [of "replicate 8 0" 8, OF _ e] fileinfo_lists_opens [of "replicate 4 0" 4, OF _ e]
    by (simp add: a)
qed

end
