(* ===== verification/ToolMain.thy ===== *)
theory ToolMain
  imports VfsTool ShMain
begin

text \<open>
  The file system tool from the command line to VFS: the programs fileinfo and fraginfo
  (prj_3/tool), the library functions (prj_3/src/fs_tool_lib.c), the call numbers
  (prj_3/src/callnr.h) and the call table of VFS (prj_3/src/vfs/table.c).
\<close>

unbundle bit_operations_syntax

section \<open>Call numbers and the call table\<close>

definition FILEINFO :: nat where "FILEINFO = 69"
definition FRAGINFO :: nat where "FRAGINFO = 70"

definition tool_call_vec :: "string list" where
  "tool_call_vec =
     [''no_sys'', ''no_sys'', ''no_sys'', ''do_read'', ''do_write'', ''do_open'',
      ''do_close'', ''no_sys'', ''do_creat'', ''do_link'', ''do_unlink'', ''no_sys'',
      ''do_chdir'', ''no_sys'', ''do_mknod'', ''do_chmod'', ''do_chown'', ''no_sys'',
      ''do_stat'', ''do_lseek'', ''no_sys'', ''do_mount'', ''do_umount'', ''no_sys'',
      ''no_sys'', ''no_sys'', ''no_sys'', ''no_sys'', ''do_fstat'', ''no_sys'',
      ''do_utime'', ''no_sys'', ''no_sys'', ''do_access'', ''no_sys'', ''no_sys'',
      ''do_sync'', ''no_sys'', ''do_rename'', ''do_mkdir'', ''do_unlink'', ''do_dup'',
      ''do_pipe'', ''no_sys'', ''no_sys'', ''do_slink'', ''no_sys'', ''no_sys'',
      ''no_sys'', ''do_rdlink'', ''do_lstat'', ''do_stat'', ''do_fstat'', ''do_lstat'',
      ''do_ioctl'', ''do_fcntl'', ''no_sys'', ''do_fsready'', ''no_sys'', ''no_sys'',
      ''do_umask'', ''do_chroot'', ''no_sys'', ''no_sys'', ''no_sys'', ''do_stat'',
      ''do_fstat'', ''do_lstat'', ''no_sys'', ''do_fileinfo'', ''do_fraginfo'', ''no_sys'',
      ''no_sys'', ''no_sys'', ''no_sys'', ''no_sys'', ''no_sys'', ''do_svrctl'',
      ''no_sys'', ''no_sys'', ''do_getdents'', ''do_llseek'', ''do_fstatfs'', ''do_statvfs'',
      ''do_fstatvfs'', ''do_select'', ''do_fchdir'', ''do_fsync'', ''no_sys'', ''no_sys'',
      ''no_sys'', ''no_sys'', ''no_sys'', ''do_truncate'', ''do_ftruncate'', ''do_chmod'',
      ''do_chown'', ''no_sys'', ''no_sys'', ''no_sys'', ''no_sys'', ''no_sys'',
      ''no_sys'', ''no_sys'', ''no_sys'', ''no_sys'', ''no_sys'', ''no_sys'',
      ''no_sys'', ''no_sys'', ''no_sys'', ''no_sys'', ''do_gcov_flush'', ''no_sys'']"

section \<open>The library\<close>

text \<open>A message of type 1; the pointer \<open>m1_p1\<close> is given as the string it points to.\<close>

record tool_message =
  m1_i1 :: int
  m1_i2 :: int
  m1_p1 :: string

definition lib_fileinfo :: "string \<Rightarrow> int \<Rightarrow> nat \<times> tool_message" where
  "lib_fileinfo fname mode = (FILEINFO, \<lparr>m1_i1 = int (length fname) + 1, m1_i2 = mode, m1_p1 = fname\<rparr>)"

definition lib_fraginfo :: "string \<Rightarrow> int \<Rightarrow> nat \<times> tool_message" where
  "lib_fraginfo fname mode = (FRAGINFO, \<lparr>m1_i1 = int (length fname) + 1, m1_i2 = mode, m1_p1 = fname\<rparr>)"

text \<open>
  The handler the table has for a call; None is a handler of another part. \<open>find_file\<close> is what
  fetch_name and eat_path make of the name in the message.
\<close>

definition serve_tool ::
    "env \<Rightarrow> process list \<Rightarrow> int list \<Rightarrow> (string \<Rightarrow> int + vnode) \<Rightarrow> nat \<times> tool_message \<Rightarrow> tool_out vfs_op option" where
  "serve_tool env fproc junk find_file call =
     (let h = (if fst call < length tool_call_vec then tool_call_vec ! fst call else []); m_in = snd call
      in if h = ''do_fileinfo'' then Some (do_fileinfo env fproc junk (find_file (m1_p1 m_in)) (m1_i2 m_in))
         else if h = ''do_fraginfo'' then Some (do_fraginfo env (find_file (m1_p1 m_in)))
         else None)"

section \<open>fileinfo\<close>

text \<open>The file name that is used when the arguments name none.\<close>

definition default_name :: string where
  "default_name = ''/home/mthakare/test/sample.txt''"

record file_opts =
  mode_i :: int
  fname :: string
  got_f_name :: bool
  got_opt :: bool

text \<open>
  The loop over the arguments; None is the help text and the end of the program. An argument is
  first copied into a block of 256 characters.
\<close>

fun fileinfo_loop :: "string list \<Rightarrow> file_opts \<Rightarrow> file_opts option res" where
  "fileinfo_loop [] opts = Inr (Some opts)"
| "fileinfo_loop (p # args) opts =
     (if 256 \<le> length p then Inl BufferOverflow
      else if take 1 p = ''-'' then
        (let m1 = (if CHR ''p'' \<in> set p then mode_i opts OR 1 else mode_i opts);
             m2 = (if CHR ''b'' \<in> set p then m1 OR 2 else m1)
         in if CHR ''h'' \<in> set p then Inr None
            else fileinfo_loop args (opts\<lparr>mode_i := m2, got_opt := True\<rparr>))
      else if got_f_name opts then Inr None
      else fileinfo_loop args (opts\<lparr>fname := p, got_f_name := True\<rparr>))"

text \<open>The call the program makes, if it does not show the help.\<close>

definition fileinfo_main :: "string list \<Rightarrow> (nat \<times> tool_message) option res" where
  "fileinfo_main args =
     bnd (fileinfo_loop args \<lparr>mode_i = 0, fname = default_name, got_f_name = False, got_opt = False\<rparr>) (\<lambda>r.
       Inr (map_option (\<lambda>opts. lib_fileinfo (fname opts) (if got_opt opts then mode_i opts else 3)) r))"

section \<open>fraginfo\<close>

record frag_opts =
  frag_mode :: int
  frag_name :: string
  frag_got_name :: bool
  frag_selected :: bool
  int_ext :: bool

fun fraginfo_loop :: "string list \<Rightarrow> frag_opts \<Rightarrow> frag_opts option res" where
  "fraginfo_loop [] opts = Inr (Some opts)"
| "fraginfo_loop (p # args) opts =
     (if 256 \<le> length p then Inl BufferOverflow
      else if take 1 p = ''-'' then
        (let o1 = (if CHR ''d'' \<in> set p then opts\<lparr>frag_mode := frag_mode opts OR 16\<rparr> else opts);
             o2 = (if CHR ''i'' \<in> set p then o1\<lparr>frag_selected := True, int_ext := False\<rparr> else o1)
         in if CHR ''h'' \<in> set p then Inr None
            else if CHR ''i'' \<in> set p \<and> frag_selected o1 then Inr None
            else if CHR ''e'' \<in> set p \<and> frag_selected o2 then Inr None
            else fraginfo_loop args
                   (if CHR ''e'' \<in> set p then o2\<lparr>frag_selected := True, int_ext := True\<rparr> else o2))
      else if frag_got_name opts then Inr None
      else fraginfo_loop args (opts\<lparr>frag_name := p, frag_got_name := True\<rparr>))"

text \<open>
  Without a file name the report is made for every device in a list of lines with a device and
  a file on it. The two words go to blocks of 256 characters; the other 16 pointers of the list
  have no block.
\<close>

definition put_field :: "char list list \<Rightarrow> nat \<Rightarrow> nat \<Rightarrow> char \<Rightarrow> char list list res" where
  "put_field bs i j c =
     (if i < length bs then bnd (wr (bs ! i) (int j) c) (\<lambda>b. Inr (bs[i := b]))
      else if i < 18 then Inl WildPointer else Inl OutOfBounds)"

fun field_loop :: "string \<Rightarrow> nat \<Rightarrow> nat \<Rightarrow> char list list \<Rightarrow> char list list res" where
  "field_loop [] i j bs = put_field bs i j NUL"
| "field_loop (c # cs) i j bs =
     (if c = CHR 0x20 then
        bnd (put_field bs i j NUL) (\<lambda>bs'. field_loop cs (i + 1) (if i = 0 then 0 else j) bs')
      else bnd (put_field bs i j c) (\<lambda>bs'. field_loop cs i (j + 1) bs'))"

text \<open>\<open>word\<close> is a block read as a C string.\<close>

definition word :: "char list \<Rightarrow> string res" where
  "word b = (if NUL \<in> set b then Inr (cstr b) else Inl OutOfBounds)"

function device_loop ::
    "string \<Rightarrow> char list \<Rightarrow> char list list \<Rightarrow> string \<Rightarrow> (nat \<times> tool_message) list res" where
  "device_loop inp str bs last_dev =
     (case read_line inp 0 str of
        Inl e \<Rightarrow> Inl e
      | Inr (n, str', rest) \<Rightarrow>
          if n = 0 then Inr []
          else bnd (bnd (word str') (\<lambda>l. field_loop l 0 0 bs)) (\<lambda>bs'.
               bnd (word (bs' ! 0)) (\<lambda>dev.
                 if last_dev = dev then device_loop rest str' bs' last_dev
                 else if dev = ''2'' then device_loop rest str' bs' last_dev
                 else bnd (word (bs' ! 1)) (\<lambda>name.
                      bnd (device_loop rest str' bs' dev) (\<lambda>calls. Inr (lib_fileinfo name 4 # calls))))))"
  by pat_completeness auto
termination
  by (relation "measure (\<lambda>(inp, str, bs, last_dev). length inp)") (auto dest!: read_line_consumes)

declare device_loop.simps [simp del]

text \<open>
  The calls the program makes. \<open>dev_ini\<close> is the list of devices, or None when it cannot be
  opened; \<open>str\<close> and \<open>bs\<close> are the blocks malloc returns.
\<close>

definition fraginfo_main ::
    "string list \<Rightarrow> string option \<Rightarrow> char list \<Rightarrow> char list list \<Rightarrow> (nat \<times> tool_message) list res" where
  "fraginfo_main args dev_ini str bs =
     bnd (fraginfo_loop args \<lparr>frag_mode = 0, frag_name = default_name, frag_got_name = False,
                              frag_selected = False, int_ext = False\<rparr>) (\<lambda>r.
       case r of
         None \<Rightarrow> Inr []
       | Some opts \<Rightarrow>
           if \<not> frag_selected opts \<or> \<not> int_ext opts then
             (if frag_got_name opts then Inr [lib_fileinfo (frag_name opts) 4]
              else case dev_ini of None \<Rightarrow> Inr [] | Some inp \<Rightarrow> device_loop inp str bs [])
           else Inr [lib_fraginfo (frag_name opts) (frag_mode opts)])"

section \<open>The calls reach their handlers\<close>

lemma tool_call_vec_entries:
  "length tool_call_vec = 114" "tool_call_vec ! FILEINFO = ''do_fileinfo''" "tool_call_vec ! FRAGINFO = ''do_fraginfo''"
  by code_simp+

lemma serve_tool_library:
  "serve_tool env fproc junk find_file (lib_fileinfo f mode) = Some (do_fileinfo env fproc junk (find_file f) mode)"
  "serve_tool env fproc junk find_file (lib_fraginfo f mode) = Some (do_fraginfo env (find_file f))"
  using tool_call_vec_entries
  by (simp_all add: serve_tool_def lib_fileinfo_def lib_fraginfo_def FILEINFO_def FRAGINFO_def Let_def)

section \<open>The options of fileinfo\<close>

definition flag :: "string \<Rightarrow> bool" where
  "flag p \<longleftrightarrow> take 1 p = ''-''"

text \<open>The modes the flags ask for.\<close>

definition asked :: "char \<Rightarrow> string list \<Rightarrow> bool" where
  "asked c args \<longleftrightarrow> (\<exists>p\<in>set args. flag p \<and> c \<in> set p)"

definition mode_of :: "bool \<Rightarrow> bool \<Rightarrow> int" where
  "mode_of p b = (if p then 1 else 0) + (if b then 2 else 0)"

lemma mode_or: "mode_of p b OR 1 = mode_of True b" "mode_of p b OR 2 = mode_of p True"
  by (cases p; cases b; simp add: mode_of_def)+

lemma fileinfo_loop_run:
  "\<forall>a\<in>set args. length a < 256 \<and> (flag a \<longrightarrow> CHR ''h'' \<notin> set a) \<Longrightarrow>
     filter (\<lambda>a. \<not> flag a) args = (if got_f_name opts then [] else [f]) \<Longrightarrow> mode_i opts = mode_of p b \<Longrightarrow>
     fileinfo_loop args opts = Inr (Some (opts\<lparr>
       mode_i := mode_of (p \<or> asked CHR ''p'' args) (b \<or> asked CHR ''b'' args),
       fname := if got_f_name opts then fname opts else f, got_f_name := True,
       got_opt := got_opt opts \<or> (\<exists>a\<in>set args. flag a)\<rparr>))"
proof (induction args arbitrary: opts p b)
  case Nil
  then show ?case by (cases opts) (auto simp: asked_def split: if_splits)
next
  case (Cons a args)
  show ?case
  proof (cases "flag a")
    case True
    let ?p = "p \<or> CHR ''p'' \<in> set a" and ?b = "b \<or> CHR ''b'' \<in> set a"
    let ?o = "opts\<lparr>mode_i := mode_of ?p ?b, got_opt := True\<rparr>"
    have "fileinfo_loop (a # args) opts = fileinfo_loop args ?o"
      using True Cons.prems by (auto simp: flag_def mode_or Let_def)
    moreover have "asked CHR ''p'' (a # args) \<longleftrightarrow> CHR ''p'' \<in> set a \<or> asked CHR ''p'' args"
      "asked CHR ''b'' (a # args) \<longleftrightarrow> CHR ''b'' \<in> set a \<or> asked CHR ''b'' args"
      using True by (auto simp: asked_def)
    ultimately show ?thesis using Cons.IH [of ?o ?p ?b] Cons.prems True by (simp add: disj_ac)
  next
    case False
    then have f: "\<not> got_f_name opts" "a = f" "filter (\<lambda>a. \<not> flag a) args = []"
      using Cons.prems(2) by (auto split: if_splits)
    let ?o = "opts\<lparr>fname := f, got_f_name := True\<rparr>"
    have "fileinfo_loop (a # args) opts = fileinfo_loop args ?o"
      using False Cons.prems(1) f by (auto simp: flag_def)
    moreover have "asked c (a # args) = asked c args" for c using False by (auto simp: asked_def)
    ultimately show ?thesis using Cons.IH [of ?o p b] Cons.prems False f by simp
  qed
qed

section \<open>The devices of fraginfo\<close>

lemma field_run:
  "CHR 0x20 \<notin> set w \<Longrightarrow> i < length bs \<Longrightarrow> j + length w \<le> length (bs ! i) \<Longrightarrow>
     \<exists>b. field_loop (w @ rest) i j bs = field_loop rest i (j + length w) (bs[i := b]) \<and>
       length b = length (bs ! i) \<and> take (j + length w) b = take j (bs ! i) @ w"
proof (induction w arbitrary: j bs)
  case Nil
  then show ?case by (intro exI [of _ "bs ! i"]) simp
next
  case (Cons c w)
  let ?b = "(bs ! i)[j := c]"
  have p: "put_field bs i j c = Inr (bs[i := ?b])" using Cons.prems by (simp add: put_field_def wr_def)
  have t: "take (Suc j) ?b = take j (bs ! i) @ [c]" using Cons.prems by (simp add: take_Suc_conv_app_nth)
  from Cons.IH [of "bs[i := ?b]" "Suc j"] Cons.prems obtain b where
    "field_loop (w @ rest) i (Suc j) (bs[i := ?b]) = field_loop rest i (Suc j + length w) (bs[i := b])"
    "length b = length (bs ! i)" "take (Suc j + length w) b = take (Suc j) ?b @ w" by auto
  moreover have "c \<noteq> CHR 0x20" using Cons.prems(1) by auto
  ultimately show ?case using p t by (intro exI [of _ b]) simp
qed

lemma word_take: "take (Suc (length w)) b = w @ [NUL] \<Longrightarrow> NUL \<notin> set w \<Longrightarrow> word b = Inr w"
  unfolding word_def using cstr_take [of w b] in_set_takeD [of NUL "Suc (length w)" b] by simp

definition device_ok :: "string \<times> string \<Rightarrow> bool" where
  "device_ok dp \<longleftrightarrow> list_all (\<lambda>w. length w < 128 \<and> list_all (\<lambda>c. c \<notin> {NUL, CHR 0x20, CHR 0x0A}) w) [fst dp, snd dp] \<and>
     fst dp \<noteq> []"

definition device_line :: "string \<times> string \<Rightarrow> string" where
  "device_line dp = fst dp @ CHR 0x20 # snd dp"

lemma put_end:
  assumes "i < length bs" and "j < length (bs ! i)"
  shows "put_field bs i j NUL = Inr (bs[i := (bs ! i)[j := NUL]])"
    and "take (Suc j) ((bs ! i)[j := NUL]) = take j (bs ! i) @ [NUL]"
  using assms by (simp_all add: put_field_def wr_def take_Suc_conv_app_nth)

lemma device_fields:
  assumes "device_ok (d, p)" and "bs = [a, b]" and "length a = 256" and "length b = 256"
  shows "\<exists>a' b'. field_loop (device_line (d, p)) 0 0 bs = Inr [a', b'] \<and> length a' = 256 \<and> length b' = 256 \<and>
    word a' = Inr d \<and> word b' = Inr p"
proof -
  have w: "CHR 0x20 \<notin> set d" "NUL \<notin> set d" "length d < 128" "CHR 0x20 \<notin> set p" "NUL \<notin> set p" "length p < 128"
    using assms(1) by (auto simp: device_ok_def list_all_iff)
  from field_run [of d 0 bs 0 "CHR 0x20 # p"] assms w obtain a1 where
    a1: "field_loop (d @ CHR 0x20 # p) 0 0 bs = field_loop (CHR 0x20 # p) 0 (length d) [a1, b]" "length a1 = 256"
      "take (length d) a1 = d" by auto
  let ?a = "a1[length d := NUL]"
  have e1: "put_field [a1, b] 0 (length d) NUL = Inr [?a, b]" "word ?a = Inr d"
    using put_end [of 0 "[a1, b]" "length d"] a1 w by (simp_all add: word_take)
  from field_run [of p 1 "[?a, b]" 0 "[]"] assms w obtain b1 where
    b1: "field_loop p 1 0 [?a, b] = field_loop [] 1 (length p) [?a, b1]" "length b1 = 256" "take (length p) b1 = p" by auto
  let ?b = "b1[length p := NUL]"
  have e2: "put_field [?a, b1] 1 (length p) NUL = Inr [?a, ?b]" "word ?b = Inr p"
    using put_end [of 1 "[?a, b1]" "length p"] b1 w by (simp_all add: word_take)
  have "field_loop (device_line (d, p)) 0 0 bs = Inr [?a, ?b]"
    using a1(1) b1(1) e1(1) e2(1) by (simp add: device_line_def)
  with e1(2) e2(2) a1(2) b1(2) show ?thesis by simp
qed

text \<open>The files asked about: one for each run of lines with the same device, but none for device 2.\<close>

fun one_per_device :: "string \<Rightarrow> (string \<times> string) list \<Rightarrow> string list" where
  "one_per_device prev [] = []"
| "one_per_device prev ((d, p) # dps) =
     (if prev = d \<or> d = ''2'' then one_per_device prev dps else p # one_per_device d dps)"

lemma device_loop_run:
  "list_all device_ok dps \<Longrightarrow> length str = 256 \<Longrightarrow> length a = 256 \<Longrightarrow> length b = 256 \<Longrightarrow>
     device_loop (typed (map device_line dps)) str [a, b] prev =
       Inr (map (\<lambda>f. lib_fileinfo f 4) (one_per_device prev dps))"
proof (induction dps arbitrary: str a b prev)
  case Nil
  then show ?case by (subst device_loop.simps) (simp add: typed_def)
next
  case (Cons dp dps)
  obtain d p where dp: "dp = (d, p)" by (cases dp)
  let ?l = "device_line (d, p)" and ?rest = "typed (map device_line dps)"
  have ok: "device_ok (d, p)" "list_all device_ok dps" using Cons.prems(1) dp by simp_all
  have l: "CHR 0x0A \<notin> set ?l" "NUL \<notin> set ?l" "length ?l < 256" "?l \<noteq> []"
    using ok(1) by (auto simp: device_ok_def device_line_def list_all_iff)
  from read_line_run [of ?l 0 str "CHR 0x0A # ?rest"] l Cons.prems(2) obtain s where
    s: "read_line (?l @ CHR 0x0A # ?rest) 0 str = Inr (length ?l, s, ?rest)" "length s = 256"
      "take (Suc (length ?l)) s = ?l @ [NUL]" by auto
  from device_fields [OF ok(1) refl Cons.prems(3,4)] obtain a' b' where
    f: "field_loop ?l 0 0 [a, b] = Inr [a', b']" "length a' = 256" "length b' = 256" "word a' = Inr d" "word b' = Inr p"
    by blast
  have t: "typed (map device_line (dp # dps)) = ?l @ CHR 0x0A # ?rest" by (simp add: typed_def dp)
  show ?case unfolding t
    using s(1) word_take [OF s(3) l(2)] f l(4) Cons.IH [OF ok(2) s(2) f(2,3)]
    by (subst device_loop.simps) (simp add: dp)
qed

section \<open>Properties\<close>

text \<open>
  The command fileinfo, given flags without h and one file name, makes one call, and the
  call table takes it to do_fileinfo with that name and with the modes asked for: the
  processes for p, the blocks for b, and both when there is no flag.
\<close>

theorem fileinfo_command_served:
  assumes "\<forall>a\<in>set args. length a < 256 \<and> (flag a \<longrightarrow> CHR ''h'' \<notin> set a)"
    and "filter (\<lambda>a. \<not> flag a) args = [f]"
  shows "\<exists>call. fileinfo_main args = Inr (Some call) \<and>
    serve_tool env fproc junk find_file call =
      Some (do_fileinfo env fproc junk (find_file f)
        (if \<exists>a\<in>set args. flag a then mode_of (asked CHR ''p'' args) (asked CHR ''b'' args) else 3))"
proof -
  let ?o = "\<lparr>mode_i = 0, fname = default_name, got_f_name = False, got_opt = False\<rparr>"
  have "mode_i ?o = mode_of False False" by (simp add: mode_of_def)
  from fileinfo_loop_run [OF assms(1) _ this, of f] assms(2) show ?thesis
    by (simp add: fileinfo_main_def serve_tool_library)
qed

theorem fileinfo_command_served_witness:
  "\<exists>call. fileinfo_main [''-p'', ''/etc/motd''] = Inr (Some call) \<and>
     serve_tool demo_env demo_processes (replicate 8 0) (\<lambda>_. Inr demo_vnode) call =
       Some (do_fileinfo demo_env demo_processes (replicate 8 0) (Inr demo_vnode) 1)"
proof -
  have a: "\<forall>a\<in>set [''-p'', ''/etc/motd'']. length a < 256 \<and> (flag a \<longrightarrow> CHR ''h'' \<notin> set a)"
    "filter (\<lambda>a. \<not> flag a) [''-p'', ''/etc/motd''] = [''/etc/motd'']"
    "\<exists>a\<in>set [''-p'', ''/etc/motd'']. flag a"
    "mode_of (asked CHR ''p'' [''-p'', ''/etc/motd'']) (asked CHR ''b'' [''-p'', ''/etc/motd'']) = 1"
    by code_simp+
  from fileinfo_command_served [OF a(1,2), of demo_env demo_processes "replicate 8 0" "\<lambda>_. Inr demo_vnode"]
  show ?thesis unfolding if_P [OF a(3)] a(4) by blast
qed

text \<open>
  fraginfo without a file name reads the list of devices, lines of a device and a file, and
  asks for the internal fragmentation once for each run of lines with the same device, with the
  first file of the run, and never for device 2; the calls come in the order of the list.
\<close>

theorem fraginfo_asks_each_device:
  assumes "list_all device_ok dps" and "length str = 256" and "length a = 256" and "length b = 256"
  shows "fraginfo_main [] (Some (typed (map device_line dps))) str [a, b] =
    Inr (map (\<lambda>f. lib_fileinfo f 4) (one_per_device [] dps))"
  using device_loop_run [OF assms] by (simp add: fraginfo_main_def)

theorem fraginfo_asks_each_device_witness:
  "fraginfo_main [] (Some (typed [''7 /etc'', ''7 /bin'', ''2 /proc'', ''9 /usr'']))
     (replicate 256 NUL) [replicate 256 NUL, replicate 256 NUL] = Inr [lib_fileinfo ''/etc'' 4, lib_fileinfo ''/usr'' 4]"
proof -
  let ?dps = "[(''7'', ''/etc''), (''7'', ''/bin''), (''2'', ''/proc''), (''9'', ''/usr'')]"
  have o: "list_all device_ok ?dps" by code_simp
  have "map device_line ?dps = [''7 /etc'', ''7 /bin'', ''2 /proc'', ''9 /usr'']"
    "one_per_device [] ?dps = [''/etc'', ''/usr'']" by code_simp+
  with fraginfo_asks_each_device [OF o, of "replicate 256 NUL" "replicate 256 NUL" "replicate 256 NUL"] show ?thesis
    by simp
qed

end
