(* ===== verification/VfsProtocol.thy ===== *)
theory VfsProtocol
  imports VfsRequest
begin

text \<open>
  The protocol between VFS and a file system: which handler of MFS a request of VFS
  (prj_3/src/vfs/request.c) reaches through the call table (prj_3/src/mfs/table.c), and that a
  request is one message to the file system it names.
\<close>

section \<open>Dispatch\<close>

text \<open>Entry n of a call table serves request VFS_BASE + n.\<close>

definition handler_of :: "string list \<Rightarrow> int \<Rightarrow> fs_message \<Rightarrow> string" where
  "handler_of call_vec base m =
     (case m_type m of
        None \<Rightarrow> []
      | Some t \<Rightarrow> if base \<le> t \<and> t - base < int (length call_vec) then call_vec ! nat (t - base) else [])"

text \<open>The messages of a trace with their receivers, in order.\<close>

fun sent :: "event list \<Rightarrow> (int \<times> fs_message) list" where
  "sent [] = []"
| "sent (Sent e m # tr) = (e, m) # sent tr"
| "sent (Granted gid g # tr) = sent tr"
| "sent (Revoked gid # tr) = sent tr"
| "sent (Copied p b d # tr) = sent tr"

lemma sent_append [simp]: "sent (xs @ ys) = sent xs @ sent ys"
  by (induction xs rule: sent.induct) simp_all

lemma handler_of_request:
  "handler_of vec base (request bits t fs) =
     (if base \<le> t \<and> t - base < int (length vec) then vec ! nat (t - base) else [])"
  by (simp add: handler_of_def request_type)

section \<open>Quiet operations and requests\<close>

text \<open>\<open>asks\<close>: on every path on which it returns, c has sent one message, to fs_e, served by h.\<close>

definition quiet :: "'a vfs_op \<Rightarrow> bool" where
  "quiet c \<longleftrightarrow> (\<forall>tr x tr'. c tr = Inr (x, tr') \<longrightarrow> sent tr' = sent tr)"

definition asks :: "env \<Rightarrow> int \<Rightarrow> string \<Rightarrow> 'a vfs_op \<Rightarrow> bool" where
  "asks env fs_e h c \<longleftrightarrow> (\<forall>tr x tr'. c tr = Inr (x, tr') \<longrightarrow>
     (\<exists>m. sent tr' = sent tr @ [(fs_e, m)] \<and> handler_of mfs_call_vec (VFS_BASE env) m = h))"

named_theorems quiet_rules "operations that send no message"

lemma quiet_basic [quiet_rules]:
  "quiet (ret x)" "quiet (fail e)" "quiet (cpf_revoke gid)" "quiet (cpf_grant env g)"
  "quiet (read_stat env)" "quiet (sys_vircopy env p b d)"
  by (auto simp: quiet_def ret_def fail_def cpf_revoke_def cpf_grant_def read_stat_def sys_vircopy_def Let_def)

lemma quiet_fetch [quiet_rules]: "quiet (fetch m s)" "quiet (fetch_source m)"
  by (auto simp: quiet_def fetch_def fetch_source_def ret_def fail_def split: option.splits)

lemma quiet_seq [quiet_rules]: "quiet c \<Longrightarrow> (\<And>x. quiet (f x)) \<Longrightarrow> quiet (seq c f)"
  by (fastforce simp: quiet_def seq_def bnd_eq_Inr)

lemma quiet_granted [quiet_rules]: "quiet (granted env g)"
  unfolding granted_def by (auto intro!: quiet_rules)

lemma quiet_fill [quiet_rules]: "quiet (fill_node m res)" "quiet (fill_node_dev m res)" "quiet (fill_lookup r m lres)"
  unfolding fill_node_def fill_node_dev_def fill_lookup_def by (auto intro!: quiet_rules)

lemma quiet_revokes [quiet_rules]: "quiet (foldr (\<lambda>g k. seq (cpf_revoke g) (\<lambda>_. k)) gids (ret r))"
  by (induction gids) (auto intro!: quiet_rules)

lemma asks_fail: "asks env fs_e h (fail e)"
  by (simp add: asks_def fail_def)

lemma asks_then: "asks env fs_e h c \<Longrightarrow> (\<And>x. quiet (f x)) \<Longrightarrow> asks env fs_e h (seq c f)"
  unfolding asks_def quiet_def by (fastforce simp: seq_def bnd_eq_Inr)

lemma then_asks: "quiet c \<Longrightarrow> (\<And>x. asks env fs_e h (f x)) \<Longrightarrow> asks env fs_e h (seq c f)"
  unfolding asks_def quiet_def by (fastforce simp: seq_def bnd_eq_Inr)

lemma sends_asks:
  assumes "handler_of mfs_call_vec (VFS_BASE env) (request (slot_bits env) t fs) = h"
  shows "asks env fs_e h (send env fs_e t fs)" "asks env fs_e h (send_only env fs_e t fs)"
    "asks env fs_e h (send_revoke env fs_e t fs gids)"
proof -
  show s: "asks env fs_e h (send env fs_e t fs)"
    using assms by (simp add: asks_def send_def fs_sendrec_def)
  show "asks env fs_e h (send_only env fs_e t fs)"
    unfolding send_only_def by (rule asks_then [OF s]) (auto intro: quiet_rules)
  show "asks env fs_e h (send_revoke env fs_e t fs gids)"
    unfolding send_revoke_def by (rule asks_then [OF s]) (rule quiet_revokes)
qed

text \<open>The shapes a request has: grants first, the message, then the answer.\<close>

lemma grant_asks:
  "(\<And>gid. asks env fs_e h (f gid)) \<Longrightarrow> asks env fs_e h (seq (granted env g) f)"
  "(\<And>gid. asks env fs_e h (f gid)) \<Longrightarrow> asks env fs_e h (seq (cpf_grant env g) f)"
  using then_asks [OF quiet_granted] then_asks [OF quiet_basic(4)] by blast+

lemma answer_asks:
  assumes "handler_of mfs_call_vec (VFS_BASE env) (request (slot_bits env) t fs) = h" and "\<And>r m. quiet (f (r, m))"
  shows "asks env fs_e h (seq (send env fs_e t fs) f)" "asks env fs_e h (seq (send_revoke env fs_e t fs gids) f)"
  using asks_then [OF sends_asks(1) [OF assms(1)], of f] asks_then [OF sends_asks(3) [OF assms(1)], of f] assms(2)
  by auto

lemma revoke_fail_asks: "asks env fs_e h (seq (cpf_revoke gid) (\<lambda>_. fail e))"
  by (rule then_asks [OF quiet_basic(3) asks_fail])

lemmas asks_rules = asks_fail grant_asks answer_asks revoke_fail_asks quiet_rules

section \<open>The entries of the table\<close>

lemma served_entries:
  "\<And>base. handler_of mfs_call_vec base (request bits (REQ_PUTNODE base) fs) = ''fs_putnode''"
  "\<And>base. handler_of mfs_call_vec base (request bits (REQ_SLINK base) fs) = ''fs_slink''"
  "\<And>base. handler_of mfs_call_vec base (request bits (REQ_FTRUNC base) fs) = ''fs_ftrunc''"
  "\<And>base. handler_of mfs_call_vec base (request bits (REQ_CHOWN base) fs) = ''fs_chown''"
  "\<And>base. handler_of mfs_call_vec base (request bits (REQ_CHMOD base) fs) = ''fs_chmod''"
  "\<And>base. handler_of mfs_call_vec base (request bits (REQ_INHIBREAD base) fs) = ''fs_inhibread''"
  "\<And>base. handler_of mfs_call_vec base (request bits (REQ_STAT base) fs) = ''fs_stat''"
  "\<And>base. handler_of mfs_call_vec base (request bits (REQ_UTIME base) fs) = ''fs_utime''"
  "\<And>base. handler_of mfs_call_vec base (request bits (REQ_FSTATFS base) fs) = ''fs_fstatfs''"
  "\<And>base. handler_of mfs_call_vec base (request bits (REQ_BREAD base) fs) = ''fs_breadwrite''"
  "\<And>base. handler_of mfs_call_vec base (request bits (REQ_BWRITE base) fs) = ''fs_breadwrite''"
  "\<And>base. handler_of mfs_call_vec base (request bits (REQ_UNLINK base) fs) = ''fs_unlink''"
  "\<And>base. handler_of mfs_call_vec base (request bits (REQ_RMDIR base) fs) = ''fs_unlink''"
  "\<And>base. handler_of mfs_call_vec base (request bits (REQ_UNMOUNT base) fs) = ''fs_unmount''"
  "\<And>base. handler_of mfs_call_vec base (request bits (REQ_SYNC base) fs) = ''fs_sync''"
  "\<And>base. handler_of mfs_call_vec base (request bits (REQ_NEW_DRIVER base) fs) = ''fs_new_driver''"
  "\<And>base. handler_of mfs_call_vec base (request bits (REQ_FLUSH base) fs) = ''fs_flush''"
  "\<And>base. handler_of mfs_call_vec base (request bits (REQ_READ base) fs) = ''fs_readwrite''"
  "\<And>base. handler_of mfs_call_vec base (request bits (REQ_WRITE base) fs) = ''fs_readwrite''"
  "\<And>base. handler_of mfs_call_vec base (request bits (REQ_MKNOD base) fs) = ''fs_mknod''"
  "\<And>base. handler_of mfs_call_vec base (request bits (REQ_MKDIR base) fs) = ''fs_mkdir''"
  "\<And>base. handler_of mfs_call_vec base (request bits (REQ_CREATE base) fs) = ''fs_create''"
  "\<And>base. handler_of mfs_call_vec base (request bits (REQ_LINK base) fs) = ''fs_link''"
  "\<And>base. handler_of mfs_call_vec base (request bits (REQ_RENAME base) fs) = ''fs_rename''"
  "\<And>base. handler_of mfs_call_vec base (request bits (REQ_LOOKUP base) fs) = ''fs_lookup''"
  "\<And>base. handler_of mfs_call_vec base (request bits (REQ_MOUNTPOINT base) fs) = ''fs_mountpoint''"
  "\<And>base. handler_of mfs_call_vec base (request bits (REQ_READSUPER base) fs) = ''fs_readsuper''"
  "\<And>base. handler_of mfs_call_vec base (request bits (REQ_NEWNODE base) fs) = ''no_sys''"
  "\<And>base. handler_of mfs_call_vec base (request bits (REQ_RDLINK base) fs) = ''fs_rdlink''"
  "\<And>base. handler_of mfs_call_vec base (request bits (REQ_GETDENTS base) fs) = ''fs_getdents''"
  "\<And>base. handler_of mfs_call_vec base (request bits (REQ_STATVFS base) fs) = ''fs_statvfs''"
  "\<And>base. handler_of mfs_call_vec base (request bits (REQ_EXTFRAG base) fs) = ''fs_getfrag''"
  "\<And>base. handler_of mfs_call_vec base (request bits (REQ_GETINODEBLOCKS base) fs) = ''fs_get_inode_blocks''"
  "\<And>base. handler_of mfs_call_vec base (request bits (REQ_INT_FRAG base) fs) = ''fs_get_int_frag''"
  by (simp_all add: handler_of_request request_numbers mfs_call_vec_def)

section \<open>Every request\<close>

lemma plain_ask:
  "asks env fs_e ''fs_utime'' (req_utime env fs_e i a b)" "asks env fs_e ''fs_ftrunc'' (req_ftrunc env fs_e i a b)"
  "asks env fs_e ''fs_flush'' (req_flush env fs_e dev)" "asks env fs_e ''fs_inhibread'' (req_inhibread env fs_e i)"
  "asks env fs_e ''fs_mountpoint'' (req_mountpoint env fs_e i)" "asks env fs_e ''fs_putnode'' (req_putnode env fs_e i n)"
  "asks env fs_e ''fs_sync'' (req_sync env fs_e)" "asks env fs_e ''fs_unmount'' (req_unmount env fs_e)"
  "asks env fs_e ''fs_get_inode_blocks'' (req_inode_blocks env fs_e i dev)"
  "asks env fs_e ''fs_get_int_frag'' (req_int_frag env fs_e i dev)" "asks env fs_e ''fs_getfrag'' (req_frag env fs_e)"
  unfolding plain_requests by (rule sends_asks(2), rule served_entries)+

lemma attributes_ask:
  "asks env fs_e ''fs_chmod'' (req_chmod env fs_e i md)" "asks env fs_e ''fs_chown'' (req_chown env fs_e i u g)"
  "asks env fs_e ''no_sys'' (req_newnode env fs_e u g md dev nd)"
  "asks env fs_e ''fs_stat'' (req_stat env fs_e i pe a pos v)"
  unfolding req_chmod_def req_chown_def req_newnode_def req_stat_def Let_def
  by (auto intro!: asks_rules served_entries)

lemma transfer_ask:
  "asks env fs_e ''fs_breadwrite'' (req_breadwrite env fs_e ue dev pos n a w)"
  "asks env fs_e ''fs_readwrite'' (req_readwrite env fs_e i pos w ue a n)"
  "asks env fs_e ''fs_getdents'' (req_getdents env we fs_e i pos a n d)"
  "asks env fs_e ''fs_rdlink'' (req_rdlink env fs_e i pe a n d)"
  "asks env fs_e ''fs_fstatfs'' (req_fstatfs env fs_e pe a)" "asks env fs_e ''fs_statvfs'' (req_statvfs env fs_e pe a)"
  unfolding req_breadwrite_def req_readwrite_def req_getdents_def req_rdlink_def req_fstatfs_def req_statvfs_def
  by (auto intro!: asks_rules served_entries)

lemma names_ask:
  "asks env fs_e ''fs_create'' (req_create env fs_e i om u g s nd)" "asks env fs_e ''fs_link'' (req_link env fs_e i s j)"
  "asks env fs_e ''fs_mkdir'' (req_mkdir env fs_e i s u g md)" "asks env fs_e ''fs_mknod'' (req_mknod env fs_e i s u g md dev)"
  "asks env fs_e ''fs_unlink'' (req_rmdir env fs_e i s)" "asks env fs_e ''fs_unlink'' (req_unlink env fs_e i s)"
  "asks env fs_e ''fs_rename'' (req_rename env fs_e i s j t)" "asks env fs_e ''fs_slink'' (req_slink env fs_e i s pe a n u g)"
  "asks env fs_e ''fs_new_driver'' (req_newdriver env fs_e dev s)"
  "asks env fs_e ''fs_readsuper'' (req_readsuper env fs_e s dev ro ir nd)"
  unfolding req_create_def req_link_def req_mkdir_def req_mknod_def req_rmdir_def req_unlink_def
    req_rename_def req_slink_def req_newdriver_def req_readsuper_def
  by (auto intro!: asks_rules served_entries)

lemma lookup_asks: "asks env fs_e ''fs_lookup'' (req_lookup env fs_e i j u g lk lres rfp)"
  unfolding req_lookup_def Let_def
  by (auto intro!: grant_asks(1) asks_then quiet_rules sends_asks(3) served_entries asks_fail split: sum.splits)

section \<open>Properties\<close>

text \<open>
  C37. Every request of VFS is well typed: when it returns it has sent exactly one message, to
  the file system it was given, and the type of the message is the number of the handler of MFS
  that is meant for it. The one request MFS does not serve is newnode (for pipes).
\<close>

theorem requests_typed:
  "asks env fs_e ''fs_utime'' (req_utime env fs_e i a b) \<and>
    asks env fs_e ''fs_ftrunc'' (req_ftrunc env fs_e i a b) \<and>
    asks env fs_e ''fs_flush'' (req_flush env fs_e dev) \<and>
    asks env fs_e ''fs_inhibread'' (req_inhibread env fs_e i) \<and>
    asks env fs_e ''fs_mountpoint'' (req_mountpoint env fs_e i) \<and>
    asks env fs_e ''fs_putnode'' (req_putnode env fs_e i n) \<and>
    asks env fs_e ''fs_sync'' (req_sync env fs_e) \<and>
    asks env fs_e ''fs_unmount'' (req_unmount env fs_e) \<and>
    asks env fs_e ''fs_get_inode_blocks'' (req_inode_blocks env fs_e i dev) \<and>
    asks env fs_e ''fs_get_int_frag'' (req_int_frag env fs_e i dev) \<and>
    asks env fs_e ''fs_getfrag'' (req_frag env fs_e) \<and>
    asks env fs_e ''fs_chmod'' (req_chmod env fs_e i md) \<and>
    asks env fs_e ''fs_chown'' (req_chown env fs_e i u g) \<and>
    asks env fs_e ''no_sys'' (req_newnode env fs_e u g md dev nd) \<and>
    asks env fs_e ''fs_stat'' (req_stat env fs_e i pe a pos v) \<and>
    asks env fs_e ''fs_breadwrite'' (req_breadwrite env fs_e ue dev pos n a w) \<and>
    asks env fs_e ''fs_readwrite'' (req_readwrite env fs_e i pos w ue a n) \<and>
    asks env fs_e ''fs_getdents'' (req_getdents env we fs_e i pos a n d) \<and>
    asks env fs_e ''fs_rdlink'' (req_rdlink env fs_e i pe a n d) \<and>
    asks env fs_e ''fs_fstatfs'' (req_fstatfs env fs_e pe a) \<and>
    asks env fs_e ''fs_statvfs'' (req_statvfs env fs_e pe a) \<and>
    asks env fs_e ''fs_create'' (req_create env fs_e i om u g s nd) \<and>
    asks env fs_e ''fs_link'' (req_link env fs_e i s j) \<and>
    asks env fs_e ''fs_mkdir'' (req_mkdir env fs_e i s u g md) \<and>
    asks env fs_e ''fs_mknod'' (req_mknod env fs_e i s u g md dev) \<and>
    asks env fs_e ''fs_unlink'' (req_rmdir env fs_e i s) \<and>
    asks env fs_e ''fs_unlink'' (req_unlink env fs_e i s) \<and>
    asks env fs_e ''fs_rename'' (req_rename env fs_e i s j t) \<and>
    asks env fs_e ''fs_slink'' (req_slink env fs_e i s pe a n u g) \<and>
    asks env fs_e ''fs_new_driver'' (req_newdriver env fs_e dev s) \<and>
    asks env fs_e ''fs_readsuper'' (req_readsuper env fs_e s dev ro ir nd) \<and>
    asks env fs_e ''fs_lookup'' (req_lookup env fs_e i j u g lk lres rfp)"
  by (intro conjI) (rule plain_ask attributes_ask transfer_ask names_ask lookup_asks)+

end
