(* ===== verification/MfsCache.thy ===== *)
theory MfsCache
  imports VfsMsg
begin

text \<open>
  The handlers of MFS that write caches back (prj_3/src/mfs/misc.c): fs_sync, fs_flush and
  fs_new_driver. The inode table and the block cache are lists of slots. What rw_inode,
  flushall and invalidate do to them is code of MINIX outside the repository: a record of
  functions, with the laws the handlers rely on in \<open>cache_laws\<close>.
\<close>

section \<open>The caches\<close>

record inode_slot =
  i_count :: int
  IN_ISDIRTY :: bool

record buf_slot =
  buf_dev :: int
  ISDIRTY :: bool

record caches =
  inode_table :: "inode_slot list"
  buf_table :: "buf_slot list"

record cache_ops =
  rw_inode :: "nat \<Rightarrow> caches \<Rightarrow> caches"
  flushall :: "int \<Rightarrow> caches \<Rightarrow> caches"
  invalidate :: "int \<Rightarrow> caches \<Rightarrow> caches"
  NO_DEV :: int
  fs_dev :: int
  EBUSY :: int
  EINVAL :: int

section \<open>fs_sync\<close>

text \<open>The loop over the inode table, from slot i; n slots are left.\<close>

fun sync_inodes :: "cache_ops \<Rightarrow> nat \<Rightarrow> nat \<Rightarrow> caches \<Rightarrow> caches" where
  "sync_inodes ops i 0 s = s"
| "sync_inodes ops i (Suc n) s =
     (let rip = inode_table s ! i
      in sync_inodes ops (i + 1) n (if i_count rip > 0 \<and> IN_ISDIRTY rip then rw_inode ops i s else s))"

fun sync_bufs :: "cache_ops \<Rightarrow> nat \<Rightarrow> nat \<Rightarrow> caches \<Rightarrow> caches" where
  "sync_bufs ops i 0 s = s"
| "sync_bufs ops i (Suc n) s =
     (let bp = buf_table s ! i
      in sync_bufs ops (i + 1) n (if buf_dev bp \<noteq> NO_DEV ops \<and> ISDIRTY bp then flushall ops (buf_dev bp) s else s))"

text \<open>The answer is OK, 0; the two asserts are that there is a cache.\<close>

definition fs_sync :: "cache_ops \<Rightarrow> caches \<Rightarrow> (int \<times> caches) res" where
  "fs_sync ops s =
     (if buf_table s = [] then Inl Panic
      else let s1 = sync_inodes ops 0 (length (inode_table s)) s
           in Inr (0, sync_bufs ops 0 (length (buf_table s)) s1))"

section \<open>fs_flush and fs_new_driver\<close>

text \<open>A field of the request; one that the sender has not set is read uninitialised.\<close>

definition field :: "fs_message \<Rightarrow> msg_slot \<Rightarrow> int res" where
  "field fs_m_in s = (case m9 fs_m_in s of None \<Rightarrow> Inl Uninitialised | Some v \<Rightarrow> Inr v)"

definition fs_flush :: "cache_ops \<Rightarrow> fs_message \<Rightarrow> caches \<Rightarrow> (int \<times> caches) res" where
  "fs_flush ops fs_m_in s =
     bnd (field fs_m_in REQ_DEV) (\<lambda>dev.
       if dev = fs_dev ops then Inr (EBUSY ops, s)
       else Inr (0, invalidate ops dev (flushall ops dev s)))"

text \<open>
  \<open>copy\<close> is sys_safecopyfrom, from a grant and a length to its result and the bytes;
  \<open>label\<close> the array of the size of fs_dev_label on the stack, which the copy overwrites from
  the front. The result is the answer and the call of bdev_driver, if it is made.
\<close>

definition fs_new_driver ::
    "cache_ops \<Rightarrow> (int \<Rightarrow> nat \<Rightarrow> int \<times> char list) \<Rightarrow> char list \<Rightarrow> fs_message \<Rightarrow> (int \<times> (int \<times> char list) option) res" where
  "fs_new_driver ops copy label fs_m_in =
     bnd (field fs_m_in REQ_DEV) (\<lambda>dev.
     bnd (field fs_m_in REQ_GRANT) (\<lambda>label_gid.
     bnd (field fs_m_in REQ_PATH_LEN) (\<lambda>len.
       let label_len = nat (len mod 2 ^ 32)
       in if length label < label_len then Inr (EINVAL ops, None)
          else case copy label_gid label_len of (r, bytes) \<Rightarrow>
                 if r \<noteq> 0 then Inr (EINVAL ops, None)
                 else if length label < length bytes then Inl BufferOverflow
                 else Inr (0, Some (dev, bytes @ drop (length bytes) label)))))"

section \<open>What the handlers rely on\<close>

text \<open>
  rw_inode writes one inode out and leaves it clean and the others alone; on the way it may
  bring blocks into the cache and make them dirty. flushall writes the blocks of one device out;
  it changes no inode, and no block of another device becomes dirty or changes its device.
\<close>

definition no_new_dirt :: "buf_slot \<Rightarrow> buf_slot \<Rightarrow> bool" where
  "no_new_dirt b b' \<longleftrightarrow> buf_dev b' = buf_dev b \<and> (ISDIRTY b' \<longrightarrow> ISDIRTY b)"

definition cache_laws :: "cache_ops \<Rightarrow> bool" where
  "cache_laws ops \<longleftrightarrow>
     (\<forall>i s. i < length (inode_table s) \<longrightarrow>
        length (buf_table (rw_inode ops i s)) = length (buf_table s) \<and>
        inode_table (rw_inode ops i s) = (inode_table s)[i := (inode_table s ! i)\<lparr>IN_ISDIRTY := False\<rparr>]) \<and>
     (\<forall>dev s. inode_table (flushall ops dev s) = inode_table s \<and>
        list_all2 no_new_dirt (buf_table s) (buf_table (flushall ops dev s)) \<and>
        list_all (\<lambda>b. buf_dev b = dev \<longrightarrow> \<not> ISDIRTY b) (buf_table (flushall ops dev s)))"

lemma sync_inodes_clean:
  assumes laws: "cache_laws ops"
  shows "i + n = length (inode_table s) \<Longrightarrow> \<forall>j<i. i_count (inode_table s ! j) > 0 \<longrightarrow> \<not> IN_ISDIRTY (inode_table s ! j) \<Longrightarrow>
    list_all (\<lambda>r. i_count r > 0 \<longrightarrow> \<not> IN_ISDIRTY r) (inode_table (sync_inodes ops i n s)) \<and>
    length (inode_table (sync_inodes ops i n s)) = length (inode_table s) \<and>
    length (buf_table (sync_inodes ops i n s)) = length (buf_table s)"
proof (induction n arbitrary: i s)
  case 0
  then show ?case by (simp add: list_all_length)
next
  case (Suc n)
  let ?s = "if i_count (inode_table s ! i) > 0 \<and> IN_ISDIRTY (inode_table s ! i) then rw_inode ops i s else s"
  have "i < length (inode_table s)" using Suc.prems(1) by simp
  with laws have w: "length (buf_table (rw_inode ops i s)) = length (buf_table s)"
    "inode_table (rw_inode ops i s) = (inode_table s)[i := (inode_table s ! i)\<lparr>IN_ISDIRTY := False\<rparr>]"
    unfolding cache_laws_def by blast+
  have l: "length (inode_table ?s) = length (inode_table s)" "length (buf_table ?s) = length (buf_table s)"
    by (simp_all add: w)
  have "\<forall>j<i + 1. i_count (inode_table ?s ! j) > 0 \<longrightarrow> \<not> IN_ISDIRTY (inode_table ?s ! j)"
    using Suc.prems w by (auto simp: less_Suc_eq nth_list_update)
  moreover have "(i + 1) + n = length (inode_table ?s)" using Suc.prems(1) l by simp
  ultimately show ?case using Suc.IH [of "i + 1" ?s] unfolding sync_inodes.simps Let_def l by simp
qed

lemma flushall_laws:
  assumes "cache_laws ops"
  shows "inode_table (flushall ops dev s) = inode_table s"
    "list_all2 no_new_dirt (buf_table s) (buf_table (flushall ops dev s))"
    "\<forall>b\<in>set (buf_table (flushall ops dev s)). buf_dev b = dev \<longrightarrow> \<not> ISDIRTY b"
  using assms unfolding cache_laws_def list_all_iff by blast+

definition clean_at :: "cache_ops \<Rightarrow> buf_slot \<Rightarrow> bool" where
  "clean_at ops b \<longleftrightarrow> (buf_dev b \<noteq> NO_DEV ops \<longrightarrow> \<not> ISDIRTY b)"

lemma clean_at_kept: "no_new_dirt b b' \<Longrightarrow> clean_at ops b \<Longrightarrow> clean_at ops b'"
  by (auto simp: no_new_dirt_def clean_at_def)

lemma sync_bufs_clean:
  assumes laws: "cache_laws ops"
  shows "i + n = length (buf_table s) \<Longrightarrow> \<forall>j<i. clean_at ops (buf_table s ! j) \<Longrightarrow>
    list_all (clean_at ops) (buf_table (sync_bufs ops i n s)) \<and>
    inode_table (sync_bufs ops i n s) = inode_table s"
proof (induction n arbitrary: i s)
  case 0
  then show ?case by (simp add: list_all_length)
next
  case (Suc n)
  let ?bp = "buf_table s ! i"
  let ?s = "if buf_dev ?bp \<noteq> NO_DEV ops \<and> ISDIRTY ?bp then flushall ops (buf_dev ?bp) s else s"
  note f = flushall_laws [OF laws, where s = s]
  have l: "length (buf_table ?s) = length (buf_table s)" "inode_table ?s = inode_table s"
    using list_all2_lengthD [OF f(2) [of "buf_dev ?bp"]] f(1) by simp_all
  have "clean_at ops (buf_table ?s ! j)" if "j < i + 1" for j
  proof (cases "buf_dev ?bp \<noteq> NO_DEV ops \<and> ISDIRTY ?bp")
    case True
    have j: "j < length (buf_table s)" using that Suc.prems(1) by simp
    have k: "no_new_dirt (buf_table s ! j) (buf_table (flushall ops (buf_dev ?bp) s) ! j)"
      using list_all2_nthD [OF f(2) j] .
    show ?thesis
    proof (cases "j = i")
      case True
      with k f(3) [of "buf_dev ?bp"] j list_all2_lengthD [OF f(2) [of "buf_dev ?bp"]] show ?thesis
        by (auto simp: clean_at_def no_new_dirt_def)
    next
      case False
      with that have "clean_at ops (buf_table s ! j)" using Suc.prems(2) by simp
      from clean_at_kept [OF k this] \<open>buf_dev ?bp \<noteq> NO_DEV ops \<and> ISDIRTY ?bp\<close> show ?thesis by simp
    qed
  next
    case False
    with that Suc.prems(2) show ?thesis by (cases "j = i") (auto simp: clean_at_def)
  qed
  then have "\<forall>j<i + 1. clean_at ops (buf_table ?s ! j)" by blast
  moreover have "(i + 1) + n = length (buf_table ?s)" using Suc.prems(1) l by simp
  ultimately show ?case using Suc.IH [of "i + 1" ?s] l(2) unfolding sync_bufs.simps Let_def by simp
qed

section \<open>Properties\<close>

text \<open>
  C36. After fs_sync nothing is left to write: no inode in use and no block of a device is
  dirty, although writing inodes makes blocks dirty. This needs the order of the two loops.
  fs_flush refuses the device of the file system itself and otherwise invalidates a device
  only when none of its blocks is dirty.
\<close>

theorem caches_written_back:
  assumes "cache_laws ops" and "buf_table s \<noteq> []"
  shows "(\<exists>s'. fs_sync ops s = Inr (0, s') \<and>
      list_all (\<lambda>r. i_count r > 0 \<longrightarrow> \<not> IN_ISDIRTY r) (inode_table s') \<and>
      list_all (\<lambda>b. buf_dev b \<noteq> NO_DEV ops \<longrightarrow> \<not> ISDIRTY b) (buf_table s')) \<and>
    (m9 fs_m_in REQ_DEV = Some dev \<longrightarrow>
      (if dev = fs_dev ops then fs_flush ops fs_m_in s = Inr (EBUSY ops, s)
       else \<exists>s'. fs_flush ops fs_m_in s = Inr (0, invalidate ops dev s') \<and>
         list_all (\<lambda>b. buf_dev b = dev \<longrightarrow> \<not> ISDIRTY b) (buf_table s') \<and> inode_table s' = inode_table s))"
proof -
  let ?s1 = "sync_inodes ops 0 (length (inode_table s)) s"
  from sync_inodes_clean [OF assms(1), of 0 "length (inode_table s)" s]
  have i: "list_all (\<lambda>r. i_count r > 0 \<longrightarrow> \<not> IN_ISDIRTY r) (inode_table ?s1)"
    "length (buf_table ?s1) = length (buf_table s)" by simp_all
  from sync_bufs_clean [OF assms(1), of 0 "length (buf_table s)" ?s1] i(2)
  have b: "list_all (clean_at ops) (buf_table (sync_bufs ops 0 (length (buf_table s)) ?s1))"
    "inode_table (sync_bufs ops 0 (length (buf_table s)) ?s1) = inode_table ?s1" by simp_all
  show ?thesis using assms(2) i(1) b flushall_laws(1,3) [OF assms(1)]
    by (auto simp: fs_sync_def fs_flush_def field_def clean_at_def [abs_def] list_all_iff Let_def)
qed

text \<open>A cache of two blocks; writing an inode makes the first one dirty.\<close>

definition demo_cache_ops :: cache_ops where
  "demo_cache_ops = \<lparr>rw_inode = \<lambda>i s. s\<lparr>inode_table := (inode_table s)[i := (inode_table s ! i)\<lparr>IN_ISDIRTY := False\<rparr>],
       buf_table := map (\<lambda>b. b\<lparr>ISDIRTY := True\<rparr>) (buf_table s)\<rparr>,
     flushall = \<lambda>dev s. s\<lparr>buf_table := map (\<lambda>b. if buf_dev b = dev then b\<lparr>ISDIRTY := False\<rparr> else b) (buf_table s)\<rparr>,
     invalidate = \<lambda>dev s. s\<lparr>buf_table := map (\<lambda>b. if buf_dev b = dev then b\<lparr>buf_dev := 0\<rparr> else b) (buf_table s)\<rparr>,
     NO_DEV = 0, fs_dev = 5, EBUSY = -16, EINVAL = -22\<rparr>"

definition demo_caches :: caches where
  "demo_caches = \<lparr>inode_table = [\<lparr>i_count = 1, IN_ISDIRTY = True\<rparr>, \<lparr>i_count = 0, IN_ISDIRTY = True\<rparr>],
     buf_table = [\<lparr>buf_dev = 5, ISDIRTY = False\<rparr>, \<lparr>buf_dev = 6, ISDIRTY = True\<rparr>]\<rparr>"

lemma demo_cache_laws: "cache_laws demo_cache_ops"
  by (auto simp: cache_laws_def demo_cache_ops_def no_new_dirt_def list_all2_conv_all_nth list_all_iff)

theorem caches_written_back_witness:
  "\<exists>s'. fs_sync demo_cache_ops demo_caches = Inr (0, s') \<and>
     list_all (\<lambda>r. i_count r > 0 \<longrightarrow> \<not> IN_ISDIRTY r) (inode_table s') \<and>
     list_all (\<lambda>b. buf_dev b \<noteq> 0 \<longrightarrow> \<not> ISDIRTY b) (buf_table s')"
proof -
  have "buf_table demo_caches \<noteq> []" "NO_DEV demo_cache_ops = 0"
    by (simp_all add: demo_caches_def demo_cache_ops_def)
  with caches_written_back [OF demo_cache_laws, of demo_caches] show ?thesis by simp
qed

end
