(* ===== verification/MfsFrag.thy ===== *)
theory MfsFrag
  imports Prelude "HOL-Library.Signed_Division"
begin

text \<open>
  External fragmentation in MFS (prj_3/src/mfs/misc.c): how many blocks of the zones of a file
  are unused, summed over all inodes that the inode bitmap marks as allocated. The disk is a
  parameter: the chunks of the bitmap blocks, the inodes, and the constants of MFS.
\<close>

section \<open>The disk\<close>

record super_block =
  s_ninodes :: int
  s_zones :: int
  s_firstdatazone :: int
  s_imap_blocks :: int
  s_log_zone_size :: nat
  s_block_size :: int
  s_native :: int

record inode =
  i_num :: int
  i_mode :: int
  i_size :: int
  i_dev :: int
  i_ndzones :: nat
  i_nindirs :: nat
  i_zone :: "int list"

text \<open>
  \<open>bitmap n w\<close> is chunk w of the n-th block of the inode bitmap (get_block), \<open>conv2\<close> the byte
  order conversion, \<open>get_inode\<close> the inode table of the device.
\<close>

record disk =
  FS_BITCHUNK_BITS :: nat
  FS_BITMAP_CHUNKS :: "int \<Rightarrow> nat"
  FS_BITS_PER_BLOCK :: "int \<Rightarrow> nat"
  conv2 :: "int \<Rightarrow> int \<Rightarrow> int"
  bitmap :: "nat \<Rightarrow> nat \<Rightarrow> int"
  get_inode :: "int \<Rightarrow> inode option"

definition u32 :: "int \<Rightarrow> int" where
  "u32 x = x mod 2 ^ 32"

lemma u32_nat: "x < 2 ^ 32 \<Longrightarrow> u32 (int x) = int x"
  unfolding u32_def by (rule mod_pos_pos_trivial) auto

section \<open>One inode\<close>

text \<open>\<open>ceil((double) size / block_size)\<close> is exact for the sizes of MFS.\<close>

definition ceil_div :: "int \<Rightarrow> int \<Rightarrow> int" where
  "ceil_div a b = - ((- a) div b)"

definition FragInInode :: "disk \<Rightarrow> super_block \<Rightarrow> int \<Rightarrow> int \<Rightarrow> int res" where
  "FragInInode d sp blocksPerZone inode_no =
     (case get_inode d inode_no of
        None \<Rightarrow> Inr 0
      | Some rip \<Rightarrow>
          (let total_blocks_used = ceil_div (i_size rip) (s_block_size sp);
               blocks_in_last_zone = total_blocks_used smod blocksPerZone
           in if blocksPerZone = 0 then Inl DivByZero
              else Inr (if blocks_in_last_zone \<noteq> 0 then blocksPerZone - blocks_in_last_zone else 0)))"

text \<open>The older copy of the function prints what it computes.\<close>

definition computeExtFragInInode :: "disk \<Rightarrow> super_block \<Rightarrow> int \<Rightarrow> int \<Rightarrow> int res" where
  "computeExtFragInInode d sp blocksPerZone inode_no =
     (case get_inode d inode_no of
        None \<Rightarrow> Inr 0
      | Some rip \<Rightarrow>
          (let total_blocks_used = ceil_div (i_size rip) (s_block_size sp);
               blocks_in_last_zone = total_blocks_used smod blocksPerZone
           in if blocksPerZone = 0 then Inl DivByZero
              else Inr (if blocks_in_last_zone \<noteq> 0 then blocksPerZone - blocks_in_last_zone else 0)))"

section \<open>The scan of the bitmap\<close>

text \<open>
  The three loops, over blocks, chunks and bits. What happens to one bit is \<open>step\<close>, on the
  chunk and the number of the bit in it; \<open>Inl\<close>: the loops are left at the end of the map.
\<close>

fun bit_loop :: "disk \<Rightarrow> super_block \<Rightarrow> (int \<Rightarrow> nat \<Rightarrow> 'a \<Rightarrow> 'a res) \<Rightarrow> nat \<Rightarrow> nat \<Rightarrow> int \<Rightarrow> nat list \<Rightarrow> 'a \<Rightarrow> ('a + 'a) res" where
  "bit_loop d sp step block w k [] acc = Inr (Inr acc)"
| "bit_loop d sp step block w k (i # is) acc =
     (let b = u32 (int (block * FS_BITS_PER_BLOCK d (s_block_size sp) + w * FS_BITCHUNK_BITS d + i))
      in if u32 (s_ninodes sp + 1) \<le> b then Inr (Inl acc)
         else bnd (step k i acc) (bit_loop d sp step block w k is))"

fun chunk_loop :: "disk \<Rightarrow> super_block \<Rightarrow> (int \<Rightarrow> nat \<Rightarrow> 'a \<Rightarrow> 'a res) \<Rightarrow> nat \<Rightarrow> nat list \<Rightarrow> 'a \<Rightarrow> ('a + 'a) res" where
  "chunk_loop d sp step block [] acc = Inr (Inr acc)"
| "chunk_loop d sp step block (w # ws) acc =
     bnd (bit_loop d sp step block w (conv2 d (s_native sp) (bitmap d block w)) [0..<FS_BITCHUNK_BITS d] acc)
       (\<lambda>r. case r of Inl acc' \<Rightarrow> Inr (Inl acc') | Inr acc' \<Rightarrow> chunk_loop d sp step block ws acc')"

fun block_loop :: "disk \<Rightarrow> super_block \<Rightarrow> (int \<Rightarrow> nat \<Rightarrow> 'a \<Rightarrow> 'a res) \<Rightarrow> nat \<Rightarrow> nat \<Rightarrow> 'a \<Rightarrow> ('a + 'a) res" where
  "block_loop d sp step 0 block acc = Inr (Inr acc)"
| "block_loop d sp step (Suc n) block acc =
     bnd (chunk_loop d sp step block [0..<FS_BITMAP_CHUNKS d (s_block_size sp)] acc)
       (\<lambda>r. case r of Inl acc' \<Rightarrow> Inr (Inl acc') | Inr acc' \<Rightarrow> block_loop d sp step n (block + 1) acc')"

text \<open>\<open>while (--bcount > 0)\<close> on an unsigned count: a map of no blocks is scanned 2 ^ 32 times.\<close>

definition iterations :: "super_block \<Rightarrow> nat" where
  "iterations sp = (let n = u32 (s_imap_blocks sp) in if n = 0 then 2 ^ 32 else nat n)"

definition scan_map :: "disk \<Rightarrow> super_block \<Rightarrow> (int \<Rightarrow> nat \<Rightarrow> 'a \<Rightarrow> 'a res) \<Rightarrow> 'a \<Rightarrow> ('a + 'a) res" where
  "scan_map d sp step acc = block_loop d sp step (iterations sp) 0 acc"

section \<open>The whole file system\<close>

record frag_acc =
  inodesScanned :: int
  TotalFragBlocks :: int
  max_efrag :: int
  min_efrag :: int

definition frag_start :: frag_acc where
  "frag_start = \<lparr>inodesScanned = 0, TotalFragBlocks = 0, max_efrag = 0, min_efrag = 0\<rparr>"

definition next_inode :: "frag_acc \<Rightarrow> frag_acc" where
  "next_inode acc = acc\<lparr>inodesScanned := u32 (inodesScanned acc + 1)\<rparr>"

definition frag_step :: "disk \<Rightarrow> super_block \<Rightarrow> int \<Rightarrow> int \<Rightarrow> nat \<Rightarrow> frag_acc \<Rightarrow> frag_acc res" where
  "frag_step d sp bpz k i acc =
     (if bit k i \<and> inodesScanned acc \<noteq> 0 then
        bnd (FragInInode d sp bpz (inodesScanned acc)) (\<lambda>n. let tmp = u32 n in
          Inr (next_inode (acc\<lparr>TotalFragBlocks := u32 (TotalFragBlocks acc + tmp),
                 max_efrag := (if tmp > max_efrag acc then tmp else max_efrag acc),
                 min_efrag := (if tmp < min_efrag acc then tmp else min_efrag acc)\<rparr>)))
      else Inr (next_inode acc))"

text \<open>What is printed; the percentage is the quotient of two of the numbers, as a float.\<close>

record frag_report =
  blocks_per_zone :: int
  block_size :: int
  zones_in_fs :: int
  blocks_in_fs :: int
  fragmented_blocks :: int
  largest :: int
  least :: int
  average :: int

definition zone_map_bits :: "super_block \<Rightarrow> int" where
  "zone_map_bits sp = u32 (s_zones sp - (s_firstdatazone sp - 1))"

definition blocks_total :: "super_block \<Rightarrow> int \<Rightarrow> int" where
  "blocks_total sp bpz = u32 (zone_map_bits sp * bpz)"

text \<open>None: the bitmap ended before its last bit was seen, and nothing is printed.\<close>

definition FraginFS :: "disk \<Rightarrow> super_block \<Rightarrow> int \<Rightarrow> frag_report option res" where
  "FraginFS d sp bpz =
     bnd (scan_map d sp (frag_step d sp bpz) frag_start) (\<lambda>r. case r of
       Inr acc \<Rightarrow> Inr None
     | Inl acc \<Rightarrow>
         if blocks_total sp bpz = 0 then Inl DivByZero
         else Inr (Some \<lparr>blocks_per_zone = bpz, block_size = s_block_size sp, zones_in_fs = zone_map_bits sp,
                blocks_in_fs = blocks_total sp bpz, fragmented_blocks = TotalFragBlocks acc,
                largest = max_efrag acc, least = min_efrag acc,
                average = TotalFragBlocks acc div blocks_total sp bpz\<rparr>))"

text \<open>The handler answers 1 whatever the scan returns.\<close>

definition fs_getfrag :: "disk \<Rightarrow> super_block \<Rightarrow> (int \<times> frag_report option) res" where
  "fs_getfrag d sp = bnd (FraginFS d sp (2 ^ s_log_zone_size sp)) (\<lambda>out. Inr (1, out))"

text \<open>The older copy: the same scan without the extremes and the average.\<close>

definition ext_frag_step :: "disk \<Rightarrow> super_block \<Rightarrow> int \<Rightarrow> int \<Rightarrow> nat \<Rightarrow> int \<times> int \<Rightarrow> (int \<times> int) res" where
  "ext_frag_step d sp bpz k i acc =
     (let (scanned, tot) = acc
      in if bit k i \<and> scanned \<noteq> 0 then
           bnd (computeExtFragInInode d sp bpz scanned) (\<lambda>n. Inr (u32 (scanned + 1), u32 (tot + u32 n)))
         else Inr (u32 (scanned + 1), tot))"

definition computeExtFragInFS :: "disk \<Rightarrow> super_block \<Rightarrow> int \<Rightarrow> (int \<times> int) option res" where
  "computeExtFragInFS d sp bpz =
     bnd (scan_map d sp (ext_frag_step d sp bpz) (0, 0)) (\<lambda>r. case r of
       Inr acc \<Rightarrow> Inr None
     | Inl (scanned, tot) \<Rightarrow> Inr (Some (blocks_total sp bpz, tot)))"

section \<open>One loop over all bits\<close>

fun mfold :: "(nat \<Rightarrow> 'a \<Rightarrow> 'a res) \<Rightarrow> nat list \<Rightarrow> 'a \<Rightarrow> 'a res" where
  "mfold f [] acc = Inr acc"
| "mfold f (b # bs) acc = bnd (f b acc) (mfold f bs)"

fun scan :: "(nat \<Rightarrow> 'a \<Rightarrow> 'a res) \<Rightarrow> nat \<Rightarrow> nat list \<Rightarrow> 'a \<Rightarrow> ('a + 'a) res" where
  "scan f lim [] acc = Inr (Inr acc)"
| "scan f lim (b # bs) acc = (if lim \<le> b then Inr (Inl acc) else bnd (f b acc) (scan f lim bs))"

lemma bnd_assoc: "bnd (bnd m f) g = bnd m (\<lambda>x. bnd (f x) g)"
  by (cases m) auto

lemma scan_append:
  "scan f lim (xs @ ys) acc =
     bnd (scan f lim xs acc) (\<lambda>r. case r of Inl a \<Rightarrow> Inr (Inl a) | Inr a \<Rightarrow> scan f lim ys a)"
  by (induction xs arbitrary: acc) (auto simp: bnd_assoc cong: bnd_cong)

lemma mfold_snoc: "mfold f (xs @ [b]) acc = bnd (mfold f xs acc) (f b)"
proof (induction xs arbitrary: acc)
  case Nil
  then show ?case by (cases "f b acc") auto
qed (simp add: bnd_assoc cong: bnd_cong)

lemma scan_upt:
  "a \<le> lim \<Longrightarrow> scan f lim [a..<n] acc =
     (if n \<le> lim then bnd (mfold f [a..<n] acc) (\<lambda>x. Inr (Inr x)) else bnd (mfold f [a..<lim] acc) (\<lambda>x. Inr (Inl x)))"
proof (induction "n - a" arbitrary: a acc)
  case 0
  then show ?case by auto
next
  case (Suc m)
  then have u: "[a..<n] = a # [Suc a..<n]" by (simp add: upt_conv_Cons)
  show ?case
  proof (cases "lim = a")
    case True
    with Suc.hyps(2) show ?thesis by (auto simp: u)
  next
    case False
    with Suc.prems have l: "Suc a \<le> lim" "[a..<lim] = a # [Suc a..<lim]" by (simp_all add: upt_conv_Cons)
    from Suc.hyps(1) [OF _ l(1)] Suc.hyps(2) have
      ih: "scan f lim [Suc a..<n] acc' = (if n \<le> lim then bnd (mfold f [Suc a..<n] acc') (\<lambda>x. Inr (Inr x))
        else bnd (mfold f [Suc a..<lim] acc') (\<lambda>x. Inr (Inl x)))" for acc' by simp
    show ?thesis using False l(1) unfolding u l(2) by (auto simp: ih bnd_assoc cong: bnd_cong)
  qed
qed

lemma concat_blocks: "concat (map (\<lambda>w. map (\<lambda>i. a + w * c + i) [0..<c]) [0..<m]) = [a..<a + m * c]"
proof (induction m)
  case (Suc m)
  have "map (\<lambda>i. a + m * c + i) [0..<c] = [a + m * c..<a + m * c + c]"
    by (simp add: map_add_upt add.commute)
  with Suc show ?case using upt_add_eq_append [of a "a + m * c" c] by (simp add: algebra_simps)
qed simp

text \<open>The geometry MFS promises: the chunks of a block are its bits, and bit numbers fit 32 bits.\<close>

definition geometry :: "disk \<Rightarrow> super_block \<Rightarrow> bool" where
  "geometry d sp \<longleftrightarrow> 0 < FS_BITCHUNK_BITS d \<and>
     FS_BITS_PER_BLOCK d (s_block_size sp) = FS_BITMAP_CHUNKS d (s_block_size sp) * FS_BITCHUNK_BITS d \<and>
     0 < s_imap_blocks sp \<and> nat (s_imap_blocks sp) * FS_BITS_PER_BLOCK d (s_block_size sp) \<le> 2 ^ 32 \<and>
     s_imap_blocks sp < 2 ^ 15"

text \<open>The chunk that holds a bit of the map.\<close>

definition chunk_at :: "disk \<Rightarrow> super_block \<Rightarrow> nat \<Rightarrow> int" where
  "chunk_at d sp b = (let n = FS_BITS_PER_BLOCK d (s_block_size sp)
     in conv2 d (s_native sp) (bitmap d (b div n) (b mod n div FS_BITCHUNK_BITS d)))"

definition at_bit :: "disk \<Rightarrow> super_block \<Rightarrow> (int \<Rightarrow> nat \<Rightarrow> 'a \<Rightarrow> 'a res) \<Rightarrow> nat \<Rightarrow> 'a \<Rightarrow> 'a res" where
  "at_bit d sp step b = step (chunk_at d sp b) (b mod FS_BITCHUNK_BITS d)"

definition map_end :: "super_block \<Rightarrow> nat" where
  "map_end sp = nat (u32 (s_ninodes sp + 1))"

lemma bit_scan:
  assumes g: "geometry d sp" and bl: "block < nat (s_imap_blocks sp)" and w: "w < FS_BITMAP_CHUNKS d (s_block_size sp)"
    and i: "\<forall>i \<in> set is. i < FS_BITCHUNK_BITS d"
    and k: "k = conv2 d (s_native sp) (bitmap d block w)"
  shows "bit_loop d sp step block w k is acc =
    scan (at_bit d sp step) (map_end sp)
      (map (\<lambda>i. block * FS_BITS_PER_BLOCK d (s_block_size sp) + w * FS_BITCHUNK_BITS d + i) is) acc"
  using i
proof (induction "is" arbitrary: acc)
  case (Cons i "is")
  let ?c = "FS_BITCHUNK_BITS d" and ?n = "FS_BITS_PER_BLOCK d (s_block_size sp)"
  let ?o = "w * ?c + i"
  have ic: "i < ?c" using Cons.prems by simp
  have "?o < Suc w * ?c" using ic by simp
  also have "Suc w * ?c \<le> ?n" using w g unfolding geometry_def by (metis Suc_leI mult_le_mono1)
  finally have o: "?o < ?n" .
  have dm: "(block * ?n + ?o) div ?n = block" "(block * ?n + ?o) mod ?n = ?o" "?o div ?c = w"
    using o ic by (simp_all add: div_mult_self3)
  have "?n = FS_BITMAP_CHUNKS d (s_block_size sp) * ?c" using g by (simp add: geometry_def)
  then have "(block * ?n + ?o) mod ?c = i" using ic
    by (metis add.assoc mod_less mod_mult_self3 mult.assoc)
  with dm have at: "at_bit d sp step (block * ?n + w * ?c + i) = step k i"
    by (simp add: at_bit_def chunk_at_def Let_def k add.assoc fun_eq_iff)
  have "block * ?n + ?o < Suc block * ?n" using o by simp
  also have "Suc block * ?n \<le> nat (s_imap_blocks sp) * ?n" using bl by (simp add: Suc_leI del: mult_Suc)
  also have "\<dots> \<le> 2 ^ 32" using g unfolding geometry_def by blast
  finally have "block * ?n + ?o < 2 ^ 32" .
  then have u: "u32 (int (block * ?n + w * ?c + i)) = int (block * ?n + w * ?c + i)"
    using u32_nat [of "block * ?n + ?o"] by (simp only: add.assoc)
  have "u32 (s_ninodes sp + 1) \<le> int (block * ?n + w * ?c + i) \<longleftrightarrow> map_end sp \<le> block * ?n + w * ?c + i"
    unfolding map_end_def by (simp add: nat_le_iff)
  with u at Cons show ?case by (simp add: Let_def del: of_nat_add of_nat_mult cong: bnd_cong)
qed simp

lemma chunk_scan:
  assumes g: "geometry d sp" and bl: "block < nat (s_imap_blocks sp)"
    and ws: "\<forall>w \<in> set ws. w < FS_BITMAP_CHUNKS d (s_block_size sp)"
  shows "chunk_loop d sp step block ws acc =
    scan (at_bit d sp step) (map_end sp)
      (concat (map (\<lambda>w. map (\<lambda>i. block * FS_BITS_PER_BLOCK d (s_block_size sp) + w * FS_BITCHUNK_BITS d + i)
        [0..<FS_BITCHUNK_BITS d]) ws)) acc"
  using ws
proof (induction ws arbitrary: acc)
  case (Cons w ws)
  have "w < FS_BITMAP_CHUNKS d (s_block_size sp)" using Cons.prems by simp
  then have "bit_loop d sp step block w (conv2 d (s_native sp) (bitmap d block w)) [0..<FS_BITCHUNK_BITS d] acc =
      scan (at_bit d sp step) (map_end sp)
        (map (\<lambda>i. block * FS_BITS_PER_BLOCK d (s_block_size sp) + w * FS_BITCHUNK_BITS d + i) [0..<FS_BITCHUNK_BITS d]) acc"
    by (rule bit_scan [OF g bl _ _ refl]) simp
  with Cons show ?case by (simp add: scan_append cong: bnd_cong sum.case_cong)
qed simp

lemma block_scan:
  assumes g: "geometry d sp"
  shows "block + k \<le> nat (s_imap_blocks sp) \<Longrightarrow> block_loop d sp step k block acc =
    scan (at_bit d sp step) (map_end sp)
      [block * FS_BITS_PER_BLOCK d (s_block_size sp)..<(block + k) * FS_BITS_PER_BLOCK d (s_block_size sp)] acc"
proof (induction k arbitrary: block acc)
  case (Suc k)
  let ?n = "FS_BITS_PER_BLOCK d (s_block_size sp)"
  have n: "?n = FS_BITMAP_CHUNKS d (s_block_size sp) * FS_BITCHUNK_BITS d" using g by (simp add: geometry_def)
  have "chunk_loop d sp step block [0..<FS_BITMAP_CHUNKS d (s_block_size sp)] acc =
      scan (at_bit d sp step) (map_end sp) [block * ?n..<block * ?n + ?n] acc"
    using chunk_scan [OF g, of block "[0..<FS_BITMAP_CHUNKS d (s_block_size sp)]" step acc] Suc.prems
      concat_blocks [of "block * ?n" "FS_BITCHUNK_BITS d" "FS_BITMAP_CHUNKS d (s_block_size sp)"] n by simp
  moreover have "[block * ?n..<(block + Suc k) * ?n] = [block * ?n..<block * ?n + ?n] @ [Suc block * ?n..<(Suc block + k) * ?n]"
    using upt_add_eq_append [of "block * ?n" "block * ?n + ?n" "k * ?n"] by (simp add: algebra_simps)
  ultimately show ?case using Suc.IH [of "Suc block"] Suc.prems
    by (simp add: scan_append cong: bnd_cong sum.case_cong)
qed simp

definition map_bits_total :: "disk \<Rightarrow> super_block \<Rightarrow> nat" where
  "map_bits_total d sp = nat (s_imap_blocks sp) * FS_BITS_PER_BLOCK d (s_block_size sp)"

text \<open>The three loops are one fold over the bits up to the end of the map.\<close>

lemma scan_map_fold:
  assumes "geometry d sp"
  shows "scan_map d sp step acc =
    (if map_bits_total d sp \<le> map_end sp then bnd (mfold (at_bit d sp step) [0..<map_bits_total d sp] acc) (\<lambda>x. Inr (Inr x))
     else bnd (mfold (at_bit d sp step) [0..<map_end sp] acc) (\<lambda>x. Inr (Inl x)))"
proof -
  have "u32 (s_imap_blocks sp) = s_imap_blocks sp" "0 < s_imap_blocks sp"
    using assms by (simp_all add: geometry_def u32_def)
  then have "iterations sp = nat (s_imap_blocks sp)" by (simp add: iterations_def Let_def)
  then show ?thesis using block_scan [OF assms, of 0 "nat (s_imap_blocks sp)" step acc]
    by (simp add: scan_map_def map_bits_total_def scan_upt)
qed

section \<open>What the scan computes\<close>

definition allocated :: "disk \<Rightarrow> super_block \<Rightarrow> nat \<Rightarrow> bool" where
  "allocated d sp b \<longleftrightarrow> bit (chunk_at d sp b) (b mod FS_BITCHUNK_BITS d)"

text \<open>The inodes in use below a bound; bit 0 of the map is no inode.\<close>

definition used_inodes :: "disk \<Rightarrow> super_block \<Rightarrow> nat \<Rightarrow> nat set" where
  "used_inodes d sp m = {b. 0 < b \<and> b < m \<and> allocated d sp b}"

text \<open>The blocks of a file's zones that the file does not use.\<close>

definition unused :: "disk \<Rightarrow> super_block \<Rightarrow> int \<Rightarrow> nat \<Rightarrow> int" where
  "unused d sp bpz b =
     (case get_inode d (int b) of
        None \<Rightarrow> 0
      | Some rip \<Rightarrow> let n = ceil_div (i_size rip) (s_block_size sp) in bpz * ceil_div n bpz - n)"

definition sizes_ok :: "disk \<Rightarrow> super_block \<Rightarrow> bool" where
  "sizes_ok d sp \<longleftrightarrow> 0 < s_block_size sp \<and> (\<forall>i rip. get_inode d i = Some rip \<longrightarrow> 0 \<le> i_size rip)"

lemma zone_rest: "bpz * ceil_div n bpz - n = (- n) mod bpz"
proof -
  have "bpz * - ((- n) div bpz) = - (bpz * ((- n) div bpz))" by simp
  then show ?thesis unfolding ceil_div_def using mult_div_mod_eq [of bpz "- n"] by linarith
qed

lemma ceil_div_nonneg: "0 \<le> a \<Longrightarrow> 0 < b \<Longrightarrow> 0 \<le> ceil_div a b"
  by (simp add: ceil_div_def div_nonpos_pos_le0)

lemma FragInInode_spec:
  assumes "sizes_ok d sp" and "0 < bpz"
  shows "FragInInode d sp bpz (int b) = Inr (unused d sp bpz b)"
proof (cases "get_inode d (int b)")
  case (Some rip)
  let ?n = "ceil_div (i_size rip) (s_block_size sp)"
  have "0 \<le> ?n" using assms(1) Some ceil_div_nonneg unfolding sizes_ok_def by blast
  then have "?n smod bpz = ?n mod bpz" using assms(2) by (cases "?n = 0") (auto simp: signed_modulo_int_def)
  with Some assms(2) show ?thesis
    by (simp add: FragInInode_def unused_def Let_def zone_rest zmod_zminus1_eq_if)
qed (simp add: FragInInode_def unused_def)

lemma unused_range: "0 < bpz \<Longrightarrow> 0 \<le> unused d sp bpz b \<and> unused d sp bpz b < bpz"
  by (simp add: unused_def Let_def zone_rest split: option.split)

lemma used_inodes_Suc:
  "used_inodes d sp (Suc m) = (if 0 < m \<and> allocated d sp m then insert m (used_inodes d sp m) else used_inodes d sp m)"
  by (auto simp: used_inodes_def less_Suc_eq)

lemma used_inodes_finite [simp]: "finite (used_inodes d sp m)" "m \<notin> used_inodes d sp m"
  by (auto simp: used_inodes_def)

definition largest_of :: "int set \<Rightarrow> int" where
  "largest_of A = Max (insert 0 A)"

lemma largest_insert: "finite A \<Longrightarrow> largest_of (insert x A) = (if largest_of A < x then x else largest_of A)"
proof -
  assume "finite A"
  then have "Max (insert x (insert 0 A)) = max x (Max (insert 0 A))" by (intro Max_insert) auto
  then show ?thesis unfolding largest_of_def by (subst insert_commute) (simp add: max_def not_less)
qed

lemma frag_fold:
  assumes ok: "sizes_ok d sp" and bpz: "0 < bpz" "bpz \<le> 2 ^ 32"
  shows "m < 2 ^ 32 \<Longrightarrow> (\<Sum>b\<in>used_inodes d sp m. unused d sp bpz b) < 2 ^ 32 \<Longrightarrow>
    mfold (at_bit d sp (frag_step d sp bpz)) [0..<m] frag_start =
      Inr \<lparr>inodesScanned = int m, TotalFragBlocks = (\<Sum>b\<in>used_inodes d sp m. unused d sp bpz b),
           max_efrag = largest_of (unused d sp bpz ` used_inodes d sp m), min_efrag = 0\<rparr>"
proof (induction m)
  case 0
  then show ?case by (simp add: frag_start_def used_inodes_def largest_of_def)
next
  case (Suc m)
  let ?S = "\<Sum>b\<in>used_inodes d sp m. unused d sp bpz b"
  note r = unused_range [OF bpz(1), of d sp]
  have m: "m < 2 ^ 32" "u32 (int m + 1) = int (Suc m)" using Suc.prems(1) u32_nat [of "Suc m"] by (auto simp: add.commute)
  have S: "0 \<le> ?S" by (simp add: sum_nonneg r)
  show ?case
  proof (cases "0 < m \<and> allocated d sp m")
    case True
    then have n: "(\<Sum>b\<in>used_inodes d sp (Suc m). unused d sp bpz b) = unused d sp bpz m + ?S"
      by (simp add: used_inodes_Suc)
    then have lt: "?S < 2 ^ 32" "unused d sp bpz m + ?S < 2 ^ 32" using Suc.prems(2) r [of m] by linarith+
    have u: "u32 (unused d sp bpz m) = unused d sp bpz m" "u32 (?S + unused d sp bpz m) = unused d sp bpz m + ?S"
      using lt S r [of m] by (simp_all add: u32_def)
    have mx: "largest_of (unused d sp bpz ` used_inodes d sp (Suc m)) =
        (if largest_of (unused d sp bpz ` used_inodes d sp m) < unused d sp bpz m then unused d sp bpz m
         else largest_of (unused d sp bpz ` used_inodes d sp m))"
      using True by (simp add: used_inodes_Suc largest_insert)
    have "\<not> unused d sp bpz m < 0" using r [of m] by simp
    then show ?thesis using Suc.IH [OF m(1) lt(1)] True n u m(2) mx
      by (simp add: mfold_snoc at_bit_def frag_step_def FragInInode_spec [OF ok bpz(1)] next_inode_def Let_def
          allocated_def)
  next
    case False
    then have n: "used_inodes d sp (Suc m) = used_inodes d sp m" by (auto simp: used_inodes_Suc)
    then have lt: "?S < 2 ^ 32" using Suc.prems(2) by simp
    have "at_bit d sp (frag_step d sp bpz) m acc = Inr (next_inode acc)" if "inodesScanned acc = int m" for acc
      using False that by (auto simp: at_bit_def frag_step_def allocated_def)
    then show ?thesis using Suc.IH [OF m(1) lt] n m(2) by (simp add: mfold_snoc next_inode_def)
  qed
qed

section \<open>The two copies\<close>

text \<open>Two scans whose steps agree under a map of their states agree.\<close>

definition image_res :: "('a \<Rightarrow> 'b) \<Rightarrow> ('a + 'a) res \<Rightarrow> ('b + 'b) res" where
  "image_res h r = bnd r (\<lambda>x. Inr (case x of Inl a \<Rightarrow> Inl (h a) | Inr a \<Rightarrow> Inr (h a)))"

lemma image_res_simps [simp]:
  "image_res h (Inr (Inr a)) = Inr (Inr (h a))" "image_res h (Inr (Inl a)) = Inr (Inl (h a))" "image_res h (Inl e) = Inl e"
  by (simp_all add: image_res_def)

lemma image_res_bnd:
  assumes "\<And>x. k' (h x) = image_res g (k x)"
  shows "bnd (bnd r (\<lambda>x. Inr (h x))) k' = image_res g (bnd r k)"
  using assms by (cases r) auto

lemma image_res_next:
  assumes "\<And>a. k' (h a) = image_res h (k a)"
  shows "bnd (image_res h r) (\<lambda>x. case x of Inl a \<Rightarrow> Inr (Inl a) | Inr a \<Rightarrow> k' a) =
    image_res h (bnd r (\<lambda>x. case x of Inl a \<Rightarrow> Inr (Inl a) | Inr a \<Rightarrow> k a))"
proof (cases r)
  case (Inr x)
  then show ?thesis using assms by (cases x) auto
qed simp

lemma bit_loop_image:
  assumes "\<And>k i acc. step' k i (h acc) = bnd (step k i acc) (\<lambda>x. Inr (h x))"
  shows "bit_loop d sp step' block w k is (h acc) = image_res h (bit_loop d sp step block w k is acc)"
  by (induction "is" arbitrary: acc) (simp_all add: Let_def assms image_res_bnd [where h = h])

lemma chunk_loop_image:
  assumes "\<And>k i acc. step' k i (h acc) = bnd (step k i acc) (\<lambda>x. Inr (h x))"
  shows "chunk_loop d sp step' block ws (h acc) = image_res h (chunk_loop d sp step block ws acc)"
  by (induction ws arbitrary: acc) (simp_all add: bit_loop_image [where h = h and step' = step' and step = step, OF assms] image_res_next)

lemma block_loop_image:
  assumes "\<And>k i acc. step' k i (h acc) = bnd (step k i acc) (\<lambda>x. Inr (h x))"
  shows "block_loop d sp step' n block (h acc) = image_res h (block_loop d sp step n block acc)"
  by (induction n arbitrary: block acc) (simp_all add: chunk_loop_image [where h = h and step' = step' and step = step, OF assms] image_res_next)

definition totals :: "frag_acc \<Rightarrow> int \<times> int" where
  "totals acc = (inodesScanned acc, TotalFragBlocks acc)"

lemma ext_step_totals:
  "ext_frag_step d sp bpz k i (totals acc) = bnd (frag_step d sp bpz k i acc) (\<lambda>x. Inr (totals x))"
proof -
  have "computeExtFragInInode d sp bpz n = FragInInode d sp bpz n" for n
    by (simp add: computeExtFragInInode_def FragInInode_def)
  then show ?thesis
    by (cases "FragInInode d sp bpz (inodesScanned acc)")
      (simp_all add: ext_frag_step_def frag_step_def totals_def next_inode_def Let_def)
qed

lemma ext_scan: "scan_map d sp (ext_frag_step d sp bpz) (0, 0) = image_res totals (scan_map d sp (frag_step d sp bpz) frag_start)"
proof -
  have "(0, 0) = totals frag_start" by (simp add: totals_def frag_start_def)
  then show ?thesis by (simp only: scan_map_def block_loop_image [where h = totals and step' = "ext_frag_step d sp bpz"
      and step = "frag_step d sp bpz", OF ext_step_totals])
qed

section \<open>Properties\<close>

text \<open>
  C31. The report on external fragmentation: when the bitmap has more bits than the map
  (inodes 0 to s_ninodes), the total is the sum, over the inodes in use, of the blocks of the
  file's zones that the file does not use, the largest is their maximum and the average the
  quotient by all blocks; the least is always 0, because it starts at 0.
\<close>

theorem fragmentation_report:
  fixes d sp
  defines "bpz \<equiv> 2 ^ s_log_zone_size sp" and "used \<equiv> used_inodes d sp (map_end sp)"
  assumes "geometry d sp" and "sizes_ok d sp" and "bpz \<le> 2 ^ 32" and "map_end sp < map_bits_total d sp"
    and "(\<Sum>b\<in>used. unused d sp bpz b) < 2 ^ 32" and "blocks_total sp bpz \<noteq> 0"
  shows "fs_getfrag d sp = Inr (1, Some \<lparr>blocks_per_zone = bpz, block_size = s_block_size sp,
    zones_in_fs = zone_map_bits sp, blocks_in_fs = blocks_total sp bpz,
    fragmented_blocks = (\<Sum>b\<in>used. unused d sp bpz b), largest = Max (insert 0 (unused d sp bpz ` used)),
    least = 0, average = (\<Sum>b\<in>used. unused d sp bpz b) div blocks_total sp bpz\<rparr>)"
proof -
  have "map_end sp < 2 ^ 32" by (simp add: map_end_def u32_def nat_less_iff)
  moreover have "0 < bpz" by (simp add: bpz_def)
  ultimately have "scan_map d sp (frag_step d sp bpz) frag_start =
      Inr (Inl \<lparr>inodesScanned = int (map_end sp), TotalFragBlocks = (\<Sum>b\<in>used. unused d sp bpz b),
           max_efrag = largest_of (unused d sp bpz ` used), min_efrag = 0\<rparr>)"
    using assms(4-7) frag_fold [OF assms(4), of bpz "map_end sp"] unfolding used_def
    by (simp add: scan_map_fold [OF assms(3)])
  with assms(8) show ?thesis by (simp add: fs_getfrag_def FraginFS_def bpz_def largest_of_def)
qed

definition demo_disk :: disk where
  "demo_disk = \<lparr>FS_BITCHUNK_BITS = 8, FS_BITMAP_CHUNKS = \<lambda>_. 1, FS_BITS_PER_BLOCK = \<lambda>_. 8,
     conv2 = \<lambda>_ x. x, bitmap = \<lambda>_ _. 14,
     get_inode = \<lambda>i. Some \<lparr>i_num = i, i_mode = 0, i_size = (if i = 1 then 5000 else if i = 2 then 4096 else 100),
       i_dev = 1, i_ndzones = 7, i_nindirs = 256, i_zone = []\<rparr>\<rparr>"

definition demo_sb :: super_block where
  "demo_sb = \<lparr>s_ninodes = 3, s_zones = 100, s_firstdatazone = 10, s_imap_blocks = 1, s_log_zone_size = 2,
     s_block_size = 1024, s_native = 1\<rparr>"

lemma demo_frag:
  "geometry demo_disk demo_sb" "sizes_ok demo_disk demo_sb" "map_end demo_sb = 4" "map_bits_total demo_disk demo_sb = 8"
  "unused demo_disk demo_sb 4 1 = 3" "unused demo_disk demo_sb 4 2 = 0" "unused demo_disk demo_sb 4 3 = 3"
  "blocks_total demo_sb 4 = 364" "zone_map_bits demo_sb = 91"
  by (simp_all add: geometry_def sizes_ok_def demo_disk_def demo_sb_def map_end_def map_bits_total_def u32_def
      unused_def ceil_div_def blocks_total_def zone_map_bits_def)

lemma demo_used: "used_inodes demo_disk demo_sb 4 = {1, 2, 3}"
proof -
  have a: "allocated demo_disk demo_sb b \<longleftrightarrow> bit (14::int) (b mod 8)" for b
    by (simp add: allocated_def chunk_at_def demo_disk_def Let_def)
  have "allocated demo_disk demo_sb 1" "allocated demo_disk demo_sb 2" "allocated demo_disk demo_sb 3"
    unfolding a by code_simp+
  moreover have "0 < b \<and> b < (4::nat) \<longleftrightarrow> b = 1 \<or> b = 2 \<or> b = 3" for b by auto
  ultimately show ?thesis unfolding used_inodes_def by auto
qed

theorem fragmentation_report_witness:
  "fs_getfrag demo_disk demo_sb = Inr (1, Some \<lparr>blocks_per_zone = 4, block_size = 1024, zones_in_fs = 91,
     blocks_in_fs = 364, fragmented_blocks = 6, largest = 3, least = 0, average = 0\<rparr>)"
proof -
  have z: "(2::int) ^ s_log_zone_size demo_sb = 4" "s_block_size demo_sb = 1024" by (simp_all add: demo_sb_def)
  show ?thesis
    using fragmentation_report [OF demo_frag(1,2)] by (simp add: z demo_frag demo_frag(5) [simplified] demo_used)
qed

text \<open>
  A bitmap that has no bits beyond the map is scanned to its end and nothing is printed:
  the only exit with a report is the test that meets a bit past the map. The handler answers
  1 all the same.
\<close>

theorem full_bitmap_prints_nothing:
  fixes d sp
  defines "bpz \<equiv> 2 ^ s_log_zone_size sp"
  assumes "geometry d sp" and "sizes_ok d sp" and "bpz \<le> 2 ^ 32" and "map_bits_total d sp \<le> map_end sp"
    and "(\<Sum>b\<in>used_inodes d sp (map_bits_total d sp). unused d sp bpz b) < 2 ^ 32"
  shows "fs_getfrag d sp = Inr (1, None)"
proof -
  have "map_end sp < 2 ^ 32" by (simp add: map_end_def u32_def nat_less_iff)
  then have "map_bits_total d sp < 2 ^ 32" using assms(5) by linarith
  moreover have "0 < bpz" by (simp add: bpz_def)
  ultimately show ?thesis
    using assms(4-6) frag_fold [OF assms(3), of bpz "map_bits_total d sp"]
    by (simp add: fs_getfrag_def FraginFS_def scan_map_fold [OF assms(2)] bpz_def)
qed

theorem full_bitmap_prints_nothing_witness:
  "fs_getfrag demo_disk (demo_sb\<lparr>s_ninodes := 7\<rparr>) = Inr (1, None)"
proof -
  let ?sp = "demo_sb\<lparr>s_ninodes := 7\<rparr>"
  have g: "geometry demo_disk ?sp" "sizes_ok demo_disk ?sp" "map_end ?sp = 8" "map_bits_total demo_disk ?sp = 8"
    by (simp_all add: geometry_def sizes_ok_def demo_disk_def demo_sb_def map_end_def map_bits_total_def u32_def)
  have "unused demo_disk ?sp 4 b \<le> 4" for b using unused_range [of 4 demo_disk ?sp b] by simp
  then have "(\<Sum>b\<in>used_inodes demo_disk ?sp 8. unused demo_disk ?sp 4 b) \<le> of_nat (card (used_inodes demo_disk ?sp 8)) * 4"
    by (rule sum_bounded_above)
  also have "card (used_inodes demo_disk ?sp 8) \<le> card {..<8::nat}"
    by (rule card_mono) (auto simp: used_inodes_def)
  finally have "(\<Sum>b\<in>used_inodes demo_disk ?sp 8. unused demo_disk ?sp 4 b) < 2 ^ 32" by simp
  with full_bitmap_prints_nothing [OF g(1,2)] g(3,4) show ?thesis by (simp add: demo_sb_def)
qed

text \<open>
  The two copies of the computation agree: whenever one prints, computeExtFragInFS finds
  the same number of blocks and the same total of fragmented ones, and it prints nothing when
  the other prints nothing.
\<close>

theorem copies_agree:
  "(\<forall>out. FraginFS d sp bpz = Inr (Some out) \<longrightarrow>
      computeExtFragInFS d sp bpz = Inr (Some (blocks_in_fs out, fragmented_blocks out))) \<and>
   (FraginFS d sp bpz = Inr None \<longrightarrow> computeExtFragInFS d sp bpz = Inr None)"
  by (cases "scan_map d sp (frag_step d sp bpz) frag_start")
    (auto simp: FraginFS_def computeExtFragInFS_def ext_scan totals_def split: sum.splits if_splits)

theorem copies_agree_witness:
  "computeExtFragInFS demo_disk demo_sb 4 = Inr (Some (364, 6))"
proof -
  have "FraginFS demo_disk demo_sb 4 = Inr (Some \<lparr>blocks_per_zone = 4, block_size = 1024, zones_in_fs = 91,
     blocks_in_fs = 364, fragmented_blocks = 6, largest = 3, least = 0, average = 0\<rparr>)"
    by code_simp
  with copies_agree show ?thesis by fastforce
qed

end
