(* ===== verification/MfsBlocks.thy ===== *)
theory MfsBlocks
  imports MfsFrag
begin

text \<open>
  The blocks of a file (prj_3/src/mfs/misc.c, fs_get_inode_blocks): the direct zones of the
  inode, then those behind its single and double indirect zones are visited until the size is
  used up, and the block numbers are printed as ranges.
\<close>

section \<open>Blocks\<close>

text \<open>
  A buffer of the cache: its device and number, its contents read as zone numbers (rd_indir),
  and read as the inode numbers of directory entries.
\<close>

record fs_buf =
  b_dev :: int
  b_blocknr :: int
  b_indir :: "nat \<Rightarrow> int"
  b_dir :: "nat \<Rightarrow> int"

record volume = disk +
  NO_ZONE :: int
  get_block :: "int \<Rightarrow> int \<Rightarrow> fs_buf"

text \<open>
  The globals of the walk. The two block numbers are 32 bits wide, -1 and -2 being 2 ^ 32 - 1
  and 2 ^ 32 - 2; \<open>printed\<close> collects the ranges that are printed.
\<close>

record block_walk =
  block_count :: int
  EOF_reached :: bool
  starting_block_num :: int
  last_block_num :: int
  printed :: "(int \<times> int) list"

text \<open>One block of a zone.\<close>

definition visit :: "int \<Rightarrow> fs_buf \<Rightarrow> block_walk \<Rightarrow> block_walk" where
  "visit dev bp st =
     (if b_dev bp = dev then
        let st1 = (if last_block_num st \<noteq> u32 (b_blocknr bp - 1) then
                     (if starting_block_num st = u32 (-1) then st
                      else st\<lparr>printed := printed st @ [(starting_block_num st, last_block_num st)]\<rparr>)
                     \<lparr>starting_block_num := u32 (b_blocknr bp)\<rparr>
                   else st);
            n = block_count st - 1
        in st1\<lparr>last_block_num := u32 (b_blocknr bp), block_count := n, EOF_reached := EOF_reached st \<or> n = 0\<rparr>
      else st)"

fun zone_loop :: "volume \<Rightarrow> nat \<Rightarrow> int \<Rightarrow> int \<Rightarrow> nat list \<Rightarrow> block_walk \<Rightarrow> block_walk" where
  "zone_loop v scale dev zone_num [] st = st"
| "zone_loop v scale dev zone_num (i # is) st =
     (if block_count st = 0 then st
      else zone_loop v scale dev zone_num is
             (visit dev (get_block v dev (u32 (zone_num * 2 ^ scale + int i))) st))"

definition get_dir_zone :: "volume \<Rightarrow> nat \<Rightarrow> int \<Rightarrow> int \<Rightarrow> block_walk \<Rightarrow> block_walk" where
  "get_dir_zone v scale dev zone_num st =
     (if block_count st = 0 then st\<lparr>EOF_reached := True\<rparr>
      else if zone_num = NO_ZONE v then st
      else zone_loop v scale dev zone_num [0..<2 ^ scale] st)"

text \<open>The loops over zone numbers stop once the end of the file is reached.\<close>

fun dir_zones :: "volume \<Rightarrow> nat \<Rightarrow> int \<Rightarrow> int list \<Rightarrow> block_walk \<Rightarrow> block_walk" where
  "dir_zones v scale dev [] st = st"
| "dir_zones v scale dev (z # zs) st =
     (if EOF_reached st then st else dir_zones v scale dev zs (get_dir_zone v scale dev z st))"

definition indirect :: "volume \<Rightarrow> nat \<Rightarrow> inode \<Rightarrow> int \<Rightarrow> int list" where
  "indirect v scale ip zone_num =
     (let bp = get_block v (i_dev ip) (u32 (zone_num * 2 ^ scale)) in map (b_indir bp) [0..<i_nindirs ip])"

definition get_sin_ind_zone :: "volume \<Rightarrow> nat \<Rightarrow> inode \<Rightarrow> int \<Rightarrow> block_walk \<Rightarrow> block_walk" where
  "get_sin_ind_zone v scale ip zone_num st =
     (if zone_num = NO_ZONE v then st
      else dir_zones v scale (i_dev ip) (indirect v scale ip zone_num) st)"

fun sin_zones :: "volume \<Rightarrow> nat \<Rightarrow> inode \<Rightarrow> int list \<Rightarrow> block_walk \<Rightarrow> block_walk" where
  "sin_zones v scale ip [] st = st"
| "sin_zones v scale ip (z # zs) st =
     (if EOF_reached st then st else sin_zones v scale ip zs (get_sin_ind_zone v scale ip z st))"

definition get_dbl_ind_zone :: "volume \<Rightarrow> nat \<Rightarrow> inode \<Rightarrow> int \<Rightarrow> block_walk \<Rightarrow> block_walk" where
  "get_dbl_ind_zone v scale ip zone_num st =
     (if zone_num = NO_ZONE v then st else sin_zones v scale ip (indirect v scale ip zone_num) st)"

text \<open>
  The handler: get_inode is not checked for null. The last range is printed at the end, even
  when there is none.
\<close>

definition walk_start :: "int \<Rightarrow> block_walk" where
  "walk_start n = \<lparr>block_count = n, EOF_reached = (n = 0), starting_block_num = u32 (-1),
     last_block_num = u32 (-2), printed = []\<rparr>"

fun direct_loop :: "volume \<Rightarrow> nat \<Rightarrow> inode \<Rightarrow> nat list \<Rightarrow> block_walk \<Rightarrow> block_walk res" where
  "direct_loop v scale ip [] st = Inr st"
| "direct_loop v scale ip (i # is) st =
     (if EOF_reached st then Inr st
      else bnd (rd (i_zone ip) (int i)) (\<lambda>z. direct_loop v scale ip is (get_dir_zone v scale (i_dev ip) z st)))"

definition fs_get_inode_blocks :: "volume \<Rightarrow> super_block \<Rightarrow> int \<Rightarrow> (int \<times> int) list res" where
  "fs_get_inode_blocks v sp inode_nr =
     bnd (deref (get_inode v inode_nr)) (\<lambda>ip.
     let scale = s_log_zone_size sp;
         total_blocks_used = ceil_div (i_size ip) (s_block_size sp)
     in bnd (direct_loop v scale ip [0..<i_ndzones ip] (walk_start total_blocks_used)) (\<lambda>st1.
        bnd (if EOF_reached st1 then Inr st1
             else bnd (rd (i_zone ip) (int (i_ndzones ip))) (\<lambda>z1.
                  let st2 = get_sin_ind_zone v scale ip z1 st1
                  in if EOF_reached st2 then Inr st2
                     else bnd (rd (i_zone ip) (int (i_ndzones ip) + 1)) (\<lambda>z2.
                          Inr (get_dbl_ind_zone v scale ip z2 st2)))) (\<lambda>st.
          Inr (printed st @ [(starting_block_num st, last_block_num st)]))))"

section \<open>The block_walk as a list of blocks\<close>

text \<open>The cache returns the block that is asked for.\<close>

definition faithful :: "volume \<Rightarrow> int \<Rightarrow> bool" where
  "faithful v dev \<longleftrightarrow> (\<forall>n. 0 \<le> n \<and> n < 2 ^ 32 \<longrightarrow>
     b_dev (get_block v dev n) = dev \<and> b_blocknr (get_block v dev n) = n)"

lemma u32_range: "0 \<le> u32 x" "u32 x < 2 ^ 32" "u32 (u32 x) = u32 x"
  by (simp_all add: u32_def)

lemma u32_id: "0 \<le> x \<Longrightarrow> x < 2 ^ 32 \<Longrightarrow> u32 x = x"
  by (simp add: u32_def)

definition mark :: "int \<Rightarrow> block_walk \<Rightarrow> block_walk" where
  "mark b = visit 0 \<lparr>b_dev = 0, b_blocknr = b, b_indir = \<lambda>_. 0, b_dir = \<lambda>_. 0\<rparr>"

lemma visit_mark: "faithful v dev \<Longrightarrow> visit dev (get_block v dev (u32 x)) = mark (u32 x)"
proof -
  assume "faithful v dev"
  moreover have "0 \<le> u32 x \<and> u32 x < 2 ^ 32" by (simp only: u32_range)
  ultimately have "b_dev (get_block v dev (u32 x)) = dev" "b_blocknr (get_block v dev (u32 x)) = u32 x"
    unfolding faithful_def by blast+
  then show ?thesis by (simp add: mark_def visit_def fun_eq_iff)
qed

lemma mark_count [simp]: "block_count (mark b st) = block_count st - 1"
  by (simp add: mark_def visit_def Let_def)

lemma mark_EOF [simp]: "EOF_reached (mark b st) \<longleftrightarrow> EOF_reached st \<or> block_count st = 1"
  by (simp add: mark_def visit_def Let_def)

definition count_ok :: "block_walk \<Rightarrow> bool" where
  "count_ok st \<longleftrightarrow> 0 \<le> block_count st \<and> (EOF_reached st \<longleftrightarrow> block_count st = 0)"

text \<open>As many of the blocks as the file still has.\<close>

definition visits :: "int list \<Rightarrow> block_walk \<Rightarrow> block_walk" where
  "visits bs st = fold mark (take (nat (block_count st)) bs) st"

lemma visits_Nil [simp]: "visits [] st = st"
  by (simp add: visits_def)

lemma visits_done [simp]: "block_count st = 0 \<Longrightarrow> visits bs st = st"
  by (simp add: visits_def)

lemma visits_Cons: "0 < block_count st \<Longrightarrow> visits (b # bs) st = visits bs (mark b st)"
proof -
  assume "0 < block_count st"
  then have "nat (block_count st) = Suc (nat (block_count st - 1))" by simp
  then show ?thesis by (simp add: visits_def)
qed

lemma mark_ok: "count_ok st \<Longrightarrow> 0 < block_count st \<Longrightarrow> count_ok (mark b st)"
  by (auto simp: count_ok_def)

lemma visits_ok: "count_ok st \<Longrightarrow> count_ok (visits bs st)"
proof (induction bs arbitrary: st)
  case (Cons b bs)
  show ?case
  proof (cases "block_count st = 0")
    case False
    then have "0 < block_count st" using Cons.prems by (simp add: count_ok_def)
    with Cons mark_ok show ?thesis by (simp add: visits_Cons)
  qed (use Cons.prems in simp)
qed simp

lemma visits_append: "count_ok st \<Longrightarrow> visits (xs @ ys) st = visits ys (visits xs st)"
proof (induction xs arbitrary: st)
  case (Cons b xs)
  show ?case
  proof (cases "block_count st = 0")
    case False
    then have "0 < block_count st" using Cons.prems by (simp add: count_ok_def)
    with Cons mark_ok show ?thesis by (simp add: visits_Cons)
  qed simp
qed simp

text \<open>The blocks of a zone, of a list of zones, of an indirect zone; a missing zone has none.\<close>

definition zone_blocks :: "volume \<Rightarrow> nat \<Rightarrow> int \<Rightarrow> int list" where
  "zone_blocks v scale z =
     (if z = NO_ZONE v then [] else map (\<lambda>i. u32 (z * 2 ^ scale + int i)) [0..<2 ^ scale])"

definition sin_zones_of :: "volume \<Rightarrow> nat \<Rightarrow> inode \<Rightarrow> int \<Rightarrow> int list" where
  "sin_zones_of v scale ip z = (if z = NO_ZONE v then [] else indirect v scale ip z)"

definition dbl_zones_of :: "volume \<Rightarrow> nat \<Rightarrow> inode \<Rightarrow> int \<Rightarrow> int list" where
  "dbl_zones_of v scale ip z =
     (if z = NO_ZONE v then [] else concat (map (sin_zones_of v scale ip) (indirect v scale ip z)))"

definition blocks_of :: "volume \<Rightarrow> nat \<Rightarrow> int list \<Rightarrow> int list" where
  "blocks_of v scale zs = concat (map (zone_blocks v scale) zs)"

lemma blocks_of_simps [simp]:
  "blocks_of v scale [] = []" "blocks_of v scale (z # zs) = zone_blocks v scale z @ blocks_of v scale zs"
  "blocks_of v scale (xs @ ys) = blocks_of v scale xs @ blocks_of v scale ys"
  by (simp_all add: blocks_of_def)

lemma zone_loop_advance:
  assumes "faithful v dev"
  shows "count_ok st \<Longrightarrow> zone_loop v scale dev z is st = visits (map (\<lambda>i. u32 (z * 2 ^ scale + int i)) is) st"
proof (induction "is" arbitrary: st)
  case (Cons i "is")
  show ?case
  proof (cases "block_count st = 0")
    case False
    then have "0 < block_count st" using Cons.prems by (simp add: count_ok_def)
    with Cons mark_ok show ?thesis by (simp add: visits_Cons visit_mark [OF assms])
  qed simp
qed simp

lemma get_dir_zone_advance:
  assumes "faithful v dev" and "count_ok st"
  shows "get_dir_zone v scale dev z st = visits (zone_blocks v scale z) st"
  using assms zone_loop_advance [OF assms] by (auto simp: get_dir_zone_def zone_blocks_def count_ok_def)

lemma dir_zones_advance:
  assumes "faithful v dev"
  shows "count_ok st \<Longrightarrow> dir_zones v scale dev zs st = visits (blocks_of v scale zs) st"
proof (induction zs arbitrary: st)
  case (Cons z zs)
  then show ?case
    by (auto simp: get_dir_zone_advance [OF assms] visits_ok visits_append) (simp add: count_ok_def)
qed simp

lemma get_sin_advance:
  assumes "faithful v (i_dev ip)" and "count_ok st"
  shows "get_sin_ind_zone v scale ip z st = visits (blocks_of v scale (sin_zones_of v scale ip z)) st"
  using assms by (simp add: get_sin_ind_zone_def sin_zones_of_def dir_zones_advance)

lemma sin_zones_advance:
  assumes "faithful v (i_dev ip)"
  shows "count_ok st \<Longrightarrow>
    sin_zones v scale ip zs st = visits (blocks_of v scale (concat (map (sin_zones_of v scale ip) zs))) st"
proof (induction zs arbitrary: st)
  case (Cons z zs)
  then show ?case
    by (auto simp: get_sin_advance [OF assms] visits_ok visits_append) (simp add: count_ok_def)
qed simp

lemma get_dbl_advance:
  assumes "faithful v (i_dev ip)" and "count_ok st"
  shows "get_dbl_ind_zone v scale ip z st = visits (blocks_of v scale (dbl_zones_of v scale ip z)) st"
  using assms by (simp add: get_dbl_ind_zone_def dbl_zones_of_def sin_zones_advance)

lemma direct_advance:
  assumes "faithful v (i_dev ip)" and "\<forall>i\<in>set is. i < length (i_zone ip)"
  shows "count_ok st \<Longrightarrow>
    direct_loop v scale ip is st = Inr (visits (blocks_of v scale (map ((!) (i_zone ip)) is)) st)"
  using assms(2)
proof (induction "is" arbitrary: st)
  case (Cons i "is")
  then show ?case
    by (auto simp: get_dir_zone_advance [OF assms(1)] visits_ok visits_append) (simp add: count_ok_def)
qed simp

section \<open>Ranges\<close>

definition ranges :: "block_walk \<Rightarrow> (int \<times> int) list" where
  "ranges st = printed st @ [(starting_block_num st, last_block_num st)]"

definition expand :: "(int \<times> int) list \<Rightarrow> int list" where
  "expand rs = concat (map (\<lambda>(a, b). [a..b]) rs)"

text \<open>No range continues the one before it.\<close>

definition maximal :: "(int \<times> int) list \<Rightarrow> bool" where
  "maximal rs \<longleftrightarrow> successively (\<lambda>x y. fst y \<noteq> snd x + 1) rs"

lemma mark_ranges:
  assumes b: "0 \<le> b" "b < 2 ^ 32 - 1"
    and st: "expand (ranges st) = bs" "maximal (ranges st)" "bs \<noteq> []" "last_block_num st = last bs"
      "0 \<le> starting_block_num st" "starting_block_num st \<le> last_block_num st" "last_block_num st < 2 ^ 32 - 1"
  shows "expand (ranges (mark b st)) = bs @ [b] \<and> maximal (ranges (mark b st)) \<and> last_block_num (mark b st) = b \<and>
    0 \<le> starting_block_num (mark b st) \<and> starting_block_num (mark b st) \<le> b"
proof -
  have u: "u32 b = b" "u32 (-1) = 2 ^ 32 - 1" using b by (simp_all add: u32_def)
  have p: "u32 (b - 1) = last_block_num st \<longleftrightarrow> b = last_block_num st + 1"
    using b st(5-7) by (cases "b = 0") (auto simp: u32_def)
  have s: "starting_block_num st \<noteq> 2 ^ 32 - 1" using st(6,7) by linarith
  show ?thesis
  proof (cases "b = last_block_num st + 1")
    case True
    then have m: "mark b st = st\<lparr>last_block_num := b, block_count := block_count st - 1,
        EOF_reached := EOF_reached st \<or> block_count st = 1\<rparr>"
      using p u(1) by (auto simp: mark_def visit_def u(2) Let_def)
    have "[starting_block_num st..b] = [starting_block_num st..last_block_num st] @ [b]"
      using True st(6) upto_rec2 [of "starting_block_num st" b] by simp
    with st(1,2,5,6) True show ?thesis unfolding m
      by (auto simp: ranges_def expand_def maximal_def successively_append_iff)
  next
    case False
    then have m: "mark b st = st\<lparr>printed := ranges st, starting_block_num := b, last_block_num := b,
        block_count := block_count st - 1, EOF_reached := EOF_reached st \<or> block_count st = 1\<rparr>"
      using p s by (auto simp: mark_def visit_def u Let_def ranges_def)
    have "ranges (mark b st) = ranges st @ [(b, b)]" unfolding m by (simp add: ranges_def)
    moreover have "last (ranges st) = (starting_block_num st, last_block_num st)" by (simp add: ranges_def)
    moreover have "ranges st \<noteq> []" by (simp add: ranges_def)
    ultimately show ?thesis using st(1,2) False b
      by (auto simp: m expand_def maximal_def successively_append_iff)
  qed
qed

lemma marks_ranges:
  "bs \<noteq> [] \<Longrightarrow> \<forall>b\<in>set bs. 0 \<le> b \<and> b < 2 ^ 32 - 1 \<Longrightarrow>
     expand (ranges (fold mark bs (walk_start n))) = bs \<and> maximal (ranges (fold mark bs (walk_start n))) \<and>
     last_block_num (fold mark bs (walk_start n)) = last bs \<and> 0 \<le> starting_block_num (fold mark bs (walk_start n)) \<and>
     starting_block_num (fold mark bs (walk_start n)) \<le> last bs"
proof (induction bs rule: rev_nonempty_induct)
  case (single b)
  then have "u32 b = b" "u32 (b - 1) \<noteq> u32 (-2)" by (cases "b = 0"; auto simp: u32_def)+
  then show ?case by (simp add: mark_def visit_def walk_start_def Let_def ranges_def expand_def maximal_def single)
next
  case (snoc b bs)
  let ?st = "fold mark bs (walk_start n)"
  have "last bs < 2 ^ 32 - 1" using snoc.prems snoc.hyps by simp
  with mark_ranges [of b ?st bs] snoc show ?case by simp
qed

section \<open>Properties\<close>

text \<open>The zones of a file, in the order of the block_walk.\<close>

definition file_zones :: "volume \<Rightarrow> nat \<Rightarrow> inode \<Rightarrow> int list" where
  "file_zones v scale ip =
     take (i_ndzones ip) (i_zone ip) @ sin_zones_of v scale ip (i_zone ip ! i_ndzones ip) @
     dbl_zones_of v scale ip (i_zone ip ! (i_ndzones ip + 1))"

lemma walk_of_file:
  assumes "get_inode v nr = Some ip" and "faithful v (i_dev ip)" and "i_ndzones ip + 1 < length (i_zone ip)"
    and n: "n = ceil_div (i_size ip) (s_block_size sp)" "0 \<le> n"
  shows "fs_get_inode_blocks v sp nr =
    Inr (ranges (visits (blocks_of v (s_log_zone_size sp) (file_zones v (s_log_zone_size sp) ip)) (walk_start n)))"
proof -
  let ?sc = "s_log_zone_size sp" and ?nd = "i_ndzones ip"
  have ok: "count_ok (walk_start n)" using n(2) by (simp add: count_ok_def walk_start_def)
  have zs: "map ((!) (i_zone ip)) [0..<?nd] = take ?nd (i_zone ip)"
    using assms(3) by (simp add: map_nth list_eq_iff_nth_eq)
  let ?s1 = "visits (blocks_of v ?sc (take ?nd (i_zone ip))) (walk_start n)"
  let ?s2 = "visits (blocks_of v ?sc (sin_zones_of v ?sc ip (i_zone ip ! ?nd))) ?s1"
  have d: "direct_loop v ?sc ip [0..<?nd] (walk_start n) = Inr ?s1"
    using direct_advance [OF assms(2) _ ok, of "[0..<?nd]"] assms(3) zs by simp
  have ok1: "count_ok ?s1" and ok2: "count_ok ?s2" using ok by (simp_all add: visits_ok)
  have r: "rd (i_zone ip) (int ?nd) = Inr (i_zone ip ! ?nd)" "rd (i_zone ip) (int ?nd + 1) = Inr (i_zone ip ! (?nd + 1))"
    using assms(3) by (simp_all add: rd_def nat_add_distrib)
  have a: "visits (blocks_of v ?sc (file_zones v ?sc ip)) (walk_start n) =
      visits (blocks_of v ?sc (dbl_zones_of v ?sc ip (i_zone ip ! (?nd + 1)))) ?s2"
    using ok ok1 by (simp add: file_zones_def visits_append)
  have e1: "EOF_reached ?s1 \<Longrightarrow> block_count ?s1 = 0" and e2: "EOF_reached ?s2 \<Longrightarrow> block_count ?s2 = 0"
    using ok1 ok2 unfolding count_ok_def by blast+
  show ?thesis
    using assms(1) d r e1 e2 get_sin_advance [OF assms(2) ok1] get_dbl_advance [OF assms(2) ok2]
    by (simp add: fs_get_inode_blocks_def Let_def n(1) [symmetric] ranges_def a)
qed

lemma blocks_printed_law:
  fixes v sp ip nr
  defines "sc \<equiv> s_log_zone_size sp"
  defines "bs \<equiv> take (nat (ceil_div (i_size ip) (s_block_size sp))) (blocks_of v sc (file_zones v sc ip))"
  assumes "get_inode v nr = Some ip" and "faithful v (i_dev ip)" and "i_ndzones ip + 1 < length (i_zone ip)"
    and "0 < i_size ip" and "0 < s_block_size sp" and "bs \<noteq> []" and "2 ^ 32 - 1 \<notin> set bs"
  shows "\<exists>rs. fs_get_inode_blocks v sp nr = Inr rs \<and> expand rs = bs \<and> maximal rs"
proof -
  let ?n = "ceil_div (i_size ip) (s_block_size sp)"
  have n: "0 \<le> ?n" using assms(6,7) by (simp add: ceil_div_nonneg)
  have "set (zone_blocks v sc z) \<subseteq> {b. 0 \<le> b \<and> b < 2 ^ 32}" for z
    using u32_range unfolding zone_blocks_def by auto
  then have "set (blocks_of v sc zs) \<subseteq> {b. 0 \<le> b \<and> b < 2 ^ 32}" for zs
    unfolding blocks_of_def by (auto simp: subset_iff)
  then have r: "\<forall>b\<in>set bs. 0 \<le> b \<and> b < 2 ^ 32" unfolding bs_def using set_take_subset by fast
  have b: "\<forall>b\<in>set bs. 0 \<le> b \<and> b < 2 ^ 32 - 1"
  proof
    fix b assume "b \<in> set bs"
    with r assms(9) have "0 \<le> b" "b < 2 ^ 32" "b \<noteq> 2 ^ 32 - 1" by blast+
    then show "0 \<le> b \<and> b < 2 ^ 32 - 1" by linarith
  qed
  have "visits (blocks_of v sc (file_zones v sc ip)) (walk_start ?n) = fold mark bs (walk_start ?n)"
    by (simp add: visits_def bs_def walk_start_def)
  with walk_of_file [OF assms(3-5) refl n] marks_ranges [OF assms(8) b, of ?n] show ?thesis
    unfolding sc_def by (intro exI) auto
qed

text \<open>
  C32. The block list of a file: what is printed, read as ranges, is exactly the first blocks of
  the zones that are present, in the order direct, single indirect, double indirect, as many as
  the size needs, and no two neighbouring ranges could have been one.
\<close>

theorem blocks_printed:
  fixes v sp ip nr
  defines "sc \<equiv> s_log_zone_size sp"
  defines "bs \<equiv> take (nat (ceil_div (i_size ip) (s_block_size sp))) (blocks_of v sc (file_zones v sc ip))"
  assumes "get_inode v nr = Some ip" and "faithful v (i_dev ip)" and "i_ndzones ip + 1 < length (i_zone ip)"
    and "0 < i_size ip" and "0 < s_block_size sp" and "bs \<noteq> []" and "2 ^ 32 - 1 \<notin> set bs"
  shows "\<exists>rs. fs_get_inode_blocks v sp nr = Inr rs \<and> expand rs = bs \<and> maximal rs"
  using blocks_printed_law [OF assms(3-5)] assms(6-9) unfolding bs_def sc_def by blast

definition demo_inode :: inode where
  "demo_inode = \<lparr>i_num = 5, i_mode = 0, i_size = 4500, i_dev = 1, i_ndzones = 2, i_nindirs = 2, i_zone = [10, 11, 20, 0]\<rparr>"

definition demo_volume :: volume where
  "demo_volume = \<lparr>FS_BITCHUNK_BITS = 8, FS_BITMAP_CHUNKS = \<lambda>_. 1, FS_BITS_PER_BLOCK = \<lambda>_. 8,
     conv2 = \<lambda>_ x. x, bitmap = \<lambda>_ _. 14,
     get_inode = \<lambda>i. Some (if i = 5 then demo_inode else demo_inode\<lparr>i_size := 0\<rparr>), NO_ZONE = 0,
     get_block = \<lambda>dev n. \<lparr>b_dev = dev, b_blocknr = n, b_indir = \<lambda>i. 30 + int i, b_dir = \<lambda>_. 0\<rparr>\<rparr>"

lemma demo_volume_simps:
  "get_inode demo_volume 5 = Some demo_inode" "faithful demo_volume (i_dev demo_inode)"
  "i_ndzones demo_inode + 1 < length (i_zone demo_inode)" "0 < i_size demo_inode"
  by (simp_all add: demo_volume_def demo_inode_def faithful_def)

lemma demo_blocks:
  "take (nat (ceil_div (i_size demo_inode) 1024)) (blocks_of demo_volume 1 (file_zones demo_volume 1 demo_inode)) =
     [20, 21, 22, 23, 60]"
  by code_simp

theorem blocks_printed_witness:
  "\<exists>rs. fs_get_inode_blocks demo_volume (demo_sb\<lparr>s_log_zone_size := 1\<rparr>) 5 = Inr rs \<and> expand rs = [20, 21, 22, 23, 60]"
proof -
  have z: "s_log_zone_size (demo_sb\<lparr>s_log_zone_size := 1\<rparr>) = 1" "s_block_size (demo_sb\<lparr>s_log_zone_size := 1\<rparr>) = 1024"
    by (simp_all add: demo_sb_def)
  from blocks_printed [OF demo_volume_simps(1-4), of "demo_sb\<lparr>s_log_zone_size := 1\<rparr>"] show ?thesis
    unfolding z demo_blocks by auto
qed

text \<open>
  An empty file has no blocks, but a range is printed all the same: the one between the
  two numbers the walk starts with, shown as -1 and -2.
\<close>

theorem empty_file_prints_range:
  assumes "get_inode v nr = Some ip" and "i_size ip = 0"
  shows "fs_get_inode_blocks v sp nr = Inr [(u32 (-1), u32 (-2))]"
proof -
  let ?st = "walk_start 0"
  have e: "EOF_reached ?st" "printed ?st = []" "starting_block_num ?st = u32 (-1)" "last_block_num ?st = u32 (-2)"
    by (simp_all add: walk_start_def)
  have "direct_loop v sc ip is ?st = Inr ?st" for sc "is" by (cases "is") (simp_all add: e)
  then show ?thesis using assms by (simp add: fs_get_inode_blocks_def ceil_div_def Let_def e)
qed

theorem empty_file_prints_range_witness:
  "fs_get_inode_blocks demo_volume demo_sb 6 = Inr [(2 ^ 32 - 1, 2 ^ 32 - 2)]"
proof -
  have "get_inode demo_volume 6 = Some (demo_inode\<lparr>i_size := 0\<rparr>)" by (simp add: demo_volume_def)
  from empty_file_prints_range [OF this] show ?thesis by (simp add: u32_def)
qed

end
