(* ===== verification/MfsIntFrag.thy ===== *)
theory MfsIntFrag
  imports MfsBlocks
begin

text \<open>
  Internal fragmentation (prj_3/src/mfs/misc.c, fs_get_int_frag): the bytes a file leaves unused
  in its last block, gathered over a file or, recursively, over everything below a directory.
  The recursion follows directory entries and carries fuel.
\<close>

unbundle bit_operations_syntax

section \<open>Statistics\<close>

record int_stat =
  tot_int_frag :: int
  num_int_frag_entries :: int
  min_frag_val :: int
  max_frag_val :: int
  num_dirs :: int
  frag_stat :: "int list"
  tot_blocks_used :: int

definition NUM_FRAG_BINS :: nat where "NUM_FRAG_BINS = 8"

definition stat_start :: "super_block \<Rightarrow> int_stat" where
  "stat_start sp = \<lparr>tot_int_frag = 0, num_int_frag_entries = 0, min_frag_val = s_block_size sp, max_frag_val = 0,
     num_dirs = 0, frag_stat = replicate NUM_FRAG_BINS 0, tot_blocks_used = 0\<rparr>"

text \<open>An addition of ints, or of longs, which are 32 bits wide as well.\<close>

definition add_long :: "int \<Rightarrow> int \<Rightarrow> int res" where
  "add_long x y = (if - (2 ^ 31) \<le> x + y \<and> x + y < 2 ^ 31 then Inr (x + y) else Inl IntOverflow)"

lemma add_long_eq_Inr [guard_simps]: "add_long x y = Inr z \<longleftrightarrow> z = x + y \<and> - (2 ^ 31) \<le> z \<and> z < 2 ^ 31"
  by (auto simp: add_long_def)

lemma add_long_in: "0 \<le> x + y \<Longrightarrow> x + y < 2 ^ 31 \<Longrightarrow> add_long x y = Inr (x + y)"
  by (simp add: add_long_def)

text \<open>The unused bytes of the last block.\<close>

definition int_frag_val :: "super_block \<Rightarrow> inode \<Rightarrow> int" where
  "int_frag_val sp ip =
     (let used_bytes = i_size ip smod s_block_size sp
      in if used_bytes = 0 then 0 else s_block_size sp - used_bytes)"

definition count_entry :: "super_block \<Rightarrow> inode \<Rightarrow> int_stat \<Rightarrow> int_stat res" where
  "count_entry sp ip st =
     (if s_block_size sp = 0 then Inl DivByZero
      else
        let x = int_frag_val sp ip; b = (x * int NUM_FRAG_BINS) sdiv s_block_size sp
        in bnd (add_long (tot_int_frag st) x) (\<lambda>tot.
           bnd (add_long (num_int_frag_entries st) 1) (\<lambda>num.
           bnd (rd (frag_stat st) b) (\<lambda>n. bnd (add_long n 1) (\<lambda>n'. bnd (wr (frag_stat st) b n') (\<lambda>bins.
             Inr (st\<lparr>tot_int_frag := tot,
                     min_frag_val := (if x < min_frag_val st then x else min_frag_val st),
                     max_frag_val := (if x > max_frag_val st then x else max_frag_val st),
                     num_int_frag_entries := num, frag_stat := bins\<rparr>)))))))"

section \<open>The traversal\<close>

text \<open>
  \<open>visit_inode\<close> is the recursive call. Two entries are skipped in every block, as are entries
  below inode 2 and those of the directory itself.
\<close>

record fs_volume = volume +
  NR_DIR_ENTRIES :: "int \<Rightarrow> nat"
  I_TYPE :: int
  I_DIRECTORY :: int

type_synonym visitor = "inode \<Rightarrow> int_stat \<Rightarrow> int_stat res"

fun entry_loop :: "visitor \<Rightarrow> fs_volume \<Rightarrow> inode \<Rightarrow> fs_buf \<Rightarrow> nat list \<Rightarrow> int_stat \<Rightarrow> int_stat res" where
  "entry_loop visit_inode v ip bp [] st = Inr st"
| "entry_loop visit_inode v ip bp (dc # dcs) st =
     (let d_ino = b_dir bp dc
      in if dc < 2 \<or> d_ino < 2 \<or> d_ino = i_num ip then entry_loop visit_inode v ip bp dcs st
         else bnd (deref (get_inode v d_ino)) (\<lambda>dir_inode.
              bnd (visit_inode dir_inode st) (entry_loop visit_inode v ip bp dcs)))"

text \<open>The block number is \<open>zone_num << scale + i\<close>, which C reads as a shift by scale + i.\<close>

fun dir_blocks ::
    "visitor \<Rightarrow> fs_volume \<Rightarrow> super_block \<Rightarrow> inode \<Rightarrow> int \<Rightarrow> nat list \<Rightarrow> int \<times> int_stat \<Rightarrow> (int \<times> int_stat) res" where
  "dir_blocks visit_inode v sp ip zone_num [] acc = Inr acc"
| "dir_blocks visit_inode v sp ip zone_num (i # is) (blk_cnt, st) =
     (if blk_cnt \<le> 0 then Inr (blk_cnt, st)
      else if 32 \<le> s_log_zone_size sp + i then Inl BadShift
      else
        let bp = get_block v (i_dev ip) (u32 (zone_num * 2 ^ (s_log_zone_size sp + i)))
        in bnd (entry_loop visit_inode v ip bp [0..<NR_DIR_ENTRIES v (s_block_size sp)] st) (\<lambda>st'.
             dir_blocks visit_inode v sp ip zone_num is (blk_cnt - 1, st')))"

definition get_frag_for_dir_zone ::
    "visitor \<Rightarrow> fs_volume \<Rightarrow> super_block \<Rightarrow> inode \<Rightarrow> int \<Rightarrow> int \<times> int_stat \<Rightarrow> (int \<times> int_stat) res" where
  "get_frag_for_dir_zone visit_inode v sp ip zone_num acc =
     (if fst acc = 0 \<or> zone_num = NO_ZONE v then Inr acc
      else dir_blocks visit_inode v sp ip zone_num [0..<2 ^ s_log_zone_size sp] acc)"

fun frag_zones ::
    "(int \<Rightarrow> int \<times> int_stat \<Rightarrow> (int \<times> int_stat) res) \<Rightarrow> int list \<Rightarrow> int \<times> int_stat \<Rightarrow> (int \<times> int_stat) res" where
  "frag_zones one [] acc = Inr acc"
| "frag_zones one (z # zs) acc = (if fst acc > 0 then bnd (one z acc) (frag_zones one zs) else Inr acc)"

definition zone_list :: "fs_volume \<Rightarrow> super_block \<Rightarrow> inode \<Rightarrow> int \<Rightarrow> int list" where
  "zone_list v sp ip zone_num =
     (let bp = get_block v (i_dev ip) (u32 (zone_num * 2 ^ s_log_zone_size sp)) in map (b_indir bp) [0..<i_nindirs ip])"

definition get_frag_sin_ind_zone ::
    "visitor \<Rightarrow> fs_volume \<Rightarrow> super_block \<Rightarrow> inode \<Rightarrow> int \<Rightarrow> int \<times> int_stat \<Rightarrow> (int \<times> int_stat) res" where
  "get_frag_sin_ind_zone visit_inode v sp ip zone_num acc =
     (if zone_num = NO_ZONE v then Inr acc
      else frag_zones (get_frag_for_dir_zone visit_inode v sp ip) (zone_list v sp ip zone_num) acc)"

definition get_frag_dbl_ind_zone ::
    "visitor \<Rightarrow> fs_volume \<Rightarrow> super_block \<Rightarrow> inode \<Rightarrow> int \<Rightarrow> int \<times> int_stat \<Rightarrow> (int \<times> int_stat) res" where
  "get_frag_dbl_ind_zone visit_inode v sp ip zone_num acc =
     (if zone_num = NO_ZONE v then Inr acc
      else frag_zones (get_frag_sin_ind_zone visit_inode v sp ip) (zone_list v sp ip zone_num) acc)"

text \<open>The direct zones: the directory itself is counted once for each.\<close>

fun direct_frag ::
    "visitor \<Rightarrow> fs_volume \<Rightarrow> super_block \<Rightarrow> inode \<Rightarrow> nat list \<Rightarrow> int \<times> int_stat \<Rightarrow> (int \<times> int_stat) res" where
  "direct_frag visit_inode v sp ip [] acc = Inr acc"
| "direct_frag visit_inode v sp ip (i # is) (blk_cnt, st) =
     (if blk_cnt \<le> 0 then Inr (blk_cnt, st)
      else bnd (count_entry sp ip st) (\<lambda>st1. bnd (rd (i_zone ip) (int i)) (\<lambda>z.
           bnd (get_frag_for_dir_zone visit_inode v sp ip z (blk_cnt, st1)) (direct_frag visit_inode v sp ip is))))"

fun find_int_frag :: "nat \<Rightarrow> fs_volume \<Rightarrow> super_block \<Rightarrow> inode \<Rightarrow> int_stat \<Rightarrow> int_stat res" where
  "find_int_frag 0 v sp ip st = Inl Diverges"
| "find_int_frag (Suc f) v sp ip st =
     (let total_blocks_used = ceil_div (i_size ip) (s_block_size sp);
          visit_inode = find_int_frag f v sp
      in bnd (add_long (tot_blocks_used st) total_blocks_used) (\<lambda>tot.
         let st0 = st\<lparr>tot_blocks_used := tot\<rparr>
         in if i_mode ip AND I_TYPE v \<noteq> I_DIRECTORY v then count_entry sp ip st0
         else
           bnd (add_long (num_dirs st0) 1) (\<lambda>dirs.
           bnd (direct_frag visit_inode v sp ip [0..<i_ndzones ip]
                  (total_blocks_used, st0\<lparr>num_dirs := dirs\<rparr>)) (\<lambda>acc1.
           bnd (if fst acc1 > 0
                then bnd (rd (i_zone ip) (int (i_ndzones ip))) (\<lambda>z. get_frag_sin_ind_zone visit_inode v sp ip z acc1)
                else Inr acc1) (\<lambda>acc2.
           bnd (if fst acc2 > 0
                then bnd (rd (i_zone ip) (int (i_ndzones ip) + 1)) (\<lambda>z. get_frag_dbl_ind_zone visit_inode v sp ip z acc2)
                else Inr acc2) (\<lambda>acc3. Inr (snd acc3)))))))"

text \<open>What is printed: the statistics, with the number of files and the average.\<close>

record int_report =
  stats :: int_stat
  number_of_files :: int
  avg_frag :: int

definition fs_get_int_frag :: "nat \<Rightarrow> fs_volume \<Rightarrow> super_block \<Rightarrow> int \<Rightarrow> int_report res" where
  "fs_get_int_frag f v sp inode_nr =
     bnd (deref (get_inode v inode_nr)) (\<lambda>ip.
     bnd (find_int_frag f v sp ip (stat_start sp)) (\<lambda>st.
       if num_int_frag_entries st = 0 then Inl DivByZero
       else Inr \<lparr>stats = st, number_of_files = num_int_frag_entries st - num_dirs st,
                 avg_frag = tot_int_frag st sdiv num_int_frag_entries st\<rparr>))"

section \<open>What the traversal keeps\<close>

text \<open>A predicate on the statistics that counting an entry keeps is kept by the whole traversal.\<close>

definition keeps :: "(int_stat \<Rightarrow> bool) \<Rightarrow> (int_stat \<Rightarrow> int_stat res) \<Rightarrow> bool" where
  "keeps I c \<longleftrightarrow> (\<forall>st st'. I st \<longrightarrow> c st = Inr st' \<longrightarrow> I st')"

definition keeps_snd :: "(int_stat \<Rightarrow> bool) \<Rightarrow> (int \<times> int_stat \<Rightarrow> (int \<times> int_stat) res) \<Rightarrow> bool" where
  "keeps_snd I c \<longleftrightarrow> (\<forall>n st n' st'. I st \<longrightarrow> c (n, st) = Inr (n', st') \<longrightarrow> I st')"

lemma keepsD: "keeps I c \<Longrightarrow> I st \<Longrightarrow> c st = Inr st' \<Longrightarrow> I st'"
  unfolding keeps_def by blast

lemma keeps_sndD: "keeps_snd I c \<Longrightarrow> c (n, st) = Inr (n', st') \<Longrightarrow> I st \<Longrightarrow> I st'"
  unfolding keeps_snd_def by blast

lemma keeps_snd_fst: "keeps_snd I c \<Longrightarrow> c acc = Inr acc' \<Longrightarrow> I (snd acc) \<Longrightarrow> I (snd acc')"
  unfolding keeps_snd_def by (cases acc; cases acc') auto

lemma entry_loop_keeps:
  assumes "\<forall>ip. keeps I (visit_inode ip)"
  shows "keeps I (entry_loop visit_inode v ip bp dcs)"
proof -
  have "I st \<Longrightarrow> entry_loop visit_inode v ip bp dcs st = Inr st' \<Longrightarrow> I st'" for st st'
  proof (induction dcs arbitrary: st)
    case (Cons dc dcs)
    show ?case
    proof (cases "dc < 2 \<or> b_dir bp dc < 2 \<or> b_dir bp dc = i_num ip")
      case False
      with Cons.prems(2) obtain di st1 where "visit_inode di st = Inr st1"
        "entry_loop visit_inode v ip bp dcs st1 = Inr st'" by (auto simp: Let_def bnd_eq_Inr)
      with Cons.IH Cons.prems(1) keepsD [OF assms [rule_format]] show ?thesis by blast
    qed (use Cons in \<open>simp add: Let_def\<close>)
  qed simp
  then show ?thesis unfolding keeps_def by blast
qed

lemma dir_blocks_keeps:
  assumes "\<forall>ip. keeps I (visit_inode ip)"
  shows "keeps_snd I (dir_blocks visit_inode v sp ip z is)"
proof -
  note e = keepsD [OF entry_loop_keeps [OF assms]]
  have "I st \<Longrightarrow> dir_blocks visit_inode v sp ip z is (n, st) = Inr (n', st') \<Longrightarrow> I st'" for n st n' st'
  proof (induction "is" arbitrary: n st)
    case (Cons i "is")
    let ?bp = "get_block v (i_dev ip) (u32 (z * 2 ^ (s_log_zone_size sp + i)))"
    show ?case
    proof (cases "n \<le> 0")
      case False
      with Cons.prems(2) obtain st1 where
        "entry_loop visit_inode v ip ?bp [0..<NR_DIR_ENTRIES v (s_block_size sp)] st = Inr st1"
        "dir_blocks visit_inode v sp ip z is (n - 1, st1) = Inr (n', st')"
        by (auto simp: Let_def bnd_eq_Inr split: if_splits)
      with Cons.IH Cons.prems(1) e show ?thesis by blast
    qed (use Cons.prems in simp)
  qed simp
  then show ?thesis unfolding keeps_snd_def by blast
qed

lemma for_dir_zone_keeps:
  assumes "\<forall>ip. keeps I (visit_inode ip)"
  shows "keeps_snd I (get_frag_for_dir_zone visit_inode v sp ip z)"
  unfolding keeps_snd_def get_frag_for_dir_zone_def
  by (auto split: if_splits dest: keeps_sndD [OF dir_blocks_keeps [OF assms]])

lemma frag_zones_keeps:
  assumes "\<forall>z. keeps_snd I (one z)"
  shows "keeps_snd I (frag_zones one zs)"
proof -
  have "I (snd acc) \<Longrightarrow> frag_zones one zs acc = Inr acc' \<Longrightarrow> I (snd acc')" for acc acc'
  proof (induction zs arbitrary: acc)
    case (Cons z zs)
    show ?case
    proof (cases "fst acc > 0")
      case True
      with Cons.prems(2) obtain acc1 where "one z acc = Inr acc1" "frag_zones one zs acc1 = Inr acc'"
        by (auto simp: bnd_eq_Inr)
      with Cons.IH Cons.prems(1) keeps_snd_fst [OF assms [rule_format]] show ?thesis by blast
    qed (use Cons.prems in simp)
  qed simp
  from this [of "(n, st)" "(n', st')" for n st n' st'] show ?thesis unfolding keeps_snd_def by fastforce
qed

lemma sin_keeps:
  assumes "\<forall>ip. keeps I (visit_inode ip)"
  shows "keeps_snd I (get_frag_sin_ind_zone visit_inode v sp ip z)"
  unfolding keeps_snd_def get_frag_sin_ind_zone_def
  by (auto split: if_splits dest: keeps_sndD [OF frag_zones_keeps [OF allI [OF for_dir_zone_keeps [OF assms]]]])

lemma dbl_keeps:
  assumes "\<forall>ip. keeps I (visit_inode ip)"
  shows "keeps_snd I (get_frag_dbl_ind_zone visit_inode v sp ip z)"
  unfolding keeps_snd_def get_frag_dbl_ind_zone_def
  by (auto split: if_splits dest: keeps_sndD [OF frag_zones_keeps [OF allI [OF sin_keeps [OF assms]]]])

lemma direct_keeps:
  assumes "\<forall>ip. keeps I (visit_inode ip)" and "\<forall>ip. keeps I (count_entry sp ip)"
  shows "keeps_snd I (direct_frag visit_inode v sp ip is)"
proof -
  have "I st \<Longrightarrow> direct_frag visit_inode v sp ip is (n, st) = Inr (n', st') \<Longrightarrow> I st'" for n st n' st'
  proof (induction "is" arbitrary: n st)
    case (Cons i "is")
    show ?case
    proof (cases "n \<le> 0")
      case False
      with Cons.prems(2) obtain st1 z n2 st2 where "count_entry sp ip st = Inr st1"
        "get_frag_for_dir_zone visit_inode v sp ip z (n, st1) = Inr (n2, st2)"
        "direct_frag visit_inode v sp ip is (n2, st2) = Inr (n', st')" by (auto simp: bnd_eq_Inr)
      with Cons keepsD [OF assms(2) [rule_format]] keeps_sndD [OF for_dir_zone_keeps [OF assms(1)]] show ?thesis by blast
    qed (use Cons.prems in simp)
  qed simp
  then show ?thesis unfolding keeps_snd_def by blast
qed

lemma find_int_frag_keeps:
  assumes "\<forall>ip. keeps I (count_entry sp ip)"
    and "\<And>st n. I st \<Longrightarrow> I (st\<lparr>tot_blocks_used := n\<rparr>)" and "\<And>st. I st \<Longrightarrow> I (st\<lparr>num_dirs := num_dirs st + 1\<rparr>)"
  shows "keeps I (find_int_frag f v sp ip)"
proof (induction f arbitrary: ip)
  case (Suc f)
  note d = keeps_snd_fst [OF direct_keeps [OF allI [OF Suc] assms(1)]] and s = keeps_snd_fst [OF sin_keeps [OF allI [OF Suc]]]
    and t = keeps_snd_fst [OF dbl_keeps [OF allI [OF Suc]]]
  show ?case unfolding keeps_def
  proof (intro allI impI)
    fix st st' assume I: "I st" and r: "find_int_frag (Suc f) v sp ip st = Inr st'"
    let ?st0 = "st\<lparr>tot_blocks_used := tot_blocks_used st + ceil_div (i_size ip) (s_block_size sp)\<rparr>"
    have I0: "I ?st0" "I (?st0\<lparr>num_dirs := num_dirs ?st0 + 1\<rparr>)" using assms(2,3) I by blast+
    show "I st'"
    proof (cases "i_mode ip AND I_TYPE v = I_DIRECTORY v")
      case False
      with r I0(1) keepsD [OF assms(1) [rule_format]] show ?thesis by (auto simp: Let_def bnd_eq_Inr add_long_eq_Inr)
    next
      case True
      with r obtain acc1 acc2 acc3 where a: "direct_frag (find_int_frag f v sp) v sp ip [0..<i_ndzones ip]
          (ceil_div (i_size ip) (s_block_size sp), ?st0\<lparr>num_dirs := num_dirs ?st0 + 1\<rparr>) = Inr acc1"
        "(if fst acc1 > 0 then bnd (rd (i_zone ip) (int (i_ndzones ip)))
            (\<lambda>z. get_frag_sin_ind_zone (find_int_frag f v sp) v sp ip z acc1) else Inr acc1) = Inr acc2"
        "(if fst acc2 > 0 then bnd (rd (i_zone ip) (int (i_ndzones ip) + 1))
            (\<lambda>z. get_frag_dbl_ind_zone (find_int_frag f v sp) v sp ip z acc2) else Inr acc2) = Inr acc3" "st' = snd acc3"
        by (auto simp: Let_def bnd_eq_Inr add_long_eq_Inr)
      from d [OF a(1)] I0(2) have "I (snd acc1)" by simp
      with a(2) have "I (snd acc2)" by (auto simp: bnd_eq_Inr split: if_splits dest: s)
      with a(3,4) show ?thesis by (auto simp: bnd_eq_Inr split: if_splits dest: t)
    qed
  qed
qed (simp add: keeps_def)

section \<open>The invariant of the statistics\<close>

definition stat_ok :: "super_block \<Rightarrow> int_stat \<Rightarrow> bool" where
  "stat_ok sp st \<longleftrightarrow> length (frag_stat st) = NUM_FRAG_BINS \<and> (\<forall>n\<in>set (frag_stat st). 0 \<le> n) \<and>
     sum_list (frag_stat st) = num_int_frag_entries st \<and> 0 \<le> num_dirs st \<and>
     0 \<le> min_frag_val st \<and> min_frag_val st \<le> s_block_size sp \<and> 0 \<le> max_frag_val st \<and> max_frag_val st < s_block_size sp \<and>
     tot_int_frag st < 2 ^ 31 \<and> num_int_frag_entries st * min_frag_val st \<le> tot_int_frag st \<and>
     tot_int_frag st \<le> num_int_frag_entries st * max_frag_val st"

lemma sum_list_nonneg': "(\<forall>n\<in>set ns. (0::int) \<le> n) \<Longrightarrow> 0 \<le> sum_list ns"
  by (induction ns) auto

lemma sum_list_inc: "i < length ns \<Longrightarrow> sum_list (ns[i := ns ! i + 1]) = sum_list ns + (1::int)"
  by (induction ns arbitrary: i) (auto split: nat.splits)

lemma scaled_min: "0 \<le> n \<Longrightarrow> n * m \<le> t \<Longrightarrow> (n + 1) * (if x < m then x else m) \<le> t + (x::int)"
  using mult_left_mono [of x m n] by (auto simp: distrib_right)

lemma scaled_max: "0 \<le> n \<Longrightarrow> t \<le> n * m \<Longrightarrow> t + (x::int) \<le> (n + 1) * (if x > m then x else m)"
  using mult_left_mono [of m x n] by (auto simp: distrib_right)

lemma count_entry_range:
  assumes b: "0 < s_block_size sp" and len: "length (frag_stat st) = NUM_FRAG_BINS" and r: "count_entry sp ip st = Inr st'"
  shows "0 \<le> int_frag_val sp ip \<and> int_frag_val sp ip < s_block_size sp"
proof -
  let ?x = "int_frag_val sp ip" and ?b = "s_block_size sp"
  have x: "0 \<le> ?x"
  proof -
    have "i_size ip smod ?b \<le> \<bar>i_size ip\<bar> mod ?b" using b by (auto simp: signed_modulo_int_def sgn_if)
    also have "\<dots> < ?b" by (rule pos_mod_bound [OF b])
    finally show ?thesis by (auto simp: int_frag_val_def Let_def)
  qed
  have "(?x * int NUM_FRAG_BINS) sdiv ?b < int NUM_FRAG_BINS"
    using r b len by (auto simp: count_entry_def Let_def bnd_eq_Inr rd_eq_Inr)
  then have "?x * 8 div ?b < 8" using x b by (simp add: NUM_FRAG_BINS_def signed_divide_int_def sgn_if split: if_splits)
  moreover have "8 \<le> ?x * 8 div ?b" if "?b \<le> ?x"
    using zdiv_mono1 [of "?b * 8" "?x * 8" ?b] that b by simp
  ultimately have "?x < ?b" by linarith
  with x show ?thesis by simp
qed

lemma count_entry_ok:
  assumes b: "0 < s_block_size sp"
  shows "keeps (stat_ok sp) (count_entry sp ip)"
  unfolding keeps_def
proof (intro allI impI)
  fix st st' assume ok: "stat_ok sp st" and r: "count_entry sp ip st = Inr st'"
  let ?x = "int_frag_val sp ip" and ?n = "num_int_frag_entries st" and ?i = "(int_frag_val sp ip * int NUM_FRAG_BINS) sdiv s_block_size sp"
  have x: "0 \<le> ?x" "?x < s_block_size sp" using count_entry_range [OF b _ r] ok by (simp_all add: stat_ok_def)
  have n: "0 \<le> ?n" using ok sum_list_nonneg' unfolding stat_ok_def by metis
  let ?mn = "if ?x < min_frag_val st then ?x else min_frag_val st"
  let ?mx = "if ?x > max_frag_val st then ?x else max_frag_val st"
  from r b have i: "0 \<le> ?i" "?i < int (length (frag_stat st))" and
    st': "st' = st\<lparr>tot_int_frag := tot_int_frag st + ?x, min_frag_val := ?mn, max_frag_val := ?mx,
      num_int_frag_entries := ?n + 1, frag_stat := (frag_stat st)[nat ?i := frag_stat st ! nat ?i + 1]\<rparr>"
    by (auto simp: count_entry_def Let_def bnd_eq_Inr rd_eq_Inr wr_eq_Inr add_long_eq_Inr)
  have tot: "tot_int_frag st + ?x < 2 ^ 31" using r b by (auto simp: count_entry_def Let_def bnd_eq_Inr add_long_eq_Inr)
  have "sum_list ((frag_stat st)[nat ?i := frag_stat st ! nat ?i + 1]) = sum_list (frag_stat st) + 1"
    using i by (intro sum_list_inc) simp
  moreover have "\<forall>n\<in>set ((frag_stat st)[nat ?i := frag_stat st ! nat ?i + 1]). 0 \<le> n"
  proof -
    have "0 \<le> frag_stat st ! nat ?i" using ok i nth_mem [of "nat ?i" "frag_stat st"] by (auto simp: stat_ok_def)
    with ok show ?thesis using set_update_subset_insert [of "frag_stat st" "nat ?i"] by (fastforce simp: stat_ok_def)
  qed
  moreover have "(?n + 1) * ?mn \<le> tot_int_frag st + ?x" "tot_int_frag st + ?x \<le> (?n + 1) * ?mx"
    using ok by (intro scaled_min [OF n] scaled_max [OF n]; simp add: stat_ok_def)+
  ultimately show "stat_ok sp st'" using ok x tot unfolding st' by (auto simp: stat_ok_def)
qed

lemma find_int_frag_ok:
  assumes "0 < s_block_size sp"
  shows "keeps (stat_ok sp) (find_int_frag f v sp ip)"
  by (rule find_int_frag_keeps [OF allI [OF count_entry_ok [OF assms]]]) (auto simp: stat_ok_def)

section \<open>Directories without files\<close>

text \<open>A block whose entries are all unused.\<close>

definition no_entries :: "fs_volume \<Rightarrow> super_block \<Rightarrow> fs_buf \<Rightarrow> bool" where
  "no_entries v sp bp \<longleftrightarrow> (\<forall>dc<NR_DIR_ENTRIES v (s_block_size sp). dc < 2 \<or> b_dir bp dc < 2)"

lemma entry_loop_empty:
  "\<forall>dc\<in>set dcs. dc < 2 \<or> b_dir bp dc < 2 \<Longrightarrow> entry_loop visit_inode v ip bp dcs st = Inr st"
  by (induction dcs) (auto simp: Let_def)

lemma empty_dir_zone:
  assumes "s_log_zone_size sp = 0" and "0 < n" and "z \<noteq> NO_ZONE v" and "\<forall>b. no_entries v sp (get_block v (i_dev ip) b)"
  shows "get_frag_for_dir_zone visit_inode v sp ip z (n, st) = Inr (n - 1, st)"
  using assms by (simp add: get_frag_for_dir_zone_def entry_loop_empty no_entries_def)

text \<open>One entry is counted for every direct zone, with the same value.\<close>

fun count_times :: "super_block \<Rightarrow> inode \<Rightarrow> nat \<Rightarrow> int_stat \<Rightarrow> int_stat res" where
  "count_times sp ip 0 st = Inr st"
| "count_times sp ip (Suc k) st = bnd (count_entry sp ip st) (count_times sp ip k)"

lemma direct_empty:
  assumes "s_log_zone_size sp = 0" and "\<forall>b. no_entries v sp (get_block v (i_dev ip) b)"
  shows "\<forall>i\<in>set is. i < length (i_zone ip) \<and> i_zone ip ! i \<noteq> NO_ZONE v \<Longrightarrow> 
    direct_frag visit_inode v sp ip is (int k, st) =
      bnd (count_times sp ip (min k (length is)) st) (\<lambda>st'. Inr (int k - int (min k (length is)), st'))"
proof (induction "is" arbitrary: k st)
  case (Cons i "is")
  show ?case
  proof (cases k)
    case (Suc j)
    have "get_frag_for_dir_zone visit_inode v sp ip (i_zone ip ! i) (int (Suc j), st1) = Inr (int j, st1)" for st1
      using empty_dir_zone [OF assms(1), of "int (Suc j)"] Cons.prems assms(2) by simp
    with Cons Suc show ?thesis
      by (cases "count_entry sp ip st") (simp_all add: rd_def)
  qed simp
qed simp

section \<open>Counting succeeds\<close>

lemma int_frag_val_mod:
  assumes "0 < s_block_size sp" and "0 \<le> i_size ip"
  shows "int_frag_val sp ip = (- i_size ip) mod s_block_size sp"
proof -
  have "i_size ip smod s_block_size sp = i_size ip mod s_block_size sp"
    using assms by (cases "i_size ip = 0") (auto simp: signed_modulo_int_def)
  then show ?thesis by (simp add: int_frag_val_def Let_def zmod_zminus1_eq_if)
qed

lemma bin_range:
  assumes "0 < b" and "0 \<le> x" and "x < b"
  shows "(x * int NUM_FRAG_BINS) sdiv b = x * 8 div b \<and> 0 \<le> x * 8 div b \<and> x * 8 div b < (8::int)"
proof -
  have "x * 8 div b < 8"
  proof (rule ccontr)
    assume "\<not> x * 8 div b < 8"
    then have "b * 8 \<le> b * (x * 8 div b)" using assms(1) by (intro mult_left_mono) auto
    also have "\<dots> \<le> x * 8" using mult_div_mod_eq [of b "x * 8"] pos_mod_sign [OF assms(1), of "x * 8"] by linarith
    finally show False using assms(3) by simp
  qed
  then show ?thesis using assms by (auto simp: NUM_FRAG_BINS_def signed_divide_int_def sgn_if pos_imp_zdiv_nonneg_iff)
qed

text \<open>Statistics that can take k more entries without an overflow.\<close>

definition room_for :: "super_block \<Rightarrow> nat \<Rightarrow> int_stat \<Rightarrow> bool" where
  "room_for sp k st \<longleftrightarrow> length (frag_stat st) = NUM_FRAG_BINS \<and> 0 \<le> tot_int_frag st \<and>
     tot_int_frag st + int k * s_block_size sp < 2 ^ 31 \<and>
     0 \<le> num_int_frag_entries st \<and> num_int_frag_entries st + int k < 2 ^ 31 \<and>
     (\<forall>i<NUM_FRAG_BINS. 0 \<le> frag_stat st ! i \<and> frag_stat st ! i + int k < 2 ^ 31)"

lemma count_entry_runs:
  assumes "0 < s_block_size sp" and "0 \<le> i_size ip" and room: "room_for sp (Suc k) st"
  shows "count_entry sp ip st = Inr (let x = (- i_size ip) mod s_block_size sp; b = nat (x * 8 div s_block_size sp) in
    st\<lparr>tot_int_frag := tot_int_frag st + x, min_frag_val := min x (min_frag_val st),
       max_frag_val := max x (max_frag_val st), num_int_frag_entries := num_int_frag_entries st + 1,
       frag_stat := (frag_stat st)[b := frag_stat st ! b + 1]\<rparr>)"
proof -
  let ?x = "(- i_size ip) mod s_block_size sp" and ?b = "nat ((- i_size ip) mod s_block_size sp * 8 div s_block_size sp)"
  have x: "0 \<le> ?x" "?x < s_block_size sp" using assms(1) by simp_all
  note b = bin_range [OF assms(1) x]
  have b8: "?b < 8" using b by (simp add: nat_less_iff)
  have m: "(if ?x < min_frag_val st then ?x else min_frag_val st) = min ?x (min_frag_val st)"
    "(if max_frag_val st < ?x then ?x else max_frag_val st) = max ?x (max_frag_val st)" by auto
  have "0 \<le> int k * s_block_size sp" using assms(1) by simp
  with room x have "tot_int_frag st + ?x < 2 ^ 31" unfolding room_for_def of_nat_Suc distrib_right mult_1 by linarith
  then have t: "add_long (tot_int_frag st) ?x = Inr (tot_int_frag st + ?x)"
    "add_long (num_int_frag_entries st) 1 = Inr (num_int_frag_entries st + 1)"
    "add_long (frag_stat st ! ?b) 1 = Inr (frag_stat st ! ?b + 1)"
    using room x b8 by (auto simp: room_for_def distrib_right NUM_FRAG_BINS_def intro!: add_long_in)
  have len: "length (frag_stat st) = 8" using room by (simp add: room_for_def NUM_FRAG_BINS_def)
  show ?thesis
    using assms(1,2) b t len by (simp add: count_entry_def int_frag_val_mod Let_def m)
qed

lemma count_entry_room:
  assumes "0 < s_block_size sp" and "0 \<le> i_size ip" and room: "room_for sp (Suc k) st"
  shows "\<exists>st1. count_entry sp ip st = Inr st1 \<and> num_int_frag_entries st1 = num_int_frag_entries st + 1 \<and>
    num_dirs st1 = num_dirs st \<and> room_for sp k st1"
proof -
  let ?x = "(- i_size ip) mod s_block_size sp"
  have x: "0 \<le> ?x" "?x < s_block_size sp" using assms(1) by simp_all
  have "nat (?x * 8 div s_block_size sp) < 8" using bin_range [OF assms(1) x] by (simp add: nat_less_iff)
  with x room show ?thesis unfolding count_entry_runs [OF assms]
    by (fastforce simp: Let_def room_for_def distrib_right nth_list_update NUM_FRAG_BINS_def)
qed

lemma count_times_runs:
  assumes "0 < s_block_size sp" and "0 \<le> i_size ip"
  shows "room_for sp k st \<Longrightarrow>
    \<exists>st'. count_times sp ip k st = Inr st' \<and> num_int_frag_entries st' = num_int_frag_entries st + int k \<and>
      num_dirs st' = num_dirs st"
proof (induction k arbitrary: st)
  case (Suc k)
  obtain st1 where c: "count_entry sp ip st = Inr st1" "num_int_frag_entries st1 = num_int_frag_entries st + 1"
    "num_dirs st1 = num_dirs st" "room_for sp k st1"
    using count_entry_room [OF assms Suc.prems] by blast
  from Suc.IH [OF c(4)] c(1-3) show ?case by auto
qed simp

section \<open>Properties\<close>

definition demo_file :: "int \<Rightarrow> int \<Rightarrow> int \<Rightarrow> int list \<Rightarrow> inode" where
  "demo_file nr md sz zs = \<lparr>i_num = nr, i_mode = md, i_size = sz, i_dev = 1, i_ndzones = 2, i_nindirs = 2, i_zone = zs\<rparr>"

text \<open>Inode 1 is a directory with the files 2 and 3, inode 4 an empty directory of two blocks.\<close>

definition demo_fs :: "(int \<Rightarrow> nat \<Rightarrow> int) \<Rightarrow> fs_volume" where
  "demo_fs entry = \<lparr>FS_BITCHUNK_BITS = 8, FS_BITMAP_CHUNKS = \<lambda>_. 1, FS_BITS_PER_BLOCK = \<lambda>_. 8,
     conv2 = \<lambda>_ x. x, bitmap = \<lambda>_ _. 14,
     get_inode = \<lambda>i. (if i = 1 then Some (demo_file 1 16384 1024 [10, 0, 0, 0])
       else if i = 2 then Some (demo_file 2 32768 1500 [20, 21, 0, 0])
       else if i = 3 then Some (demo_file 3 32768 1024 [22, 0, 0, 0])
       else Some (demo_file 4 16384 2048 [11, 12, 0, 0])), NO_ZONE = 0,
     get_block = \<lambda>dev n. \<lparr>b_dev = dev, b_blocknr = n, b_indir = \<lambda>_. 0, b_dir = entry n\<rparr>,
     NR_DIR_ENTRIES = \<lambda>_. 4, I_TYPE = 61440, I_DIRECTORY = 16384\<rparr>"

definition demo_entries :: "int \<Rightarrow> nat \<Rightarrow> int" where
  "demo_entries n dc = (if n = 10 \<and> dc = 2 then 2 else if n = 10 \<and> dc = 3 then 3 else 0)"

definition small_sb :: super_block where
  "small_sb = demo_sb\<lparr>s_log_zone_size := 0\<rparr>"



text \<open>
  The report on a regular file: one file, whose unused bytes in its last block are the
  total, the smallest, the largest and the average value, counted in the bin they fall into.
\<close>

theorem regular_file_report:
  fixes v sp ip
  defines "x \<equiv> (- i_size ip) mod s_block_size sp"
  assumes "get_inode v nr = Some ip" and "i_mode ip AND I_TYPE v \<noteq> I_DIRECTORY v"
    and "0 < s_block_size sp" and "0 \<le> i_size ip" and "s_block_size sp < 2 ^ 31"
    and "ceil_div (i_size ip) (s_block_size sp) < 2 ^ 31"
  shows "fs_get_int_frag (Suc f) v sp nr = Inr \<lparr>stats = \<lparr>tot_int_frag = x, num_int_frag_entries = 1,
      min_frag_val = x, max_frag_val = x, num_dirs = 0,
      frag_stat = (replicate 8 0)[nat (x * 8 div s_block_size sp) := 1],
      tot_blocks_used = ceil_div (i_size ip) (s_block_size sp)\<rparr>, number_of_files = 1, avg_frag = x\<rparr>"
proof -
  have x: "0 \<le> x" "x < s_block_size sp" using assms(4) by (simp_all add: x_def)
  have b: "nat (x * 8 div s_block_size sp) < 8" using bin_range [OF assms(4) x] by (simp add: nat_less_iff)
  have "min x (s_block_size sp) = x" "max x 0 = x" "x sdiv 1 = x"
    using x by (auto simp: signed_divide_int_def sgn_if)
  moreover have "room_for sp (Suc 0) (stat_start sp\<lparr>tot_blocks_used := n\<rparr>)" for n
    using assms(6) by (simp add: room_for_def stat_start_def NUM_FRAG_BINS_def)
  note count_entry_runs [OF assms(4,5) this]
  moreover have "add_long 0 (ceil_div (i_size ip) (s_block_size sp)) = Inr (ceil_div (i_size ip) (s_block_size sp))"
    using ceil_div_nonneg [OF assms(5,4)] assms(7) by (simp add: add_long_def)
  ultimately show ?thesis using assms(2,3,5) b
    by (simp add: fs_get_int_frag_def stat_start_def Let_def x_def [symmetric] NUM_FRAG_BINS_def)
qed

theorem regular_file_report_witness:
  "\<exists>out. fs_get_int_frag 1 (demo_fs demo_entries) small_sb 2 = Inr out \<and> tot_int_frag (stats out) = 548"
proof -
  have f: "get_inode (demo_fs demo_entries) 2 = Some (demo_file 2 32768 1500 [20, 21, 0, 0])"
    by (simp add: demo_fs_def)
  have d: "i_mode (demo_file 2 32768 1500 zs) AND I_TYPE (demo_fs demo_entries) \<noteq> I_DIRECTORY (demo_fs demo_entries)" for zs
    by (simp add: demo_fs_def demo_file_def)
  have b: "0 < s_block_size small_sb" "0 \<le> i_size (demo_file 2 32768 1500 zs)"
    "(- i_size (demo_file 2 32768 1500 zs)) mod s_block_size small_sb = 548" for zs
    by (simp_all add: small_sb_def demo_sb_def demo_file_def)
  have c: "s_block_size small_sb < 2 ^ 31" "ceil_div (i_size (demo_file 2 32768 1500 zs)) (s_block_size small_sb) < 2 ^ 31" for zs
    by (simp_all add: small_sb_def demo_sb_def demo_file_def ceil_div_def)
  from regular_file_report [OF f d b(1,2) c, of 0] show ?thesis by (simp add: b(3))
qed

text \<open>
  A directory without files (and without holes, with one block per zone, all of them
  direct): the directory is counted as an entry for each of its blocks, so its report says one
  file fewer than it has blocks, and if it has no block the average is a division by zero.
\<close>

theorem empty_directory_report:
  fixes v sp ip
  defines "n \<equiv> nat (ceil_div (i_size ip) (s_block_size sp))"
  assumes "get_inode v nr = Some ip" and "i_mode ip AND I_TYPE v = I_DIRECTORY v"
    and "0 < s_block_size sp" and "0 \<le> i_size ip" and "s_log_zone_size sp = 0" and "n \<le> i_ndzones ip"
    and "int n * s_block_size sp < 2 ^ 31"
    and "\<forall>i<i_ndzones ip. i < length (i_zone ip) \<and> i_zone ip ! i \<noteq> NO_ZONE v"
    and "\<forall>b. no_entries v sp (get_block v (i_dev ip) b)"
  shows "if n = 0 then fs_get_int_frag (Suc f) v sp nr = Inl DivByZero
    else \<exists>out. fs_get_int_frag (Suc f) v sp nr = Inr out \<and> number_of_files out = int n - 1"
proof -
  have c: "ceil_div (i_size ip) (s_block_size sp) = int n"
    using ceil_div_nonneg [OF assms(5,4)] by (simp add: n_def)
  let ?st = "stat_start sp\<lparr>tot_blocks_used := tot_blocks_used (stat_start sp) + int n, num_dirs := num_dirs (stat_start sp) + 1\<rparr>"
  have "int n \<le> int n * s_block_size sp" using assms(4) mult_left_mono [of 1 "s_block_size sp" "int n"] by simp
  with assms(8) have n: "int n < 2 ^ 31" by linarith
  with assms(4,8) have room: "room_for sp n ?st" by (simp add: room_for_def stat_start_def NUM_FRAG_BINS_def)
  obtain st' where s: "count_times sp ip n ?st = Inr st'" "num_int_frag_entries st' = int n" "num_dirs st' = 1"
    using count_times_runs [OF assms(4,5) room] by (auto simp: stat_start_def)
  have d: "direct_frag (find_int_frag f v sp) v sp ip [0..<i_ndzones ip] (int n, ?st) = Inr (0, st')"
    using direct_empty [OF assms(6,10), of "[0..<i_ndzones ip]"] assms(7,9) s(1) by (simp add: min_def)
  have "find_int_frag (Suc f) v sp ip (stat_start sp) = Inr st'"
    using assms(3) d n by (simp add: Let_def c add_long_in stat_start_def)
  with assms(2) s(2,3) show ?thesis by (simp add: fs_get_int_frag_def)
qed

theorem empty_directory_report_witness:
  "\<exists>out. fs_get_int_frag 1 (demo_fs (\<lambda>_ _. 0)) small_sb 4 = Inr out \<and> number_of_files out = 1"
proof -
  let ?v = "demo_fs (\<lambda>_ _. 0)" and ?ip = "demo_file 4 16384 2048 [11, 12, 0, 0]"
  have h: "get_inode ?v 4 = Some ?ip" "i_mode ?ip AND I_TYPE ?v = I_DIRECTORY ?v" "0 < s_block_size small_sb"
    "0 \<le> i_size ?ip" "s_log_zone_size small_sb = 0"
    "\<forall>b. no_entries ?v small_sb (get_block ?v (i_dev ?ip) b)"
    by (simp_all add: demo_fs_def demo_file_def small_sb_def demo_sb_def no_entries_def)
  have n: "nat (ceil_div (i_size ?ip) (s_block_size small_sb)) = 2"
    by (simp add: demo_file_def small_sb_def demo_sb_def ceil_div_def)
  have z: "\<forall>i<i_ndzones ?ip. i < length (i_zone ?ip) \<and> i_zone ?ip ! i \<noteq> NO_ZONE ?v"
    by (auto simp: demo_file_def demo_fs_def less_Suc_eq numeral_2_eq_2)
  have "2 \<le> i_ndzones ?ip" by (simp add: demo_file_def)
  moreover have "int 2 * s_block_size small_sb < 2 ^ 31" by (simp add: small_sb_def demo_sb_def)
  ultimately show ?thesis using empty_directory_report [OF h(1-5) _ _ z h(6), of 0] n by simp
qed

end
