(* ===== verification/ToolStack.thy ===== *)
theory ToolStack
  imports ToolMain VfsProtocol MfsCache MfsIntFrag
begin

text \<open>
  The file system tool from end to end: the calls of a command (ToolMain) go through the call
  table of VFS to the system calls (VfsTool), whose messages (VfsRequest) go through the call
  table of a file system (VfsMsg) to its handlers (MfsFrag, MfsBlocks, MfsIntFrag). The loop of
  MFS that receives a message is MINIX's; it is taken to call the entry of the table
  that VfsMsg describes.
\<close>

section \<open>A file system as VFS sees it\<close>

text \<open>What the three handlers of the tool print.\<close>

datatype report = ExtFrag "frag_report option" | BlockList "(int \<times> int) list" | IntFrag int_report

text \<open>None is a handler of MINIX. The fuel f is for the recursion through directories.\<close>

definition mfs_serve :: "nat \<Rightarrow> fs_volume \<Rightarrow> super_block \<Rightarrow> int \<Rightarrow> fs_message \<Rightarrow> report res option" where
  "mfs_serve f v sp base fs_m_in =
     (let h = handler_of mfs_call_vec base fs_m_in
      in if h = ''fs_getfrag'' then Some (bnd (fs_getfrag (disk.truncate v) sp) (\<lambda>(r, out). Inr (ExtFrag out)))
         else if h = ''fs_get_inode_blocks'' then
           Some (bnd (field fs_m_in REQ_INODE_NR) (\<lambda>nr.
             bnd (fs_get_inode_blocks (volume.truncate v) sp (u32 nr)) (\<lambda>rs. Inr (BlockList rs))))
         else if h = ''fs_get_int_frag'' then
           Some (bnd (field fs_m_in REQ_INODE_NR) (\<lambda>nr.
             bnd (fs_get_int_frag f v sp (u32 nr)) (\<lambda>out. Inr (IntFrag out))))
         else None)"

text \<open>The messages of an operation, in order.\<close>

definition messages :: "event list \<Rightarrow> fs_message list" where
  "messages tr = map snd (sent tr)"

lemma messages_simps [simp]:
  "messages [] = []" "messages (Sent e m # tr) = m # messages tr" "messages (xs @ ys) = messages xs @ messages ys"
  by (simp_all add: messages_def)

text \<open>The calls of a program, one after the other; each is given its number and message.\<close>

fun run_calls :: "(nat \<times> tool_message \<Rightarrow> tool_out vfs_op option) \<Rightarrow> (nat \<times> tool_message) list \<Rightarrow> tool_out list vfs_op" where
  "run_calls vfs [] = ret []"
| "run_calls vfs (c # cs) =
     (case vfs c of
        None \<Rightarrow> run_calls vfs cs
      | Some op \<Rightarrow> seq op (\<lambda>out. seq (run_calls vfs cs) (\<lambda>outs. ret (out # outs))))"

section \<open>The contract of a file system with the tool\<close>

text \<open>
  What the system calls of the tool rely on: the file system answers each of the three messages
  with a reply of its own, which for two of them depends on the inode number only.
\<close>

locale tool_file_server =
  fixes answer :: "int \<Rightarrow> fs_message \<Rightarrow> 'out"
    and on_frag :: 'out
    and on_blocks :: "int \<Rightarrow> 'out"
    and on_int_frag :: "int \<Rightarrow> 'out"
  assumes answers_frag: "m_type m = Some (REQ_EXTFRAG base) \<Longrightarrow> answer base m = on_frag"
    and answers_blocks: "m_type m = Some (REQ_GETINODEBLOCKS base) \<Longrightarrow> m9 m REQ_INODE_NR = Some i \<Longrightarrow>
      answer base m = on_blocks (u32 i)"
    and answers_int_frag: "m_type m = Some (REQ_INT_FRAG base) \<Longrightarrow> m9 m REQ_INODE_NR = Some i \<Longrightarrow>
      answer base m = on_int_frag (u32 i)"
begin

text \<open>The replies to the messages in a trace.\<close>

definition replies :: "env \<Rightarrow> event list \<Rightarrow> 'out list" where
  "replies env tr = map (answer (VFS_BASE env)) (messages tr)"

lemma replies_append [simp]: "replies env (xs @ ys) = replies env xs @ replies env ys"
  by (simp add: replies_def)

lemma replies_Nil [simp]: "replies env [] = []"
  by (simp add: replies_def)

lemma inode_requests:
  assumes "fits (slot_bits env) REQ_INODE_NR nr"
  shows "\<exists>r ev. req_inode_blocks env fs_e nr dev tr = Inr (r, tr @ ev) \<and> replies env ev = [on_blocks (u32 nr)]"
    and "\<exists>r ev. req_int_frag env fs_e nr dev tr = Inr (r, tr @ ev) \<and> replies env ev = [on_int_frag (u32 nr)]"
proof -
  let ?fs = "[(REQ_INODE_NR, nr), (REQ_DEV, dev)]"
  have "distinct (map fst ?fs)" by (simp add: field_slots)
  then have n: "m9 (request (slot_bits env) t ?fs) REQ_INODE_NR = Some nr" for t
    using request_at [of ?fs REQ_INODE_NR nr "slot_bits env" t] assms by simp
  show "\<exists>r ev. req_inode_blocks env fs_e nr dev tr = Inr (r, tr @ ev) \<and> replies env ev = [on_blocks (u32 nr)]"
    by (simp add: req_inode_blocks_def send_only_run replies_def answers_blocks [OF request_type n])
  show "\<exists>r ev. req_int_frag env fs_e nr dev tr = Inr (r, tr @ ev) \<and> replies env ev = [on_int_frag (u32 nr)]"
    by (simp add: req_int_frag_def send_only_run replies_def answers_int_frag [OF request_type n])
qed

lemma fraginfo_replies:
  "\<exists>ev. do_fraginfo env (Inr vp) tr = Inr (\<lparr>tool_answer = OK, listed = None, unlocked = True\<rparr>, tr @ ev) \<and>
     replies env ev = [on_frag]"
  by (simp add: do_fraginfo_def req_frag_def seq_def send_only_run ret_def replies_def
      answers_frag [OF request_type])

text \<open>Without the list of processes, do_fileinfo sends what its mode asks for.\<close>

lemma fileinfo_replies:
  assumes "fits (slot_bits env) REQ_INODE_NR (v_inode_nr vp)" and "mode AND 1 \<noteq> 1"
  shows "\<exists>out ev. do_fileinfo env fproc junk (Inr vp) mode tr = Inr (out, tr @ ev) \<and>
    replies env ev = (if mode AND 2 = 2 then [on_blocks (u32 (v_inode_nr vp))] else []) @
      (if mode AND 4 = 4 then [on_int_frag (u32 (v_inode_nr vp))] else [])"
proof -
  let ?nr = "v_inode_nr vp" and ?e = "v_fs_e vp" and ?d = "v_dev vp"
  have "\<exists>r ev. (if mode AND 2 = 2 then req_inode_blocks env ?e ?nr ?d else ret OK) tr = Inr (r, tr @ ev) \<and>
      replies env ev = (if mode AND 2 = 2 then [on_blocks (u32 ?nr)] else [])"
    using inode_requests(1) [OF assms(1)] by (simp add: ret_def)
  then obtain r1 ev1 where a: "(if mode AND 2 = 2 then req_inode_blocks env ?e ?nr ?d else ret OK) tr = Inr (r1, tr @ ev1)"
    "replies env ev1 = (if mode AND 2 = 2 then [on_blocks (u32 ?nr)] else [])" by blast
  have "\<exists>r ev. (if mode AND 4 = 4 then req_int_frag env ?e ?nr ?d else ret r1) (tr @ ev1) = Inr (r, (tr @ ev1) @ ev) \<and>
      replies env ev = (if mode AND 4 = 4 then [on_int_frag (u32 ?nr)] else [])"
    using inode_requests(2) [OF assms(1)] by (simp add: ret_def del: append_assoc)
  then obtain r2 ev2 where b: "(if mode AND 4 = 4 then req_int_frag env ?e ?nr ?d else ret r1) (tr @ ev1) = Inr (r2, (tr @ ev1) @ ev2)"
    "replies env ev2 = (if mode AND 4 = 4 then [on_int_frag (u32 ?nr)] else [])" by blast
  have "do_fileinfo env fproc junk (Inr vp) mode tr =
      Inr (\<lparr>tool_answer = r2, listed = None, unlocked = True\<rparr>, tr @ ev1 @ ev2)"
    using assms(2) a(1) b(1) by (simp add: do_fileinfo_def seq_def ret_def)
  with a(2) b(2) show ?thesis
    by (intro exI [of _ "\<lparr>tool_answer = r2, listed = None, unlocked = True\<rparr>"] exI [of _ "ev1 @ ev2"]) simp
qed

text \<open>A series of calls of mode 4, as fraginfo makes them, has the replies in the order of the calls.\<close>

lemma int_frag_calls_replies:
  assumes "\<forall>f\<in>set fs. \<exists>vp. find_file f = Inr vp \<and> fits (slot_bits env) REQ_INODE_NR (v_inode_nr vp)"
  shows "\<exists>outs ev. run_calls (serve_tool env fproc junk find_file) (map (\<lambda>f. lib_fileinfo f 4) fs) tr = Inr (outs, tr @ ev) \<and>
    length outs = length fs \<and>
    replies env ev = map (\<lambda>f. on_int_frag (u32 (case find_file f of Inr vp \<Rightarrow> v_inode_nr vp | Inl _ \<Rightarrow> 0))) fs"
  using assms
proof (induction fs arbitrary: tr)
  case Nil
  then show ?case by (simp add: ret_def)
next
  case (Cons f fs)
  then obtain vp where vp: "find_file f = Inr vp" "fits (slot_bits env) REQ_INODE_NR (v_inode_nr vp)" by auto
  from fileinfo_replies [OF vp(2), of 4 fproc junk tr] obtain out ev1 where
    a: "do_fileinfo env fproc junk (Inr vp) 4 tr = Inr (out, tr @ ev1)"
      "replies env ev1 = [on_int_frag (u32 (v_inode_nr vp))]" by auto
  from Cons.IH [of "tr @ ev1"] Cons.prems obtain outs ev2 where
    b: "run_calls (serve_tool env fproc junk find_file) (map (\<lambda>f. lib_fileinfo f 4) fs) (tr @ ev1) = Inr (outs, (tr @ ev1) @ ev2)"
      "length outs = length fs"
      "replies env ev2 = map (\<lambda>f. on_int_frag (u32 (case find_file f of Inr vp \<Rightarrow> v_inode_nr vp | Inl _ \<Rightarrow> 0))) fs" by auto
  have "run_calls (serve_tool env fproc junk find_file) (map (\<lambda>f. lib_fileinfo f 4) (f # fs)) tr =
      Inr (out # outs, tr @ ev1 @ ev2)"
    using a(1) b(1) by (simp add: serve_tool_library vp(1) seq_def ret_def)
  with a(2) b(2,3) vp(1) show ?case by (intro exI [of _ "out # outs"] exI [of _ "ev1 @ ev2"]) simp
qed

end

section \<open>The three file systems\<close>

lemma tool_entries:
  "mfs_call_vec ! 33 = ''fs_getfrag''" "mfs_call_vec ! 34 = ''fs_get_inode_blocks''"
  "mfs_call_vec ! 35 = ''fs_get_int_frag''" "length mfs_call_vec = 36"
  "hgfs_call_vec ! 33 = ''no_sys''" "hgfs_call_vec ! 34 = ''no_sys''" "hgfs_call_vec ! 35 = ''no_sys''"
  "length hgfs_call_vec = 36" "vtreefs_call_vec ! 33 = ''no_sys''" "vtreefs_call_vec ! 34 = ''no_sys''"
  "vtreefs_call_vec ! 35 = ''no_sys''" "length vtreefs_call_vec = 36"
  by (simp_all add: mfs_call_vec_def hgfs_call_vec_def vtreefs_call_vec_def)

lemma handler_of_tool:
  assumes "length vec = 36"
  shows "m_type m = Some (REQ_EXTFRAG base) \<Longrightarrow> handler_of vec base m = vec ! 33"
    and "m_type m = Some (REQ_GETINODEBLOCKS base) \<Longrightarrow> handler_of vec base m = vec ! 34"
    and "m_type m = Some (REQ_INT_FRAG base) \<Longrightarrow> handler_of vec base m = vec ! 35"
  using assms by (simp_all add: handler_of_def request_numbers)

interpretation mfs: tool_file_server "mfs_serve f v sp"
    "Some (bnd (fs_getfrag (disk.truncate v) sp) (\<lambda>(r, out). Inr (ExtFrag out)))"
    "\<lambda>nr. Some (bnd (fs_get_inode_blocks (volume.truncate v) sp nr) (\<lambda>rs. Inr (BlockList rs)))"
    "\<lambda>nr. Some (bnd (fs_get_int_frag f v sp nr) (\<lambda>out. Inr (IntFrag out)))"
  for f v sp
  by unfold_locales (simp_all add: mfs_serve_def handler_of_tool tool_entries field_def Let_def)

interpretation hgfs: tool_file_server "handler_of hgfs_call_vec" "''no_sys''" "\<lambda>_. ''no_sys''" "\<lambda>_. ''no_sys''"
  by unfold_locales (simp_all add: handler_of_tool tool_entries)

interpretation vtreefs: tool_file_server "handler_of vtreefs_call_vec" "''no_sys''" "\<lambda>_. ''no_sys''" "\<lambda>_. ''no_sys''"
  by unfold_locales (simp_all add: handler_of_tool tool_entries)

section \<open>Properties\<close>

lemma mode_blocks:
  "mode_of False True AND 1 \<noteq> 1" "mode_of False True AND 2 = 2" "\<not> mode_of False True AND 4 = 4"
  by (simp_all add: mode_of_def)

text \<open>
  C38. The whole path of the command fileinfo with option b: its one call is taken by VFS to
  do_fileinfo, which finds the file and sends one message to its file system; MFS answers it
  with ranges, which are exactly the blocks of the file in order and cannot be joined. The
  other two file systems take the same message to no_sys.
\<close>

theorem fileinfo_prints_blocks:
  fixes v sp ip
  defines "sc \<equiv> s_log_zone_size sp"
  defines "bs \<equiv> take (nat (ceil_div (i_size ip) (s_block_size sp))) (blocks_of (volume.truncate v) sc (file_zones (volume.truncate v) sc ip))"
  assumes "\<forall>a\<in>set args. length a < 256 \<and> (flag a \<longrightarrow> CHR ''h'' \<notin> set a)" and "filter (\<lambda>a. \<not> flag a) args = [f]"
    and "asked CHR ''b'' args" and "\<not> asked CHR ''p'' args"
    and "find_file f = Inr vp" and "fits (slot_bits env) REQ_INODE_NR (v_inode_nr vp)"
    and "get_inode v (u32 (v_inode_nr vp)) = Some ip" and "faithful (volume.truncate v) (i_dev ip)"
    and "i_ndzones ip + 1 < length (i_zone ip)" and "0 < i_size ip" and "0 < s_block_size sp"
    and "bs \<noteq> []" and "2 ^ 32 - 1 \<notin> set bs"
  shows "\<exists>call m rs outs. fileinfo_main args = Inr (Some call) \<and>
    run_calls (serve_tool env fproc junk find_file) [call] [] = Inr (outs, [Sent (v_fs_e vp) m]) \<and>
    mfs_serve fuel v sp (VFS_BASE env) m = Some (Inr (BlockList rs)) \<and> expand rs = bs \<and> maximal rs \<and>
    handler_of hgfs_call_vec (VFS_BASE env) m = ''no_sys'' \<and> handler_of vtreefs_call_vec (VFS_BASE env) m = ''no_sys''"
proof -
  let ?v = "volume.truncate v" and ?nr = "v_inode_nr vp"
  let ?m = "request (slot_bits env) (REQ_GETINODEBLOCKS (VFS_BASE env)) [(REQ_INODE_NR, ?nr), (REQ_DEV, v_dev vp)]"
  have "\<exists>a\<in>set args. flag a" using assms(5) by (auto simp: asked_def)
  with fileinfo_command_served [OF assms(3,4), of env fproc junk find_file] assms(5-7) obtain call where
    c: "fileinfo_main args = Inr (Some call)"
      "serve_tool env fproc junk find_file call = Some (do_fileinfo env fproc junk (Inr vp) (mode_of False True))"
    by auto
  obtain out where d: "do_fileinfo env fproc junk (Inr vp) (mode_of False True) [] = Inr (out, [Sent (v_fs_e vp) ?m])"
    by (simp add: do_fileinfo_def mode_blocks seq_def ret_def req_inode_blocks_def send_only_run)
  have "get_inode ?v (u32 ?nr) = Some ip" using assms(9) by (simp add: volume.truncate_def)
  from blocks_printed_law [OF this assms(10,11) assms(12,13), of] assms(14,15) obtain rs where
    r: "fs_get_inode_blocks ?v sp (u32 ?nr) = Inr rs" "expand rs = bs" "maximal rs"
    unfolding bs_def sc_def by blast
  have n: "m9 ?m REQ_INODE_NR = Some ?nr"
    by (rule request_at) (simp_all add: field_slots assms(8) [unfolded field_slots])
  show ?thesis
    using c d r hgfs.answers_blocks [OF request_type n] vtreefs.answers_blocks [OF request_type n]
      mfs.answers_blocks [OF request_type n, of fuel v sp]
    by (intro exI [of _ call] exI [of _ ?m] exI [of _ rs] exI [of _ "[out]"]) (simp add: seq_def ret_def)
qed

text \<open>A file of five blocks in inode 5, known to VFS.\<close>

definition stack_volume :: fs_volume where
  "stack_volume = volume.extend demo_volume (fs_volume.fields (\<lambda>_. 4) 15 8)"

definition stack_vnode :: vnode where
  "stack_vnode = demo_vnode\<lparr>v_inode_nr := 5\<rparr>"

lemma stack_simps:
  "volume.truncate stack_volume = demo_volume" "get_inode stack_volume n = get_inode demo_volume n"
  "v_inode_nr stack_vnode = 5" "v_fs_e stack_vnode = 5"
  by (simp_all add: stack_volume_def volume.defs fs_volume.defs demo_volume_def stack_vnode_def demo_vnode_def)

theorem fileinfo_prints_blocks_witness:
  "\<exists>call m rs outs. fileinfo_main [''-b'', ''/f''] = Inr (Some call) \<and>
     run_calls (serve_tool demo_env [] [] (\<lambda>_. Inr stack_vnode)) [call] [] = Inr (outs, [Sent 5 m]) \<and>
     mfs_serve 0 stack_volume (demo_sb\<lparr>s_log_zone_size := 1\<rparr>) (VFS_BASE demo_env) m = Some (Inr (BlockList rs)) \<and>
     expand rs = [20, 21, 22, 23, 60]"
proof -
  have a: "\<forall>a\<in>set [''-b'', ''/f'']. length a < 256 \<and> (flag a \<longrightarrow> CHR ''h'' \<notin> set a)"
    "filter (\<lambda>a. \<not> flag a) [''-b'', ''/f''] = [''/f'']"
    "asked CHR ''b'' [''-b'', ''/f'']" "\<not> asked CHR ''p'' [''-b'', ''/f'']"
    by code_simp+
  have z: "s_log_zone_size (demo_sb\<lparr>s_log_zone_size := 1\<rparr>) = 1" "s_block_size (demo_sb\<lparr>s_log_zone_size := 1\<rparr>) = 1024"
    by (simp_all add: demo_sb_def)
  have f: "fits (slot_bits demo_env) REQ_INODE_NR (v_inode_nr stack_vnode)"
    by (simp add: fits_def demo_env_def field_slots stack_simps)
  have i: "get_inode stack_volume (u32 (v_inode_nr stack_vnode)) = Some demo_inode"
    using demo_volume_simps(1) by (simp add: stack_simps u32_def)
  have v: "faithful (volume.truncate stack_volume) (i_dev demo_inode)"
    using demo_volume_simps(2) by (simp add: stack_simps)
  from fileinfo_prints_blocks [OF a refl f i v demo_volume_simps(3,4), of "demo_sb\<lparr>s_log_zone_size := 1\<rparr>" "[]" "[]" 0]
  show ?thesis unfolding z stack_simps demo_blocks by auto
qed

text \<open>
  C39. The whole path of the command fraginfo without a file name: MFS is asked for the internal
  fragmentation from one file of every device in the list, one message per call in the order
  of the list, and answers each with the report that starts at the inode of that file. With
  option e and a file name, MFS prints the report on the whole file system.
\<close>

theorem fraginfo_prints_reports:
  assumes "list_all device_ok dps" and "length str = 256" and "length a = 256" and "length b = 256"
    and "\<forall>f\<in>set (one_per_device [] dps). \<exists>vp. find_file f = Inr vp \<and> fits (slot_bits env) REQ_INODE_NR (v_inode_nr vp)"
    and "find_file f = Inr vp" and "length f < 256" and "\<not> flag f"
  shows "(\<exists>calls outs ev. fraginfo_main [] (Some (typed (map device_line dps))) str [a, b] = Inr calls \<and>
      run_calls (serve_tool env fproc junk find_file) calls [] = Inr (outs, ev) \<and>
      length outs = length (one_per_device [] dps) \<and>
      map (mfs_serve fuel v sp (VFS_BASE env)) (messages ev) =
        map (\<lambda>f. Some (bnd (fs_get_int_frag fuel v sp (u32 (case find_file f of Inr vp \<Rightarrow> v_inode_nr vp | Inl _ \<Rightarrow> 0)))
          (\<lambda>out. Inr (IntFrag out)))) (one_per_device [] dps)) \<and>
    (\<exists>calls outs ev. fraginfo_main [''-e'', f] dev_ini str bs = Inr calls \<and>
      run_calls (serve_tool env fproc junk find_file) calls [] = Inr (outs, ev) \<and>
      map (mfs_serve fuel v sp (VFS_BASE env)) (messages ev) =
        [Some (bnd (fs_getfrag (disk.truncate v) sp) (\<lambda>(r, out). Inr (ExtFrag out)))])"
proof
  have "fraginfo_main [] (Some (typed (map device_line dps))) str [a, b] =
      Inr (map (\<lambda>f. lib_fileinfo f 4) (one_per_device [] dps))"
    using device_loop_run [OF assms(1-4)] by (simp add: fraginfo_main_def)
  moreover obtain outs ev where
    "run_calls (serve_tool env fproc junk find_file) (map (\<lambda>f. lib_fileinfo f 4) (one_per_device [] dps)) [] = Inr (outs, ev)"
    "length outs = length (one_per_device [] dps)"
    "mfs.replies fuel v sp env ev = map (\<lambda>f. Some (bnd (fs_get_int_frag fuel v sp
       (u32 (case find_file f of Inr vp \<Rightarrow> v_inode_nr vp | Inl _ \<Rightarrow> 0))) (\<lambda>out. Inr (IntFrag out)))) (one_per_device [] dps)"
    using mfs.int_frag_calls_replies [OF assms(5), of fproc junk "[]" fuel v sp] by auto
  ultimately show "\<exists>calls outs ev. fraginfo_main [] (Some (typed (map device_line dps))) str [a, b] = Inr calls \<and>
      run_calls (serve_tool env fproc junk find_file) calls [] = Inr (outs, ev) \<and>
      length outs = length (one_per_device [] dps) \<and>
      map (mfs_serve fuel v sp (VFS_BASE env)) (messages ev) =
        map (\<lambda>f. Some (bnd (fs_get_int_frag fuel v sp (u32 (case find_file f of Inr vp \<Rightarrow> v_inode_nr vp | Inl _ \<Rightarrow> 0)))
          (\<lambda>out. Inr (IntFrag out)))) (one_per_device [] dps)"
    unfolding mfs.replies_def by blast
next
  have "fraginfo_main [''-e'', f] dev_ini str bs = Inr [lib_fraginfo f 0]"
    using assms(7,8) by (simp add: fraginfo_main_def flag_def)
  moreover obtain ev where "do_fraginfo env (Inr vp) [] = Inr (\<lparr>tool_answer = 0, listed = None, unlocked = True\<rparr>, ev)"
    "mfs.replies fuel v sp env ev = [Some (bnd (fs_getfrag (disk.truncate v) sp) (\<lambda>(r, out). Inr (ExtFrag out)))]"
    using mfs.fraginfo_replies [of env vp "[]" fuel v sp] by auto
  ultimately show "\<exists>calls outs ev. fraginfo_main [''-e'', f] dev_ini str bs = Inr calls \<and>
      run_calls (serve_tool env fproc junk find_file) calls [] = Inr (outs, ev) \<and>
      map (mfs_serve fuel v sp (VFS_BASE env)) (messages ev) =
        [Some (bnd (fs_getfrag (disk.truncate v) sp) (\<lambda>(r, out). Inr (ExtFrag out)))]"
    by (intro exI [of _ "[lib_fraginfo f 0]"] exI [of _ "[\<lparr>tool_answer = 0, listed = None, unlocked = True\<rparr>]"] exI [of _ ev])
      (simp add: serve_tool_library assms(6) mfs.replies_def seq_def ret_def)
qed

theorem fraginfo_prints_reports_witness:
  "\<exists>calls outs ev. fraginfo_main [] (Some (typed [''7 /etc'', ''7 /bin'', ''9 /usr''])) (replicate 256 NUL)
       [replicate 256 NUL, replicate 256 NUL] = Inr calls \<and>
     run_calls (serve_tool demo_env [] [] (\<lambda>f. Inr (demo_vnode\<lparr>v_inode_nr := int (length f)\<rparr>))) calls [] = Inr (outs, ev) \<and>
     map (mfs_serve 3 (demo_fs demo_entries) small_sb (VFS_BASE demo_env)) (messages ev) =
       replicate 2 (Some (bnd (fs_get_int_frag 3 (demo_fs demo_entries) small_sb 4) (\<lambda>out. Inr (IntFrag out))))"
proof -
  let ?dps = "[(''7'', ''/etc''), (''7'', ''/bin''), (''9'', ''/usr'')]"
  let ?find = "\<lambda>f. Inr (demo_vnode\<lparr>v_inode_nr := int (length f)\<rparr>) :: int + vnode"
  have o: "list_all device_ok ?dps" "map device_line ?dps = [''7 /etc'', ''7 /bin'', ''9 /usr'']"
    "one_per_device [] ?dps = [''/etc'', ''/usr'']" "\<not> flag ''/''" "length ''/'' < 256" by code_simp+
  have f: "\<forall>f\<in>set (one_per_device [] ?dps). \<exists>vp. ?find f = Inr vp \<and> fits (slot_bits demo_env) REQ_INODE_NR (v_inode_nr vp)"
    unfolding o(3) by (simp add: fits_def demo_env_def field_slots)
  have l: "length (replicate 256 NUL) = 256" by simp
  have r: "map (\<lambda>f. Some (bnd (fs_get_int_frag 3 (demo_fs demo_entries) small_sb
      (u32 (case ?find f of Inr vp \<Rightarrow> v_inode_nr vp | Inl _ \<Rightarrow> 0))) (\<lambda>out. Inr (IntFrag out)))) [''/etc'', ''/usr''] =
    replicate 2 (Some (bnd (fs_get_int_frag 3 (demo_fs demo_entries) small_sb 4) (\<lambda>out. Inr (IntFrag out))))"
    by (simp add: u32_def numeral_2_eq_2)
  from conjunct1 [OF fraginfo_prints_reports [OF o(1) l l l f refl o(5,4), of "[]" "[]" 3 "demo_fs demo_entries" small_sb]]
  show ?thesis unfolding o(2,3) r by blast
qed

end
