(* ===== verification/ToolDev.thy ===== *)
theory ToolDev
  imports ToolMain
begin

text \<open>
  The program get_dev (prj_3/tool/get_dev.c), the forerunner of fraginfo without a file name: it
  reads the same list of devices and prints, where fraginfo asks the file system; and frag
  (prj_3/tool/frag.c), the forerunner of fraginfo with a file name.
\<close>

section \<open>get_dev\<close>

text \<open>The devices and files that are printed, in order.\<close>

function get_dev_loop ::
    "string \<Rightarrow> char list \<Rightarrow> char list list \<Rightarrow> string \<Rightarrow> (string \<times> string) list res" where
  "get_dev_loop inp str bs last_dev =
     (case read_line inp 0 str of
        Inl e \<Rightarrow> Inl e
      | Inr (n, str', rest) \<Rightarrow>
          if n = 0 then Inr []
          else bnd (bnd (word str') (\<lambda>l. field_loop l 0 0 bs)) (\<lambda>cl.
               bnd (word (cl ! 0)) (\<lambda>dev.
                 if last_dev = dev then get_dev_loop rest str' cl last_dev
                 else if dev = ''2'' then get_dev_loop rest str' cl last_dev
                 else bnd (word (cl ! 1)) (\<lambda>name.
                      bnd (get_dev_loop rest str' cl dev) (\<lambda>out. Inr ((dev, name) # out))))))"
  by pat_completeness auto
termination
  by (relation "measure (\<lambda>(inp, str, bs, last_dev). length inp)") (auto dest!: read_line_consumes)

declare get_dev_loop.simps [simp del]

definition get_dev_main ::
    "string option \<Rightarrow> char list \<Rightarrow> char list list \<Rightarrow> (string \<times> string) list res" where
  "get_dev_main dev_ini str bs =
     (case dev_ini of None \<Rightarrow> Inr [] | Some inp \<Rightarrow> get_dev_loop inp str bs [])"

section \<open>frag\<close>

text \<open>
  The test argc = 2 of the code is an assignment, so the mode is always argv[2], a pointer taken
  as an int: null behind the one argument, and behind the end of argv without an argument.
  \<open>address\<close> gives the address of an argument. The name goes into an array of 250.
\<close>

definition frag_main :: "(nat \<Rightarrow> int) \<Rightarrow> string list \<Rightarrow> (nat \<times> tool_message) res" where
  "frag_main address args =
     bnd (case args of
            [] \<Rightarrow> Inr ''/home/raj/cs551os/prj_3/src/sampledata.txt''
          | f # _ \<Rightarrow> if length f < 250 then Inr f else Inl BufferOverflow) (\<lambda>fname.
     bnd (if length args = 0 then Inl OutOfBounds
          else if length args = 1 then Inr 0 else Inr (address 2)) (\<lambda>mode.
     Inr (lib_fraginfo fname mode)))"

text \<open>frag with one argument makes the call that fraginfo makes for it with the option e.\<close>

lemma frag_is_fraginfo_e:
  assumes "length f < 250" and "\<not> flag f"
  shows "bnd (frag_main address [f]) (\<lambda>call. Inr [call]) = fraginfo_main [''-e'', f] dev_ini str bs"
proof -
  have "fraginfo_main [''-e'', f] dev_ini str bs = Inr [lib_fraginfo f 0]"
    using assms by (simp add: fraginfo_main_def flag_def)
  then show ?thesis using assms(1) by (simp add: frag_main_def)
qed

section \<open>Properties\<close>

lemma device_loop_get_dev:
  "device_loop inp str bs last_dev =
     bnd (get_dev_loop inp str bs last_dev) (\<lambda>ps. Inr (map (\<lambda>(dev, name). lib_fileinfo name 4) ps))"
proof (induction inp str bs last_dev rule: get_dev_loop.induct)
  case (1 inp str bs last_dev)
  show ?case
  proof (cases "read_line inp 0 str")
    case (Inl e)
    then show ?thesis by (simp add: device_loop.simps [of inp] get_dev_loop.simps [of inp])
  next
    case (Inr r)
    then obtain n l' rest where r: "read_line inp 0 str = Inr (n, l', rest)" by (cases r) auto
    show ?thesis
    proof (cases "n = 0")
      case True
      with r show ?thesis by (simp add: device_loop.simps [of inp] get_dev_loop.simps [of inp])
    next
      case False
      note ih = "1.IH" [OF r refl refl False]
      show ?thesis
      proof (cases "bnd (word l') (\<lambda>l. field_loop l 0 0 bs)")
        case (Inl e)
        with r False show ?thesis by (simp add: device_loop.simps [of inp] get_dev_loop.simps [of inp])
      next
        case (Inr cl)
        note f = this
        show ?thesis
        proof (cases "word (cl ! 0)")
          case (Inl e)
          with r False f show ?thesis by (simp add: device_loop.simps [of inp] get_dev_loop.simps [of inp])
        next
          case (Inr dev)
          with r False f ih [OF f Inr] show ?thesis
            by (cases "word (cl ! 1)"; cases "get_dev_loop rest l' cl dev")
              (auto simp: device_loop.simps [of inp] get_dev_loop.simps [of inp])
        qed
      qed
    qed
  qed
qed

text \<open>
  C35. On every list of devices, whatever is in it, fraginfo without a file name asks about
  exactly the files that get_dev prints, in the same order, and one has a fault where the other
  has one.
\<close>

theorem fraginfo_follows_get_dev:
  "fraginfo_main [] dev_ini str bs =
     bnd (get_dev_main dev_ini str bs) (\<lambda>ps. Inr (map (\<lambda>(dev, name). lib_fileinfo name 4) ps))"
  by (simp add: fraginfo_main_def get_dev_main_def device_loop_get_dev split: option.split)

end
