(* ===== verification/CallNumbers.thy ===== *)
theory CallNumbers
  imports MbLib ToolMain
begin

text \<open>
  The call numbers of the two patched systems (prj_2/src/callnr.h and prj_3/src/callnr.h) against
  the call tables of VFS (prj_2/src/table.c, prj_3/src/vfs/table.c).
\<close>

section \<open>The headers\<close>

text \<open>The header with the mailbox calls, in its order.\<close>

definition mailbox_callnr :: "(string \<times> nat) list" where
  "mailbox_callnr =
     [(''EXIT'', 1), (''FORK'', 2), (''READ'', 3), (''WRITE'', 4), (''OPEN'', 5), (''CLOSE'', 6),
      (''WAIT'', 7), (''CREAT'', 8), (''LINK'', 9), (''UNLINK'', 10), (''WAITPID'', 11),
      (''CHDIR'', 12), (''TIME'', 13), (''MKNOD'', 14), (''CHMOD'', 15), (''CHOWN'', 16),
      (''BRK'', 17), (''PREV_STAT'', 18), (''LSEEK'', 19), (''MINIX_GETPID'', 20),
      (''MOUNT'', 21), (''UMOUNT'', 22), (''SETUID'', 23), (''GETUID'', 24),
      (''STIME'', 25), (''PTRACE'', 26), (''ALARM'', 27), (''PREV_FSTAT'', 28),
      (''PAUSE'', 29), (''UTIME'', 30), (''GETEPINFO'', 31), (''SETGROUPS'', 32),
      (''ACCESS'', 33), (''GETGROUPS'', 34), (''SYNC'', 36), (''KILL'', 37),
      (''RENAME'', 38), (''MKDIR'', 39), (''RMDIR'', 40), (''DUP'', 41), (''PIPE'', 42),
      (''TIMES'', 43), (''SYMLINK'', 45), (''SETGID'', 46), (''GETGID'', 47),
      (''SIGNAL'', 48), (''RDLNK'', 49), (''PREV_LSTAT'', 50), (''STAT'', 51),
      (''FSTAT'', 52), (''LSTAT'', 53), (''IOCTL'', 54), (''FCNTL'', 55),
      (''FS_READY'', 57), (''EXEC'', 59), (''UMASK'', 60), (''CHROOT'', 61),
      (''SETSID'', 62), (''GETPGRP'', 63), (''ITIMER'', 64), (''GETGROUPS_O'', 65),
      (''SETGROUPS_O'', 66), (''GETMCONTEXT'', 67), (''SETMCONTEXT'', 68),
      (''SIGACTION'', 71), (''SIGSUSPEND'', 72), (''SIGPENDING'', 73),
      (''SIGPROCMASK'', 74), (''SIGRETURN'', 75), (''REBOOT'', 76), (''SVRCTL'', 77),
      (''SYSUNAME'', 78), (''GETDENTS'', 80), (''LLSEEK'', 81), (''FSTATFS'', 82),
      (''STATVFS'', 83), (''FSTATVFS'', 84), (''SELECT'', 85), (''FCHDIR'', 86),
      (''FSYNC'', 87), (''GETPRIORITY'', 88), (''SETPRIORITY'', 89),
      (''GETTIMEOFDAY'', 90), (''SETEUID'', 91), (''SETEGID'', 92), (''TRUNCATE'', 93),
      (''FTRUNCATE'', 94), (''FCHMOD'', 95), (''FCHOWN'', 96), (''SPROF'', 98),
      (''CPROF'', 99), (''EXEC_NEWMEM'', 100), (''SRV_FORK'', 101),
      (''EXEC_RESTART'', 102), (''GETPROCNR'', 104), (''ISSETUGID'', 106),
      (''GETEPINFO_O'', 107), (''SRV_KILL'', 111), (''GCOV_FLUSH'', 112),
      (''PM_GETSID'', 113), (''TASK_REPLY'', 121), (''MAPDRIVER'', 122),
      (''PRINTMESSAGE'', 69), (''DEPOSIT'', 97), (''RETRIEVE'', 103), (''CREATE_MB'', 105),
      (''DESTROY_MB'', 79), (''GET_AV_MB'', 108), (''REGISTER'', 109),
      (''GET_SENDERS'', 110)]"

text \<open>The header with the calls of the file system tool.\<close>

definition tool_callnr :: "(string \<times> nat) list" where
  "tool_callnr =
     [(''EXIT'', 1), (''FORK'', 2), (''READ'', 3), (''WRITE'', 4), (''OPEN'', 5), (''CLOSE'', 6),
      (''WAIT'', 7), (''CREAT'', 8), (''LINK'', 9), (''UNLINK'', 10), (''WAITPID'', 11),
      (''CHDIR'', 12), (''TIME'', 13), (''MKNOD'', 14), (''CHMOD'', 15), (''CHOWN'', 16),
      (''BRK'', 17), (''PREV_STAT'', 18), (''LSEEK'', 19), (''MINIX_GETPID'', 20),
      (''MOUNT'', 21), (''UMOUNT'', 22), (''SETUID'', 23), (''GETUID'', 24),
      (''STIME'', 25), (''PTRACE'', 26), (''ALARM'', 27), (''PREV_FSTAT'', 28),
      (''PAUSE'', 29), (''UTIME'', 30), (''GETEPINFO'', 31), (''SETGROUPS'', 32),
      (''ACCESS'', 33), (''GETGROUPS'', 34), (''SYNC'', 36), (''KILL'', 37),
      (''RENAME'', 38), (''MKDIR'', 39), (''RMDIR'', 40), (''DUP'', 41), (''PIPE'', 42),
      (''TIMES'', 43), (''SYMLINK'', 45), (''SETGID'', 46), (''GETGID'', 47),
      (''SIGNAL'', 48), (''RDLNK'', 49), (''PREV_LSTAT'', 50), (''STAT'', 51),
      (''FSTAT'', 52), (''LSTAT'', 53), (''IOCTL'', 54), (''FCNTL'', 55),
      (''FS_READY'', 57), (''EXEC'', 59), (''UMASK'', 60), (''CHROOT'', 61),
      (''SETSID'', 62), (''GETPGRP'', 63), (''ITIMER'', 64), (''GETGROUPS_O'', 65),
      (''SETGROUPS_O'', 66), (''GETMCONTEXT'', 67), (''SETMCONTEXT'', 68),
      (''FILEINFO'', 69), (''FRAGINFO'', 70), (''SIGACTION'', 71), (''SIGSUSPEND'', 72),
      (''SIGPENDING'', 73), (''SIGPROCMASK'', 74), (''SIGRETURN'', 75), (''REBOOT'', 76),
      (''SVRCTL'', 77), (''SYSUNAME'', 78), (''GETDENTS'', 80), (''LLSEEK'', 81),
      (''FSTATFS'', 82), (''STATVFS'', 83), (''FSTATVFS'', 84), (''SELECT'', 85),
      (''FCHDIR'', 86), (''FSYNC'', 87), (''GETPRIORITY'', 88), (''SETPRIORITY'', 89),
      (''GETTIMEOFDAY'', 90), (''SETEUID'', 91), (''SETEGID'', 92), (''TRUNCATE'', 93),
      (''FTRUNCATE'', 94), (''FCHMOD'', 95), (''FCHOWN'', 96), (''SPROF'', 98),
      (''CPROF'', 99), (''EXEC_NEWMEM'', 100), (''SRV_FORK'', 101),
      (''EXEC_RESTART'', 102), (''GETPROCNR'', 104), (''ISSETUGID'', 106),
      (''GETEPINFO_O'', 107), (''SRV_KILL'', 111), (''GCOV_FLUSH'', 112),
      (''PM_GETSID'', 113), (''TASK_REPLY'', 121), (''MAPDRIVER'', 122)]"

section \<open>Agreement with the tables\<close>

text \<open>The letters and the underscore of a call's name in lower case.\<close>

fun lower :: "char \<Rightarrow> char" where
  "lower (Char b0 b1 b2 b3 b4 b5 b6 b7) =
     (if Char b0 b1 b2 b3 b4 b5 b6 b7 = CHR ''_'' then CHR ''_'' else Char b0 b1 b2 b3 b4 True b6 b7)"

text \<open>The calls with a handler that is not named after them.\<close>

definition renamed :: "string list \<Rightarrow> (string \<times> nat) list \<Rightarrow> (string \<times> string) list" where
  "renamed vec nrs = map (\<lambda>(c, n). (c, vec ! n))
     (filter (\<lambda>(c, n). n < length vec \<and> vec ! n \<noteq> ''no_sys'' \<and> vec ! n \<noteq> ''do_'' @ map lower c) nrs)"

text \<open>The numbers of the calls that the patches add.\<close>

definition new_numbers :: "nat list" where
  "new_numbers = [FILEINFO, FRAGINFO, DESTROY_MB, DEPOSIT, RETRIEVE, CREATE_MB, GET_AV_MB, REGISTER, GET_SENDERS]"

definition new_calls :: "(string \<times> nat) list \<Rightarrow> (string \<times> nat) list" where
  "new_calls nrs = filter (\<lambda>(c, n). List.member new_numbers n) nrs"

definition old_calls :: "(string \<times> nat) list \<Rightarrow> (string \<times> nat) list" where
  "old_calls nrs = filter (\<lambda>(c, n). \<not> List.member new_numbers n) nrs"

section \<open>Properties\<close>

lemma numbers_distinct: "distinct (map snd mailbox_callnr)" "distinct (map snd tool_callnr)"
  by (simp_all add: mailbox_callnr_def tool_callnr_def)


end
