(* ===== verification/VfsTrans.thy ===== *)
theory VfsTrans
  imports VfsProtocol
begin

text \<open>
  Request numbers on their way (prj_3/src/include-minix/vfsif.h): a transaction number travels
  in the upper half of the type of a message, requests for the pipe file system have numbers of
  their own, and the call table of VFS for them (prj_3/src/vfs/table.c, pfs_call_vec). An int
  is a 32 word, a short a 16 word.
\<close>

unbundle bit_operations_syntax

section \<open>Transaction numbers\<close>

definition TRNS_GET_ID :: "32 word \<Rightarrow> 32 word" where
  "TRNS_GET_ID t = t AND 0xFFFF"

definition TRNS_ADD_ID :: "32 word \<Rightarrow> 32 word \<Rightarrow> 32 word" where
  "TRNS_ADD_ID t tid = push_bit 16 t OR (tid AND 0xFFFF)"

definition TRNS_DEL_ID :: "32 word \<Rightarrow> 16 word" where
  "TRNS_DEL_ID t = ucast (signed_drop_bit 16 t)"

definition IS_VFS_RQ :: "32 word \<Rightarrow> 32 word \<Rightarrow> bool" where
  "IS_VFS_RQ base ty \<longleftrightarrow> ty AND NOT 0xFF = base"

section \<open>Requests of the pipe file system\<close>

definition PFS_BASE :: "int \<Rightarrow> int" where "PFS_BASE base = base + 100"
definition PFS_REQ_CHECK_PERMS :: "int \<Rightarrow> int" where "PFS_REQ_CHECK_PERMS base = PFS_BASE base + 1"
definition PFS_REQ_VERIFY_FD :: "int \<Rightarrow> int" where "PFS_REQ_VERIFY_FD base = PFS_BASE base + 2"
definition PFS_REQ_SET_FILP :: "int \<Rightarrow> int" where "PFS_REQ_SET_FILP base = PFS_BASE base + 3"
definition PFS_REQ_COPY_FILP :: "int \<Rightarrow> int" where "PFS_REQ_COPY_FILP base = PFS_BASE base + 4"
definition PFS_REQ_PUT_FILP :: "int \<Rightarrow> int" where "PFS_REQ_PUT_FILP base = PFS_BASE base + 5"
definition PFS_REQ_CANCEL_FD :: "int \<Rightarrow> int" where "PFS_REQ_CANCEL_FD base = PFS_BASE base + 6"
definition PFS_NREQS :: int where "PFS_NREQS = 7"

definition IS_PFS_VFS_RQ :: "int \<Rightarrow> int \<Rightarrow> bool" where
  "IS_PFS_VFS_RQ base ty \<longleftrightarrow> PFS_BASE base \<le> ty \<and> ty < PFS_BASE base + PFS_NREQS"

definition pfs_call_vec :: "string list" where
  "pfs_call_vec =
     [''no_sys'', ''do_check_perms'', ''do_verify_fd'', ''do_set_filp'', ''do_copy_filp'', ''do_put_filp'',
      ''do_cancel_fd'']"

lemmas pfs_numbers = PFS_BASE_def PFS_REQ_CHECK_PERMS_def PFS_REQ_VERIFY_FD_def PFS_REQ_SET_FILP_def
  PFS_REQ_COPY_FILP_def PFS_REQ_PUT_FILP_def PFS_REQ_CANCEL_FD_def PFS_NREQS_def

section \<open>Properties\<close>

lemma bit_low_half: "bit (x AND 0xFFFF :: 32 word) n \<longleftrightarrow> n < 16 \<and> bit x n"
proof -
  have "(0xFFFF :: 32 word) = mask 16" by (simp add: mask_eq_exp_minus_1)
  then show ?thesis by (auto simp only: bit_and_iff bit_mask_iff min_less_iff_conj) (simp_all add: bit_imp_le_length)
qed

lemma TRNS_GET_ADD: "TRNS_GET_ID (TRNS_ADD_ID t tid) = tid AND 0xFFFF"
  by (rule bit_word_eqI) (auto simp: TRNS_GET_ID_def TRNS_ADD_ID_def bit_low_half bit_or_iff bit_push_bit_iff)

lemma TRNS_DEL_ADD: "TRNS_DEL_ID (TRNS_ADD_ID t tid) = ucast t"
  by (rule bit_word_eqI)
    (auto simp: TRNS_DEL_ID_def TRNS_ADD_ID_def bit_low_half bit_simps simp del: bit_and_iff)

lemma short_type:
  assumes "- (2 ^ 15) \<le> t" and "t < 2 ^ 15"
  shows "sint (ucast (word_of_int t :: 32 word) :: 16 word) = t"
proof -
  have "sint (ucast (word_of_int t :: 32 word) :: 16 word) = signed_take_bit 15 (take_bit 32 t)"
    by (simp add: unsigned_of_int sint_sbintrunc')
  also have "\<dots> = signed_take_bit 15 t" by (simp add: signed_take_bit_take_bit)
  also have "\<dots> = t" using assms by (simp add: signed_take_bit_int_eq_self_iff)
  finally show ?thesis .
qed

text \<open>The low byte of a request number, where the numbers start at a multiple of 256.\<close>

lemma request_base:
  assumes "base mod 256 = 0" and "0 \<le> r" and "r < 256"
  shows "IS_VFS_RQ (word_of_int base) (word_of_int (base + r))"
proof -
  have m: "(NOT 0xFF :: 32 word) = word_of_int (NOT (mask 8))" by (simp add: mask_eq_exp_minus_1)
  have "(base + r) AND NOT (mask 8) = push_bit 8 (drop_bit 8 (base + r))"
    by (rule bit_eqI) (auto simp: bit_simps)
  also have "\<dots> = (base + r) div 256 * 256" by (simp add: push_bit_eq_mult drop_bit_eq_div)
  also have "\<dots> = base"
  proof -
    from assms(1) obtain q where "base = 256 * q" by (auto elim: zmod_eq_0_iff [THEN iffD1, THEN exE])
    moreover have "(256 * q + r) div 256 = q" using assms(2,3) by simp
    ultimately show ?thesis by simp
  qed
  finally have a: "(base + r) AND NOT (mask 8) = base" .
  have "word_of_int (base + r) AND word_of_int (NOT (mask 8)) = (word_of_int ((base + r) AND NOT (mask 8)) :: 32 word)"
    by (rule of_int_and_eq [symmetric])
  then show ?thesis unfolding IS_VFS_RQ_def m a .
qed

text \<open>The handler of a request for the pipe file system.\<close>

lemma pfs_handler:
  "m_type m = Some t \<Longrightarrow> handler_of pfs_call_vec (PFS_BASE base) m \<noteq> [] \<longleftrightarrow> IS_PFS_VFS_RQ base t"
proof -
  have "pfs_call_vec ! n \<noteq> []" if "n < 7" for n
    using that by (auto simp: pfs_call_vec_def nth_Cons less_Suc_eq numeral_eq_Suc split: nat.split)
  then show "m_type m = Some t \<Longrightarrow> ?thesis"
    by (auto simp: handler_of_def IS_PFS_VFS_RQ_def pfs_numbers pfs_call_vec_def [THEN arg_cong [where f = length], simplified])
qed

text \<open>
  C30. A request number travels through a transaction: VFS puts the number of the transaction
  beside it, whatever it is, and takes out of the type of the answer the request number it put
  in and the low half of the transaction number. The number is still one of a request of VFS,
  has the handler it had, and only the numbers of the pipe file system are taken to the table for
  it, which has an entry for each of them and for no request that MFS serves.
\<close>

theorem request_numbers_travel:
  assumes "0 \<le> base" and "base < 2 ^ 15 - 256" and "base mod 256 = 0" and "0 \<le> r" and "r < 256"
    and "m_type m = Some (sint (TRNS_DEL_ID (TRNS_ADD_ID (word_of_int (base + r)) tid)))"
  shows "m_type m = Some (base + r) \<and>
    TRNS_GET_ID (TRNS_ADD_ID (word_of_int (base + r)) tid) = tid AND 0xFFFF \<and>
    IS_VFS_RQ (word_of_int base) (word_of_int (base + r)) \<and>
    handler_of mfs_call_vec base m = (if r < 36 then mfs_call_vec ! nat r else []) \<and>
    handler_of pfs_call_vec (PFS_BASE base) m = (if 100 \<le> r \<and> r < 107 then pfs_call_vec ! nat (r - 100) else []) \<and>
    (IS_PFS_VFS_RQ base (base + r) \<longleftrightarrow> handler_of pfs_call_vec (PFS_BASE base) m \<noteq> [])"
proof -
  have t: "m_type m = Some (base + r)"
    using assms(1-2,4-6) short_type [of "base + r"] by (simp add: TRNS_DEL_ADD)
  have l: "length mfs_call_vec = 36" "length pfs_call_vec = 7" by (simp_all add: mfs_call_vec_def pfs_call_vec_def)
  show ?thesis
    using t assms(4) l TRNS_GET_ADD request_base [OF assms(3-5)] pfs_handler [OF t, of base]
    by (auto simp: handler_of_def PFS_BASE_def)
qed

theorem request_numbers_travel_witness:
  "handler_of mfs_call_vec 0xA00 (request (\<lambda>_. 32)
     (sint (TRNS_DEL_ID (TRNS_ADD_ID (word_of_int (REQ_INT_FRAG 0xA00)) 70000))) []) = ''fs_get_int_frag'' \<and>
   TRNS_GET_ID (TRNS_ADD_ID (word_of_int (REQ_INT_FRAG 0xA00)) 70000) = 4464 \<and>
   handler_of pfs_call_vec (PFS_BASE 0xA00) (request (\<lambda>_. 32)
     (sint (TRNS_DEL_ID (TRNS_ADD_ID (word_of_int (PFS_REQ_CANCEL_FD 0xA00)) 7))) []) = ''do_cancel_fd''"
proof -
  have b: "(0::int) \<le> 0xA00" "(0xA00::int) < 2 ^ 15 - 256" "(0xA00::int) mod 256 = 0" "(0::int) \<le> 35" "(35::int) < 256"
    "(0::int) \<le> 106" "(106::int) < 256" by simp_all
  from request_numbers_travel [OF b(1-5) request_type, of "\<lambda>_. 32" 70000 "[]"]
    request_numbers_travel [OF b(1-3,6,7) request_type, of "\<lambda>_. 32" 7 "[]"] show ?thesis
    by (simp add: REQ_INT_FRAG_def PFS_REQ_CANCEL_FD_def PFS_BASE_def mfs_call_vec_def pfs_call_vec_def)
qed

end
