(* ===== verification/Spec2Isabelle.thy ===== *)
theory Spec2Isabelle
  imports MbClient MbLive MbDeadProps ShStart ShSignal ToolStack ToolDev CallNumbers VfsTrans
begin

text \<open>
  A verification library for the repository, which holds three course projects on MINIX 3:
  a shell (prj_1), mailboxes in the virtual file system server VFS (prj_2), and a tool that
  reports on files and fragmentation, with its parts in VFS and in the file system server MFS
  (prj_3).

  CONVENTIONS (Prelude). Where C leaves the behaviour undefined, an operation has a fault: a
  null or wild pointer, an index outside an array, a write past a buffer, a division by zero, a
  loop that does not end. The result type of everything that can fault is \<open>'a res\<close>, and \<open>bnd\<close>
  sequences such operations. Contents that malloc or the stack leave behind are parameters, as
  are the kernel calls (sys_datacopy, the grant calls, fs_sendrec), the block cache, and path
  resolution: code of MINIX outside the repository. What a server does to other processes, and
  what a file system prints, is a list of effects or a record of the numbers printed. malloc is
  taken to succeed; text printed for debugging is left out.

  THE MAILBOX SERVER (prj_2/src/mailbox.c). One VFS state holds the ten mailboxes, the id pool,
  the table of local sender ids, and the contexts of suspended senders.
    MbQueue     messages, mail nodes in a store addressed by pointers; putMsg, getMsg
    MbTable     id pool, search loops, create, destroy, register, list mailboxes and senders
    MbDeadlock  check_dead_lock and indicate_deadlock, both over the contexts
    MbCalls     do_deposit and do_retrieve, which use all of the above
    MbInv, MbPreserve   the consistency of a state, kept by every call; reachable states
    MbSpec      the abstract view (which ids live, who owns them, the messages in a mailbox as a
                list) and what each call does to it; MbCycle the same for the deadlock loops
    MbProps, MbDeadProps   the properties, over the sample state of MbDemo
    MbChain     the contexts as a table of waits, and the two deadlock loops read off it
    MbBoxes, MbServer   the server as a whole: a specification of ten boxes of strings and the
                waits of blocked senders, and its refinement by sessions of calls
    MbLive      what becomes of a receiver that waits while other processes call
    MbLib       the client library (mailbox_lib.c), the call numbers and the call table: a
                library call is a number and a message, and \<open>serve\<close> takes it to its handler
    MbClient    sessions of library calls against the specification of MbBoxes
  check_dead_lock and indicate_deadlock are loops without a bound. They carry fuel: 101 rounds
  for the first, after which its chain of contexts has entered a cycle, and 202 for the second,
  which frees a context in every other round. That the fuel is enough, and when the first one
  does not end, are properties.

  THE SHELL (prj_1).
    AssocAr     the alias table (assoc_ar.c), with the locale of dictionaries it instantiates
    ShParser    cleanCmd and parseCmd (parser.c), on buffers of the sizes the code allocates
    ShValid     validateIfElseCondition and validateCommand (valid.c)
    ShExec      split, execute_single and execute (exe.c); a process is a tree of system calls,
                whose branches are the answers of the kernel, so that a fork has both processes
    ShMain      the loop of main (mrpsh.c): startup, prompt, one line from parser to execution,
                and bye, which saves the aliases at exit
    ShStart     main up to its loop: the names of the files, and opening them
    ShSignal    the interrupt handler (signal.c), which reads the same input as the prompt
  execute recurses on the rest of the command list; its fuel is one more than the nesting depth
  of an if command, which is proved enough. The loops of ShMain consume their input.

  THE FILE SYSTEM TOOL (prj_3).
    ToolMain    the commands fileinfo and fraginfo, the library (fs_tool_lib.c), call table
    ToolDev     get_dev, which prints what fraginfo asks about, and frag
    VfsTool     the system calls do_fileinfo and do_fraginfo (fs_tool.c)
    VfsMsg      message fields, request numbers, call tables of MFS, HGFS, VTreeFS (vfsif.h)
    VfsRequest  the requests of VFS to file systems (request.c): each makes grants, sends one
                message, revokes the grants and reads the answer
    VfsProtocol the protocol between both: every request made in VfsRequest is a message whose
                number has a handler in the call tables of VfsMsg
    VfsTrans    transaction numbers beside request numbers, and the table for the pipe file system
    MfsFrag     the scan of the inode bitmap and the external fragmentation (mfs/misc.c)
    MfsBlocks   the walk over the zones of a file, and the ranges of blocks it prints
    MfsIntFrag  the internal fragmentation of a file or a directory tree
    MfsCache    fs_sync, fs_flush and fs_new_driver (mfs/misc.c) over the inode and block caches
    ToolStack   the layers put together: from the arguments of a command through the library, the
                call table, VFS, the request and the table of MFS to the report; its locale of a
                server of the two requests is interpreted on MFS, HGFS and VTreeFS
    CallNumbers the call numbers and tables of both patched systems against each other
  find_int_frag recurses through directories without a bound; it carries fuel. The properties
  that need a result say how much: one unit for a file, or a directory without files.

  WHAT THE LEMMAS SHOW. For the mailboxes: an invariant of every reachable state; sessions, also
  of library calls, refine boxes of strings with the waits of blocked senders, and the queues
  bounded lists; what every call does, on every branch; when the deadlock loops end and what they
  decide. For the shell: the alias table is a map while it has
  room; lines are cut, trimmed, validated and executed as their commands say, and if commands run
  as trees; what a session runs. For the tool: every request gives its grants back; the reports
  are the sums, extrema and ranges of what is on the disk; the requests have handlers, and a
  command given a file ends in the report MFS makes of it. Several properties state behaviour that
  the code's comments or documentation do not promise; they are marked as such in their texts.

  NOT MODELLED. The test programs (prj_2/test, prj_3/test): they ask for numbers at a terminal and
  call the library. The scratch programs: experiments, and an earlier copy of the alias table. In
  mrpsh.c the option -debug, the text of the prompt, and the wait status, all only printed. The
  headers proto.h declare functions. The percentages printed as floating point numbers are given
  by their integer operands; ints and longs are 32 bits wide where the reports depend on it.
\<close>

end
